(* ===== verification/Go_Prelude.thy ===== *)
theory Go_Prelude
  imports "HOL-Library.Word"
begin

unbundle bit_operations_syntax

section \<open>Shared vocabulary: Go machine types, slices and big-endian numbers\<close>

text \<open>
  Names for the Go types the components share, and the generic lemmas about them.
  A \<^verbatim>\<open>[]byte\<close> is a list of \<^typ>\<open>8 word\<close>, a \<^verbatim>\<open>uint64\<close> is a \<^typ>\<open>64 word\<close> whose arithmetic
  wraps, an \<^verbatim>\<open>int\<close> that only counts elements of a slice is a \<^typ>\<open>nat\<close>. A slice expression or an
  indexed write that panics in Go is an \<open>option\<close> here, with \<open>None\<close> for the panic.
  The collection \<open>go_simps\<close> gathers the rewrite rules of the slice operations, \<open>be_simps\<close>
  those of the big-endian numbers.
\<close>

named_theorems go_simps \<open>slices, copies and indexed writes of Go\<close>

named_theorems be_simps \<open>big-endian numbers\<close>

type_synonym byte = "8 word"
type_synonym bytes = "8 word list"
type_synonym uint64 = "64 word"

text \<open>\<open>xs[i:j]\<close>: panics when the bounds are not in order and in range.\<close>

definition go_slice :: "'a list \<Rightarrow> nat \<Rightarrow> nat \<Rightarrow> 'a list option" where
  "go_slice xs i j = (if i \<le> j \<and> j \<le> length xs then Some (take (j - i) (drop i xs)) else None)"

text \<open>\<open>copy(out[pos:], src)\<close>: the new contents of \<open>out\<close> and the number of elements copied.\<close>

definition go_copy :: "'a list \<Rightarrow> nat \<Rightarrow> 'a list \<Rightarrow> 'a list \<times> nat" where
  "go_copy out pos src =
     (let n = min (length out - pos) (length src)
      in (take pos out @ take n src @ drop (pos + n) out, n))"

text \<open>Indexed writes of consecutive elements from \<open>pos\<close> on: panic when one is out of range.\<close>

definition go_put :: "'a list \<Rightarrow> nat \<Rightarrow> 'a list \<Rightarrow> 'a list option" where
  "go_put out pos src =
     (if pos + length src \<le> length out
      then Some (take pos out @ src @ drop (pos + length src) out) else None)"

text \<open>The value of a big-endian byte string, and the shortest byte string with a given value.\<close>

definition be_val :: "bytes \<Rightarrow> nat" where
  "be_val bs = foldl (\<lambda>a b. a * 256 + unat b) 0 bs"

fun be_min :: "nat \<Rightarrow> bytes" where
  "be_min n = (if n = 0 then [] else be_min (n div 256) @ [word_of_nat n])"

declare be_min.simps [simp del]

text \<open>The outcome of a computation that may fail and whose recursion is bounded by fuel.\<close>

datatype ('e, 'a) run = OutOfFuel | Err 'e | Ok 'a

primrec bindr :: "('e, 'a) run \<Rightarrow> ('a \<Rightarrow> ('e, 'b) run) \<Rightarrow> ('e, 'b) run" where
  "bindr OutOfFuel f = OutOfFuel"
| "bindr (Err e) f = Err e"
| "bindr (Ok x) f = f x"

lemma bindr_Ok: "bindr r f = Ok y \<longleftrightarrow> (\<exists>x. r = Ok x \<and> f x = Ok y)"
  by (cases r) auto

subsection \<open>Slices\<close>

lemma go_slice_ok [go_simps]:
  "i \<le> j \<Longrightarrow> j \<le> length xs \<Longrightarrow> go_slice xs i j = Some (take (j - i) (drop i xs))"
  by (simp add: go_slice_def)

lemma go_copy_fits [go_simps]:
  "pos + length src \<le> length out \<Longrightarrow>
   go_copy out pos src = (take pos out @ src @ drop (pos + length src) out, length src)"
  by (simp add: go_copy_def min_absorb2 Let_def)

lemma go_put_fits [go_simps]:
  "pos + length src \<le> length out \<Longrightarrow>
   go_put out pos src = Some (take pos out @ src @ drop (pos + length src) out)"
  by (simp add: go_put_def)

subsection \<open>Big-endian numbers\<close>

lemma be_val_Nil [simp]: "be_val [] = 0"
  by (simp add: be_val_def)

lemma be_val_snoc [be_simps]: "be_val (bs @ [b]) = be_val bs * 256 + unat b"
  by (simp add: be_val_def)

lemma be_val_append: "be_val (xs @ ys) = be_val xs * 256 ^ length ys + be_val ys"
proof (induction ys rule: rev_induct)
  case Nil
  then show ?case by simp
next
  case (snoc y ys)
  then show ?case
    using be_val_snoc [of "xs @ ys" y] by (simp add: be_val_snoc algebra_simps)
qed

lemma be_val_Cons [be_simps]: "be_val (b # bs) = unat b * 256 ^ length bs + be_val bs"
  using be_val_append [of "[b]" bs] by (simp add: be_val_def)

lemma unat_byte_less [simp]: "unat (b :: byte) < 256"
  using unsigned_less [of b] by simp

lemma unat_byte_le [simp]: "unat (b :: byte) \<le> 255"
  using unat_byte_less [of b] by linarith

lemma be_val_less: "be_val bs < 256 ^ length bs"
proof (induction bs rule: rev_induct)
  case Nil
  then show ?case by simp
next
  case (snoc b bs)
  have "be_val bs * 256 + unat b < (be_val bs + 1) * 256" by simp
  also have "\<dots> \<le> 256 ^ length bs * 256"
    using snoc.IH by (simp only: mult_le_mono1 Suc_leI Suc_eq_plus1 [symmetric])
  finally show ?case by (simp add: be_val_snoc)
qed

lemma be_val_hd_pos: "bs \<noteq> [] \<Longrightarrow> hd bs \<noteq> 0 \<Longrightarrow> 256 ^ (length bs - 1) \<le> be_val bs"
  by (cases bs) (auto simp: be_val_Cons Suc_le_eq unat_gt_0 intro!: trans_le_add1)

lemma be_min_0 [simp]: "be_min 0 = []"
  by (subst be_min.simps) simp

lemma be_min_pos: "0 < n \<Longrightarrow> be_min n = be_min (n div 256) @ [word_of_nat n]"
  by (subst be_min.simps) simp

lemma be_min_eq_Nil [simp]: "be_min n = [] \<longleftrightarrow> n = 0"
  by (cases "n = 0") (simp_all add: be_min_pos)

lemma be_val_be_min [simp]: "be_val (be_min n) = n"
proof (induction n rule: be_min.induct)
  case (1 n)
  show ?case
  proof (cases "n = 0")
    case False
    have "n div 256 * 256 + n mod 256 = n" by (rule div_mult_mod_eq)
    with False 1 show ?thesis by (simp add: be_min_pos be_val_snoc unat_of_nat)
  qed simp
qed

lemma hd_be_min: "0 < n \<Longrightarrow> hd (be_min n) \<noteq> 0"
proof (induction n rule: be_min.induct)
  case (1 n)
  show ?case
  proof (cases "n < 256")
    case True
    then have "(word_of_nat n :: byte) \<noteq> 0"
      using "1.prems" by (simp add: word_of_nat_eq_0_iff nat_dvd_not_less)
    with True "1.prems" show ?thesis by (simp add: be_min_pos)
  next
    case False
    then have "0 < n div 256" by (simp add: div_greater_zero_iff)
    with "1.prems" "1.IH" show ?thesis by (simp add: be_min_pos [of n])
  qed
qed

text \<open>A byte string without leading zero is the shortest one of its value.\<close>

lemma be_min_be_val: "bs = [] \<or> hd bs \<noteq> 0 \<Longrightarrow> be_min (be_val bs) = bs"
proof (induction bs rule: rev_induct)
  case Nil
  then show ?case by simp
next
  case (snoc b bs)
  have ih: "be_min (be_val bs) = bs"
  proof (cases "bs = []")
    case False
    with snoc.prems show ?thesis by (intro snoc.IH) auto
  qed simp
  have "0 < be_val (bs @ [b])"
  proof (cases "bs = []")
    case True
    with snoc.prems show ?thesis by (simp add: be_val_Cons unat_gt_0)
  next
    case False
    with snoc.prems have "be_val bs \<noteq> 0"
      using ih by (metis be_min_0)
    then show ?thesis by (simp add: be_val_snoc)
  qed
  moreover have "(be_val bs * 256 + unat b) div 256 = be_val bs"
    by simp
  moreover have "word_of_nat (be_val bs * 256 + unat b) = b"
    by (simp only: word_unat_eq_iff unat_of_nat) (simp add: mod_mult_self3)
  ultimately show ?case
    using ih by (simp add: be_min_pos be_val_snoc)
qed

lemma length_be_min_le: "n < 256 ^ k \<Longrightarrow> length (be_min n) \<le> k"
proof (rule ccontr)
  assume n: "n < 256 ^ k" and "\<not> length (be_min n) \<le> k"
  then have len: "k \<le> length (be_min n) - 1" by simp
  have ne: "be_min n \<noteq> []"
    using \<open>\<not> length (be_min n) \<le> k\<close> by (metis le0 list.size(3))
  have "256 ^ k \<le> (256 :: nat) ^ (length (be_min n) - 1)"
    using len by (intro power_increasing) auto
  also have "\<dots> \<le> n"
    using be_val_hd_pos [OF ne] hd_be_min [of n] ne by simp
  finally show False using n by simp
qed

subsection \<open>Binary search\<close>

text \<open>\<^verbatim>\<open>sort.Search\<close> of the standard library: the least index in \<open>[0, n)\<close> with \<open>f\<close>, for a monotone \<open>f\<close>, or \<open>n\<close>.\<close>

function sort_Search_loop :: "(nat \<Rightarrow> bool) \<Rightarrow> nat \<Rightarrow> nat \<Rightarrow> nat" where
  "sort_Search_loop f i j =
     (if i < j then
        (let h = (i + j) div 2 in
         if \<not> f h then sort_Search_loop f (h + 1) j else sort_Search_loop f i h)
      else i)"
  by pat_completeness auto

termination by (relation "measure (\<lambda>(f, i, j). j - i)") auto

declare sort_Search_loop.simps [simp del]

definition sort_Search :: "nat \<Rightarrow> (nat \<Rightarrow> bool) \<Rightarrow> nat" where
  "sort_Search n f = sort_Search_loop f 0 n"

lemma sort_Search_loop_least:
  assumes "\<forall>a b. a \<le> b \<longrightarrow> b < n \<longrightarrow> f a \<longrightarrow> f b" "i \<le> j" "j \<le> n" "\<forall>k < i. \<not> f k" "\<forall>k. j \<le> k \<longrightarrow> k < n \<longrightarrow> f k"
  shows "sort_Search_loop f i j \<le> n \<and> (\<forall>k < sort_Search_loop f i j. \<not> f k) \<and>
    (\<forall>k. sort_Search_loop f i j \<le> k \<longrightarrow> k < n \<longrightarrow> f k)"
  using assms
proof (induction f i j rule: sort_Search_loop.induct)
  case (1 f i j)
  let ?h = "(i + j) div 2"
  show ?case
  proof (cases "i < j")
    case True
    then have h: "i \<le> ?h" "?h < j" by auto
    show ?thesis
    proof (cases "f ?h")
      case True
      then have "\<forall>k. ?h \<le> k \<longrightarrow> k < n \<longrightarrow> f k" using "1.prems"(1) by blast
      with "1.IH"(2) [OF \<open>i < j\<close> refl] True h "1.prems" show ?thesis
        by (simp add: sort_Search_loop.simps [of f i j])
    next
      case False
      then have "\<forall>k < ?h + 1. \<not> f k" using "1.prems"(1,3) h by (metis less_Suc_eq_le Suc_eq_plus1 order_less_le_trans)
      with "1.IH"(1) [OF \<open>i < j\<close> refl] False h "1.prems" show ?thesis
        by (simp add: sort_Search_loop.simps [of f i j])
    qed
  next
    case False
    then have "sort_Search_loop f i j = i" by (simp add: sort_Search_loop.simps [of f i j])
    with False "1.prems" show ?thesis by auto
  qed
qed

lemma sort_Search_eq:
  assumes "\<forall>a b. a \<le> b \<longrightarrow> b < n \<longrightarrow> f a \<longrightarrow> f b" "i \<le> n" "\<forall>k < i. \<not> f k" "i < n \<longrightarrow> f i"
  shows "sort_Search n f = i"
proof -
  have "sort_Search n f \<le> n \<and> (\<forall>k < sort_Search n f. \<not> f k) \<and> (\<forall>k. sort_Search n f \<le> k \<longrightarrow> k < n \<longrightarrow> f k)"
    unfolding sort_Search_def using assms(1) by (intro sort_Search_loop_least) auto
  with assms(2-) show ?thesis by (metis linorder_neqE_nat le_eq_less_or_eq order_less_le_trans)
qed

end
