(* ===== verification/Rlp_Raw.thy ===== *)
theory Rlp_Raw
  imports Go_Prelude
begin

section \<open>Package rlp: sizes, headers and splitting of raw values\<close>

text \<open>
  \<^verbatim>\<open>src/rlp/raw.go\<close>, \<^verbatim>\<open>src/rlp/iterator.go\<close> and the size helpers of \<^verbatim>\<open>src/rlp/encode.go\<close>.
  A function that writes into the front of a caller's buffer and returns how much it wrote
  (\<^verbatim>\<open>putint\<close>, \<^verbatim>\<open>puthead\<close>) is a function to the bytes it writes. An error return is \<open>Inl\<close>.
  The lemmas relate the unrolled shifts of the code to the big-endian numbers of the prelude.
\<close>

datatype rlp_kind = Byte | String | List

datatype rlp_error =
    EOL | ErrExpectedString | ErrExpectedList | ErrCanonInt | ErrCanonSize
  | ErrElemTooLarge | ErrValueTooLarge | ErrMoreThanOneValue
  | errNotInList | errNotAtEOL | errUintOverflow
  | ErrUnexpectedEOF | ErrEOF
  | DecodeError string | ErrInvalidBool uint64 | ErrNegativeBigInt | GoPanic

subsection \<open>Sizes and headers (encode.go)\<close>

text \<open>The loop of \<^verbatim>\<open>intsize\<close>, from the loop variable \<open>sz\<close> on.\<close>

function intsize_loop :: "nat \<Rightarrow> uint64 \<Rightarrow> nat" where
  "intsize_loop sz i =
     (let i = drop_bit 8 i in if i = 0 then sz else intsize_loop (sz + 1) i)"
  by pat_completeness auto
termination
proof (relation "measure (\<lambda>(sz, i). unat i)")
  fix i i' :: uint64 and sz :: nat
  assume "i' = drop_bit 8 i" and "i' \<noteq> 0"
  then have "unat i' = unat i div 256" and "unat i' \<noteq> 0"
    by (simp add: unat_drop_bit_eq drop_bit_nat_def, simp only: unat_eq_0 not_False_eq_True)
  then show "((sz + 1, i'), sz, i) \<in> measure (\<lambda>(sz, i). unat i)" by simp
qed simp

declare intsize_loop.simps [simp del]

definition intsize :: "uint64 \<Rightarrow> nat" where
  "intsize i = intsize_loop 1 i"

definition headsize :: "uint64 \<Rightarrow> nat" where
  "headsize sz = (if sz < 56 then 1 else 1 + intsize sz)"

definition putint :: "uint64 \<Rightarrow> bytes" where
  "putint i =
     (if i < push_bit 8 1 then [ucast i]
      else if i < push_bit 16 1 then [ucast (drop_bit 8 i), ucast i]
      else if i < push_bit 24 1 then [ucast (drop_bit 16 i), ucast (drop_bit 8 i), ucast i]
      else if i < push_bit 32 1 then
        [ucast (drop_bit 24 i), ucast (drop_bit 16 i), ucast (drop_bit 8 i), ucast i]
      else if i < push_bit 40 1 then
        [ucast (drop_bit 32 i), ucast (drop_bit 24 i), ucast (drop_bit 16 i), ucast (drop_bit 8 i),
         ucast i]
      else if i < push_bit 48 1 then
        [ucast (drop_bit 40 i), ucast (drop_bit 32 i), ucast (drop_bit 24 i), ucast (drop_bit 16 i),
         ucast (drop_bit 8 i), ucast i]
      else if i < push_bit 56 1 then
        [ucast (drop_bit 48 i), ucast (drop_bit 40 i), ucast (drop_bit 32 i), ucast (drop_bit 24 i),
         ucast (drop_bit 16 i), ucast (drop_bit 8 i), ucast i]
      else
        [ucast (drop_bit 56 i), ucast (drop_bit 48 i), ucast (drop_bit 40 i), ucast (drop_bit 32 i),
         ucast (drop_bit 24 i), ucast (drop_bit 16 i), ucast (drop_bit 8 i), ucast i])"

definition puthead :: "byte \<Rightarrow> byte \<Rightarrow> uint64 \<Rightarrow> bytes" where
  "puthead smalltag largetag sz =
     (if sz < 56 then [smalltag + ucast sz]
      else (let buf = putint sz; sizesize = length buf in (largetag + word_of_nat sizesize) # buf))"

subsection \<open>Raw values (raw.go)\<close>

definition ListSize :: "uint64 \<Rightarrow> uint64" where
  "ListSize contentSize = word_of_nat (headsize contentSize) + contentSize"

definition IntSize :: "uint64 \<Rightarrow> nat" where
  "IntSize x = (if x < 0x80 then 1 else 1 + intsize x)"

definition readSize :: "bytes \<Rightarrow> byte \<Rightarrow> rlp_error + uint64" where
  "readSize b slen =
     (if unat slen > length b then Inl ErrUnexpectedEOF
      else
        let u = (\<lambda>k. ucast (b ! k) :: uint64);
            s = (if slen = 1 then u 0
                 else if slen = 2 then push_bit 8 (u 0) OR u 1
                 else if slen = 3 then push_bit 16 (u 0) OR push_bit 8 (u 1) OR u 2
                 else if slen = 4 then
                   push_bit 24 (u 0) OR push_bit 16 (u 1) OR push_bit 8 (u 2) OR u 3
                 else if slen = 5 then
                   push_bit 32 (u 0) OR push_bit 24 (u 1) OR push_bit 16 (u 2) OR push_bit 8 (u 3)
                   OR u 4
                 else if slen = 6 then
                   push_bit 40 (u 0) OR push_bit 32 (u 1) OR push_bit 24 (u 2) OR push_bit 16 (u 3)
                   OR push_bit 8 (u 4) OR u 5
                 else if slen = 7 then
                   push_bit 48 (u 0) OR push_bit 40 (u 1) OR push_bit 32 (u 2) OR push_bit 24 (u 3)
                   OR push_bit 16 (u 4) OR push_bit 8 (u 5) OR u 6
                 else if slen = 8 then
                   push_bit 56 (u 0) OR push_bit 48 (u 1) OR push_bit 40 (u 2) OR push_bit 32 (u 3)
                   OR push_bit 24 (u 4) OR push_bit 16 (u 5) OR push_bit 8 (u 6) OR u 7
                 else 0)
        in if s < 56 \<or> b ! 0 = 0 then Inl ErrCanonSize else Inr s)"

text \<open>The kind, the size of the tag and the size of the content of the first value.\<close>

definition readKind :: "bytes \<Rightarrow> rlp_error + (rlp_kind \<times> uint64 \<times> uint64)" where
  "readKind buf =
     (case buf of
        [] \<Rightarrow> Inl ErrUnexpectedEOF
      | b # tail \<Rightarrow>
          (let r = (if b < 0x80 then Inr (Byte, 0, 1)
                    else if b < 0xB8 then
                      (let contentsize = ucast (b - 0x80) in
                       if contentsize = 1 \<and> length buf > 1 \<and> buf ! 1 < 128 then Inl ErrCanonSize
                       else Inr (String, 1, contentsize))
                    else if b < 0xC0 then
                      map_sum id (\<lambda>n. (String, ucast (b - 0xB7) + 1, n)) (readSize tail (b - 0xB7))
                    else if b < 0xF8 then Inr (List, 1, ucast (b - 0xC0))
                    else
                      map_sum id (\<lambda>n. (List, ucast (b - 0xF7) + 1, n)) (readSize tail (b - 0xF7)))
           in case r of
                Inl err \<Rightarrow> Inl err
              | Inr (k, tagsize, contentsize) \<Rightarrow>
                  (if contentsize > word_of_nat (length buf) - tagsize then Inl ErrValueTooLarge
                   else Inr (k, tagsize, contentsize))))"

definition Split :: "bytes \<Rightarrow> rlp_error + (rlp_kind \<times> bytes \<times> bytes)" where
  "Split b =
     (case readKind b of
        Inl err \<Rightarrow> Inl err
      | Inr (k, ts, cs) \<Rightarrow>
          Inr (k, take (unat cs) (drop (unat ts) b), drop (unat ts + unat cs) b))"

definition SplitString :: "bytes \<Rightarrow> rlp_error + (bytes \<times> bytes)" where
  "SplitString b =
     (case Split b of
        Inl err \<Rightarrow> Inl err
      | Inr (k, content, rest) \<Rightarrow>
          if k = List then Inl ErrExpectedString else Inr (content, rest))"

definition SplitUint64 :: "bytes \<Rightarrow> rlp_error + (uint64 \<times> bytes)" where
  "SplitUint64 b =
     (case SplitString b of
        Inl err \<Rightarrow> Inl err
      | Inr (content, rest) \<Rightarrow>
          if length content = 0 then Inr (0, rest)
          else if length content = 1 then
            (if content ! 0 = 0 then Inl ErrCanonInt else Inr (ucast (content ! 0), rest))
          else if length content > 8 then Inl errUintOverflow
          else (case readSize content (word_of_nat (length content)) of
                  Inl err \<Rightarrow> Inl ErrCanonInt
                | Inr x \<Rightarrow> Inr (x, rest)))"

definition SplitList :: "bytes \<Rightarrow> rlp_error + (bytes \<times> bytes)" where
  "SplitList b =
     (case Split b of
        Inl err \<Rightarrow> Inl err
      | Inr (k, content, rest) \<Rightarrow>
          if k \<noteq> List then Inl ErrExpectedList else Inr (content, rest))"

definition AppendUint64 :: "bytes \<Rightarrow> uint64 \<Rightarrow> bytes" where
  "AppendUint64 b i =
     (if i = 0 then b @ [0x80]
      else if i < 128 then b @ [ucast i]
      else if i < push_bit 8 1 then b @ [0x81, ucast i]
      else if i < push_bit 16 1 then b @ [0x82, ucast (drop_bit 8 i), ucast i]
      else if i < push_bit 24 1 then
        b @ [0x83, ucast (drop_bit 16 i), ucast (drop_bit 8 i), ucast i]
      else if i < push_bit 32 1 then
        b @ [0x84, ucast (drop_bit 24 i), ucast (drop_bit 16 i), ucast (drop_bit 8 i), ucast i]
      else if i < push_bit 40 1 then
        b @ [0x85, ucast (drop_bit 32 i), ucast (drop_bit 24 i), ucast (drop_bit 16 i),
             ucast (drop_bit 8 i), ucast i]
      else if i < push_bit 48 1 then
        b @ [0x86, ucast (drop_bit 40 i), ucast (drop_bit 32 i), ucast (drop_bit 24 i),
             ucast (drop_bit 16 i), ucast (drop_bit 8 i), ucast i]
      else if i < push_bit 56 1 then
        b @ [0x87, ucast (drop_bit 48 i), ucast (drop_bit 40 i), ucast (drop_bit 32 i),
             ucast (drop_bit 24 i), ucast (drop_bit 16 i), ucast (drop_bit 8 i), ucast i]
      else
        b @ [0x88, ucast (drop_bit 56 i), ucast (drop_bit 48 i), ucast (drop_bit 40 i),
             ucast (drop_bit 32 i), ucast (drop_bit 24 i), ucast (drop_bit 16 i),
             ucast (drop_bit 8 i), ucast i])"

subsection \<open>The code's unrolled shifts are big-endian numbers\<close>

lemma unat_shift8_or:
  assumes "unat (a :: uint64) < 2 ^ 56"
  shows "unat (push_bit 8 a OR ucast (b :: byte)) = unat a * 256 + unat b"
proof -
  have "push_bit 8 a AND (ucast b :: uint64) = 0"
    by (rule bit_word_eqI) (auto simp: bit_simps dest: bit_imp_le_length)
  then have "push_bit 8 a OR ucast b = push_bit 8 a + (ucast b :: uint64)"
    by (simp add: disjunctive_add_eq_or)
  moreover have "unat (push_bit 8 a) = unat a * 256"
    using assms by (simp only: unsigned_push_bit_eq) (simp add: push_bit_eq_mult take_bit_eq_mod)
  moreover have "unat (ucast b :: uint64) = unat b"
    by (simp add: unsigned_ucast_eq take_bit_nat_eq_self_iff order_less_trans [OF unat_byte_less])
  moreover have "unat a * 256 + unat b < 2 ^ 64"
    using assms unat_byte_less [of b] by (simp del: unat_byte_less)
  ultimately show ?thesis
    by (simp add: unat_plus_if')
qed

text \<open>The value of up to eight bytes, computed with shifts as the code does.\<close>

definition be_word :: "bytes \<Rightarrow> uint64" where
  "be_word bs = foldl (\<lambda>a b. push_bit 8 a OR ucast b) 0 bs"

lemma unat_be_word: "length bs \<le> 8 \<Longrightarrow> unat (be_word bs) = be_val bs"
proof (induction bs rule: rev_induct)
  case Nil
  then show ?case by (simp add: be_word_def)
next
  case (snoc b bs)
  have "be_val bs < 256 ^ length bs" by (rule be_val_less)
  also have "\<dots> \<le> 256 ^ 7" using snoc.prems by (intro power_increasing) auto
  finally have "unat (be_word bs) < 2 ^ 56" using snoc by simp
  with snoc show ?case
    by (simp add: be_word_def be_val_snoc unat_shift8_or)
qed

lemma take_eq_map_nth: "n \<le> length b \<Longrightarrow> take n b = map ((!) b) [0..<n]"
  by (rule nth_equalityI) auto

lemma readSize_be_word:
  assumes "unat slen \<le> length b" and "1 \<le> unat slen" and "unat slen \<le> 8"
  shows "readSize b slen =
    (if be_word (take (unat slen) b) < 56 \<or> b ! 0 = 0 then Inl ErrCanonSize
     else Inr (be_word (take (unat slen) b)))"
proof -
  have "slen = word_of_nat (unat slen)" by simp
  moreover have "unat slen \<in> {1, 2, 3, 4, 5, 6, 7, 8}"
    using assms by auto
  ultimately have "slen \<in> {1, 2, 3, 4, 5, 6, 7, 8}"
    by (metis (no_types, lifting) insert_iff empty_iff of_nat_1 of_nat_numeral)
  moreover have upts: "[0..<2] = [0, 1]" "[0..<3] = [0, 1, 2]" "[0..<4] = [0, 1, 2, 3]"
    "[0..<5] = [0, 1, 2, 3, 4]" "[0..<6] = [0, 1, 2, 3, 4, 5]" "[0..<7] = [0, 1, 2, 3, 4, 5, 6]"
    "[0..<8] = [0, 1, 2, 3, 4, 5, 6, 7]"
    by (simp_all add: upt_rec)
  ultimately show ?thesis
    using assms(1)
    by (elim insertE emptyE; simp add: readSize_def take_eq_map_nth be_word_def Let_def or.assoc
        upts Suc_le_eq)
qed

lemma be_min_word_split:
  "0 < unat (i :: uint64) \<Longrightarrow> be_min (unat i) = be_min (unat (drop_bit 8 i)) @ [ucast i]"
  by (simp add: be_min_pos unat_drop_bit_eq drop_bit_nat_def)

lemma be_min_drop_bit:
  "unat (drop_bit k i) \<noteq> 0 \<Longrightarrow>
   be_min (unat (drop_bit k i)) = be_min (unat (drop_bit (8 + k) i)) @ [ucast (drop_bit k (i :: uint64))]"
  using be_min_word_split [of "drop_bit k i"] by simp

lemma unat_drop_bit_pos:
  "unat (drop_bit k (i :: uint64)) \<noteq> 0 \<longleftrightarrow> 2 ^ k \<le> unat i"
  by (simp add: unat_drop_bit_eq drop_bit_nat_def div_eq_0_iff not_less del: unat_eq_zero)

lemma putint_be_min: "putint i = (if i = 0 then [0] else be_min (unat i))"
proof (cases "i = 0")
  case True
  then show ?thesis by (simp add: putint_def)
next
  case False
  define n where "n = unat i"
  have lt: "i < push_bit k 1 \<longleftrightarrow> n < 2 ^ k" if "k < 64" for k
    using that by (simp only: word_less_nat_alt n_def unsigned_push_bit_eq)
      (simp add: take_bit_nat_eq_self)
  have step: "be_min (unat (drop_bit k i)) =
      (if i < push_bit k 1 then []
       else be_min (unat (drop_bit (8 + k) i)) @ [ucast (drop_bit k i)])" if "k < 64" for k
    using unat_drop_bit_pos [of k i] be_min_drop_bit [of k i] lt [OF that]
    by (auto simp: n_def not_less)
  have "unat (drop_bit 64 i) = 0"
    using unsigned_less [of i] by (simp add: unat_drop_bit_eq drop_bit_nat_def)
  moreover have "be_min (unat i) = be_min (unat (drop_bit 8 i)) @ [ucast i]"
    using False by (simp add: be_min_word_split unat_gt_0)
  moreover note step [of 8] step [of 16] step [of 24] step [of 32] step [of 40] step [of 48]
    step [of 56]
  ultimately show ?thesis
    using False unfolding putint_def by simp
qed

lemma intsize_loop_be_min:
  "0 < sz \<Longrightarrow> intsize_loop sz i = sz + length (be_min (unat (drop_bit 8 i)))"
proof (induction sz i rule: intsize_loop.induct)
  case (1 sz i)
  let ?j = "drop_bit 8 i"
  show ?case
  proof (cases "?j = 0")
    case True
    then show ?thesis by (subst intsize_loop.simps) simp
  next
    case False
    then have "intsize_loop sz i = sz + 1 + length (be_min (unat (drop_bit 8 ?j)))"
      using "1.IH" [OF refl] by (subst intsize_loop.simps) simp
    with False show ?thesis
      using be_min_word_split [of ?j] by (simp add: unat_gt_0)
  qed
qed

lemma intsize_putint: "intsize i = length (putint i)"
  using be_min_word_split [of i]
  by (cases "i = 0") (simp_all add: intsize_def intsize_loop_be_min putint_be_min unat_gt_0)

lemma length_be_min_u64: "length (be_min (unat (i :: uint64))) \<le> 8"
  using unsigned_less [of i] by (intro length_be_min_le) simp

lemma headsize_puthead: "headsize sz = length (puthead a b sz)"
  by (simp add: headsize_def puthead_def intsize_putint Let_def)

subsection \<open>Headers over natural numbers\<close>

text \<open>The header of a string or list with \<open>n\<close> bytes of content, as the RLP definition states it.\<close>

definition rlp_head :: "byte \<Rightarrow> byte \<Rightarrow> nat \<Rightarrow> bytes" where
  "rlp_head smalltag largetag n =
     (if n < 56 then [smalltag + word_of_nat n]
      else (largetag + word_of_nat (length (be_min n))) # be_min n)"

text \<open>The encoding of a byte string.\<close>

definition rlp_string :: "bytes \<Rightarrow> bytes" where
  "rlp_string s =
     (if length s = 1 \<and> hd s < 0x80 then s else rlp_head 0x80 0xB7 (length s) @ s)"

lemma puthead_rlp_head: "puthead a b sz = rlp_head a b (unat sz)"
  by (auto simp: puthead_def rlp_head_def word_less_nat_alt putint_be_min Let_def)

lemma unat_tag:
  "unat (a :: byte) + n < 256 \<Longrightarrow> unat (a + word_of_nat n) = unat a + n"
  by (subst unat_plus_if') (auto simp: unat_of_nat)

text \<open>Every first byte has one of five forms.\<close>

lemma tag_cases:
  fixes b :: byte
  obtains (byte) "b < 0x80"
  | (short_string) n where "n < 56" "b = 0x80 + word_of_nat n"
  | (long_string) m where "1 \<le> m" "m \<le> 8" "b = 0xB7 + word_of_nat m"
  | (short_list) n where "n < 56" "b = 0xC0 + word_of_nat n"
  | (long_list) m where "1 \<le> m" "m \<le> 8" "b = 0xF7 + word_of_nat m"
proof -
  have eq: "b = a + word_of_nat (unat b - unat a)" if "unat a \<le> unat b" for a :: byte
    using that by (simp add: word_unat_eq_iff unat_tag)
  consider "unat b < 128" | "128 \<le> unat b" "unat b < 184" | "184 \<le> unat b" "unat b < 192"
    | "192 \<le> unat b" "unat b < 248" | "248 \<le> unat b"
    by linarith
  then show thesis
  proof cases
    case 1
    then show thesis by (intro byte) (simp add: word_less_nat_alt)
  next
    case 2
    then show thesis using eq [of "0x80"] by (intro short_string [of "unat b - 128"]) auto
  next
    case 3
    then show thesis using eq [of "0xB7"] by (intro long_string [of "unat b - 183"]) auto
  next
    case 4
    then show thesis using eq [of "0xC0"] by (intro short_list [of "unat b - 192"]) auto
  next
    case 5
    then show thesis using eq [of "0xF7"]
      by (intro long_list [of "unat b - 247"]) (auto simp: le_diff_conv)
  qed
qed

lemmas tag_simps = word_less_nat_alt unat_tag unat_of_nat

text \<open>What \<^verbatim>\<open>readKind\<close> does for each form of the tag.\<close>

lemma length_u64: "length xs < 2 ^ 63 \<Longrightarrow> unat (word_of_nat (length xs) :: uint64) = length xs"
  by (simp add: unat_of_nat)

lemma unat_Suc_length:
  "length xs < 2 ^ 63 \<Longrightarrow> unat (1 + word_of_nat (length xs) :: uint64) = Suc (length xs)"
  by (subst unat_plus_if') (auto simp: unat_of_nat)

lemma readKind_byte: "b < 0x80 \<Longrightarrow> length t < 2 ^ 63 \<Longrightarrow> readKind (b # t) = Inr (Byte, 0, 1)"
  by (simp add: readKind_def word_less_nat_alt unat_Suc_length)

lemma u64_minus:
  assumes "length t < 2 ^ 63" "m \<le> 8"
  shows "(n :: uint64) > word_of_nat (Suc (length t)) - (word_of_nat m + 1) \<longleftrightarrow>
    m \<le> length t \<and> length t < m + unat n \<or> length t < m \<and> n > word_of_nat (length t) - word_of_nat m"
proof (cases "m \<le> length t")
  case True
  then have "word_of_nat (Suc (length t)) - (word_of_nat m + 1) = (word_of_nat (length t - m) :: uint64)"
    by (simp add: of_nat_diff)
  moreover have "unat (word_of_nat (length t - m) :: uint64) = length t - m"
    using assms by (simp add: unat_of_nat)
  ultimately show ?thesis
    using True by (auto simp: word_less_nat_alt)
qed simp

lemma readKind_short_string:
  assumes "n < 56" "length t < 2 ^ 63"
  shows "readKind ((0x80 + word_of_nat n) # t) =
    (if n = 1 \<and> t \<noteq> [] \<and> hd t < 128 then Inl ErrCanonSize
     else if length t < n then Inl ErrValueTooLarge else Inr (String, 1, word_of_nat n))"
proof -
  have "(ucast (word_of_nat n :: byte) :: uint64) = word_of_nat n"
    using assms by (simp add: word_unat_eq_iff unsigned_ucast_eq unat_of_nat take_bit_nat_eq_self)
  moreover have "(word_of_nat n :: uint64) = 1 \<longleftrightarrow> n = 1"
    using assms by (simp add: word_unat_eq_iff unat_of_nat)
  ultimately show ?thesis
    using assms u64_minus [of t 0 "word_of_nat n"]
    by (cases t) (auto simp: readKind_def tag_simps Let_def)
qed

lemma readKind_short_list:
  assumes "n < 56" "length t < 2 ^ 63"
  shows "readKind ((0xC0 + word_of_nat n) # t) =
    (if length t < n then Inl ErrValueTooLarge else Inr (List, 1, word_of_nat n))"
proof -
  have "(ucast (word_of_nat n :: byte) :: uint64) = word_of_nat n"
    using assms by (simp add: word_unat_eq_iff unsigned_ucast_eq unat_of_nat take_bit_nat_eq_self)
  then show ?thesis
    using assms u64_minus [of t 0 "word_of_nat n"]
    by (auto simp: readKind_def tag_simps Let_def)
qed

lemma readSize_tag:
  assumes "1 \<le> m" "m \<le> 8"
  shows "readSize t (word_of_nat m) =
    (if length t < m then Inl ErrUnexpectedEOF
     else if be_val (take m t) < 56 \<or> hd t = 0 then Inl ErrCanonSize
     else Inr (word_of_nat (be_val (take m t))))"
proof (cases "length t < m")
  case True
  then show ?thesis using assms by (simp add: readSize_def unat_of_nat)
next
  case False
  have m: "unat (word_of_nat m :: byte) = m" using assms by (simp add: unat_of_nat)
  have w: "be_word (take m t) = word_of_nat (be_val (take m t))"
    using assms by (simp add: min_le_iff_disj flip: unat_be_word)
  have "t \<noteq> []" using False assms by auto
  then show ?thesis
    using False assms readSize_be_word [of "word_of_nat m" t] unat_be_word [of "take m t"]
    by (simp add: m hd_conv_nth word_less_nat_alt flip: w)
qed

lemma readKind_long:
  assumes "1 \<le> m" "m \<le> 8" "length t < 2 ^ 63"
    and "(a = 0xB7 \<and> k = String) \<or> (a = 0xF7 \<and> k = List)"
  shows "readKind ((a + word_of_nat m) # t) =
    (if length t < m then Inl ErrUnexpectedEOF
     else if be_val (take m t) < 56 \<or> hd t = 0 then Inl ErrCanonSize
     else if length t < m + be_val (take m t) then Inl ErrValueTooLarge
     else Inr (k, word_of_nat m + 1, word_of_nat (be_val (take m t))))"
proof -
  have u: "(ucast (word_of_nat m :: byte) :: uint64) = word_of_nat m"
    using assms by (simp add: word_unat_eq_iff unsigned_ucast_eq unat_of_nat take_bit_nat_eq_self)
  have "be_val (take m t) < 256 ^ length (take m t)" by (rule be_val_less)
  also have "\<dots> \<le> 256 ^ 8" using assms by (intro power_increasing) auto
  finally have "unat (word_of_nat (be_val (take m t)) :: uint64) = be_val (take m t)"
    by (simp add: unat_of_nat)
  with assms(4) show ?thesis
    using assms(1-3) u64_minus [of t m "word_of_nat (be_val (take m t))"]
    by (elim disjE) (auto simp: readKind_def tag_simps Let_def u readSize_tag)
qed

subsection \<open>Splitting inverts encoding, and accepts nothing else\<close>

text \<open>The one encoding of a value of kind \<open>k\<close> with content \<open>c\<close>, where it has one.\<close>

definition rlp_value :: "rlp_kind \<Rightarrow> bytes \<Rightarrow> bytes option" where
  "rlp_value k c =
     (case k of
        Byte \<Rightarrow> if length c = 1 \<and> hd c < 0x80 then Some c else None
      | String \<Rightarrow>
          if length c = 1 \<and> hd c < 0x80 then None else Some (rlp_head 0x80 0xB7 (length c) @ c)
      | List \<Rightarrow> Some (rlp_head 0xC0 0xF7 (length c) @ c))"

lemma rlp_value_string:
  "rlp_value (if length s = 1 \<and> hd s < 0x80 then Byte else String) s = Some (rlp_string s)"
  by (auto simp: rlp_value_def rlp_string_def)

lemma be_min_head_fits:
  assumes "n < 2 ^ 63"
  shows "length (be_min n) \<le> 8" and "56 \<le> n \<Longrightarrow> 1 \<le> length (be_min n)"
  using assms length_be_min_le [of n 8] by (auto simp: Suc_le_eq)

lemma readKind_value:
  assumes "rlp_value k c = Some h" and "length (h @ r) < 2 ^ 63"
  shows "\<exists>ts. readKind (h @ r) = Inr (k, ts, word_of_nat (length c)) \<and> unat ts + length c = length h \<and>
    drop (unat ts) h = c"
proof (cases k)
  case Byte
  with assms obtain x where "c = [x]" "h = [x]" "x < 0x80"
    by (auto simp: rlp_value_def length_Suc_conv split: if_splits)
  with assms Byte show ?thesis by (simp add: readKind_byte)
next
  case String
  with assms have h: "h = rlp_head 0x80 0xB7 (length c) @ c" "\<not> (length c = 1 \<and> hd c < 0x80)"
    by (auto simp: rlp_value_def split: if_splits)
  show ?thesis
  proof (cases "length c < 56")
    case True
    with h assms(2) String show ?thesis
      by (auto simp: rlp_head_def readKind_short_string length_Suc_conv)
  next
    case False
    then have "c \<noteq> []" by auto
    with False show ?thesis
      using h assms(2) String be_min_head_fits [of "length c"] hd_be_min [of "length c"]
      by (auto simp: hd_append rlp_head_def readKind_long [where k = String] unat_plus_if' unat_of_nat)
  qed
next
  case List
  with assms have h: "h = rlp_head 0xC0 0xF7 (length c) @ c"
    by (auto simp: rlp_value_def)
  show ?thesis
  proof (cases "length c < 56")
    case True
    with h assms(2) List show ?thesis
      by (auto simp: rlp_head_def readKind_short_list)
  next
    case False
    then have "c \<noteq> []" by auto
    with False show ?thesis
      using h assms(2) List be_min_head_fits [of "length c"] hd_be_min [of "length c"]
      by (auto simp: hd_append rlp_head_def readKind_long [where k = List] unat_plus_if' unat_of_nat)
  qed
qed

lemma readKind_inv:
  assumes "readKind b = Inr (k, ts, cs)" and "length b < 2 ^ 63"
  shows "unat ts + unat cs \<le> length b \<and>
    rlp_value k (take (unat cs) (drop (unat ts) b)) = Some (take (unat ts + unat cs) b)"
proof -
  obtain x t where b: "b = x # t" using assms(1) by (cases b) (auto simp: readKind_def)
  have t: "length t < 2 ^ 63" using assms(2) b by simp
  have be: "take m t = be_min (be_val (take m t))" "length (be_min (be_val (take m t))) = m"
    if "1 \<le> m" "m \<le> length t" "hd t \<noteq> 0" for m
    using that be_min_be_val [of "take m t"] by (auto simp: hd_take)
  have big: "unat (word_of_nat (be_val (take m t)) :: uint64) = be_val (take m t)"
    if "m + be_val (take m t) \<le> length t" for m
    using that t by (simp add: unat_of_nat)
  show ?thesis
  proof (cases x rule: tag_cases)
    case byte
    with assms(1) t b show ?thesis by (auto simp: readKind_byte rlp_value_def)
  next
    case (short_string n)
    with assms(1) t b show ?thesis
      by (auto simp: readKind_short_string rlp_value_def rlp_head_def unat_of_nat hd_take
          split: if_splits)
  next
    case (long_string m)
    with assms(1) t b be [of m] big [of m] show ?thesis
      by (auto simp: readKind_long [where k = String] rlp_value_def rlp_head_def unat_of_nat
          unat_plus_if' take_add split: if_splits)
  next
    case (short_list n)
    with assms(1) t b show ?thesis
      by (auto simp: readKind_short_list rlp_value_def rlp_head_def unat_of_nat Suc_le_eq split: if_splits)
  next
    case (long_list m)
    with assms(1) t b be [of m] big [of m] show ?thesis
      by (auto simp: readKind_long [where k = List] rlp_value_def rlp_head_def unat_of_nat
          unat_plus_if' take_add split: if_splits)
  qed
qed

lemma Split_iff_value:
  assumes "length b < 2 ^ 63"
  shows "Split b = Inr (k, c, r) \<longleftrightarrow> (\<exists>h. rlp_value k c = Some h \<and> b = h @ r)"
proof
  assume "Split b = Inr (k, c, r)"
  then obtain ts cs where rk: "readKind b = Inr (k, ts, cs)"
    and c: "c = take (unat cs) (drop (unat ts) b)" and r: "r = drop (unat ts + unat cs) b"
    by (auto simp: Split_def split: sum.splits)
  from readKind_inv [OF rk assms] show "\<exists>h. rlp_value k c = Some h \<and> b = h @ r"
    unfolding c r by (metis append_take_drop_id)
next
  assume "\<exists>h. rlp_value k c = Some h \<and> b = h @ r"
  then obtain h where h: "rlp_value k c = Some h" "b = h @ r" by blast
  with assms obtain ts where ts: "readKind b = Inr (k, ts, word_of_nat (length c))"
    "unat ts + length c = length h" "drop (unat ts) h = c"
    using readKind_value [of k c h r] by auto
  have "unat (word_of_nat (length c) :: uint64) = length c"
    using assms h(2) ts(2) by (intro length_u64) simp
  with ts h(2) show "Split b = Inr (k, c, r)"
    by (auto simp: Split_def)
qed

lemma rlp_value_nonempty: "rlp_value k c = Some h \<Longrightarrow> h \<noteq> []"
  by (auto simp: rlp_value_def rlp_head_def split: rlp_kind.splits if_splits)

text \<open>The loop of \<^verbatim>\<open>CountValues\<close>: \<open>i\<close> values are counted so far. Each round drops at least one byte.\<close>

lemma readSize_nonzero: "readSize b slen = Inr n \<Longrightarrow> n \<noteq> 0"
  by (auto simp: readSize_def Let_def split: if_splits)

lemma readKind_progress:
  assumes "readKind b = Inr (k, ts, cs)"
  shows "b \<noteq> [] \<and> 0 < unat ts + unat cs"
proof -
  obtain x t where b: "b = x # t" using assms by (cases b) (auto simp: readKind_def)
  have "ts \<noteq> 0 \<or> cs \<noteq> 0"
    using assms unfolding b
    by (cases "readSize t (x - 0xB7)"; cases "readSize t (x - 0xF7)")
      (auto simp: readKind_def Let_def dest: readSize_nonzero split: if_splits)
  then show ?thesis using b by (auto simp: unat_gt_0)
qed

function CountValues_loop :: "bytes \<Rightarrow> nat \<Rightarrow> rlp_error + nat" where
  "CountValues_loop b i =
     (if length b > 0 then
        (case readKind b of
           Inl err \<Rightarrow> Inl err
         | Inr (k, tagsize, sz) \<Rightarrow> CountValues_loop (drop (unat tagsize + unat sz) b) (i + 1))
      else Inr i)"
  by pat_completeness auto
termination
  by (relation "measure (\<lambda>(b, i). length b)") (auto dest: readKind_progress)

declare CountValues_loop.simps [simp del]

definition CountValues :: "bytes \<Rightarrow> rlp_error + nat" where
  "CountValues b = CountValues_loop b 0"

text \<open>\<^verbatim>\<open>listIterator\<close>: the data left, the current value and the error of the last step.\<close>

record list_iterator =
  it_data :: bytes
  it_next :: bytes
  it_err :: "rlp_error option"

definition NewListIterator :: "bytes \<Rightarrow> rlp_error + list_iterator" where
  "NewListIterator data =
     (case readKind data of
        Inl err \<Rightarrow> Inl err
      | Inr (k, t, c) \<Rightarrow>
          if k \<noteq> List then Inl ErrExpectedList
          else Inr \<lparr>it_data = take (unat c) (drop (unat t) data), it_next = [], it_err = None\<rparr>)"

definition iterator_Next :: "list_iterator \<Rightarrow> bool \<times> list_iterator" where
  "iterator_Next it =
     (if length (it_data it) = 0 then (False, it)
      else
        (case readKind (it_data it) of
           Inl err \<Rightarrow> (True, it\<lparr>it_next := take 0 (it_data it), it_data := drop 0 (it_data it), it_err := Some err\<rparr>)
         | Inr (k, t, c) \<Rightarrow>
             (True, it\<lparr>it_next := take (unat t + unat c) (it_data it),
                       it_data := drop (unat t + unat c) (it_data it), it_err := None\<rparr>)))"

subsection \<open>Counting, iterating and integers\<close>

lemma CountValues_loop_iff:
  "length b < 2 ^ 63 \<Longrightarrow> CountValues_loop b i = Inr n \<longleftrightarrow>
   (\<exists>vs. n = i + length vs \<and> b = concat vs \<and> (\<forall>v \<in> set vs. \<exists>k c. rlp_value k c = Some v))"
proof (induction b i rule: CountValues_loop.induct)
  case (1 b i)
  let ?R = "\<lambda>b i vs. n = i + length vs \<and> b = concat vs \<and> (\<forall>v \<in> set vs. \<exists>k c. rlp_value k c = Some v)"
  show ?case
  proof (cases "b = []")
    case True
    then have "CountValues_loop b i = Inr i" by (simp add: CountValues_loop.simps)
    moreover have "vs = []" if "?R b i vs" for vs
      using that True rlp_value_nonempty by (cases vs) auto
    ultimately show ?thesis using True by force
  next
    case ne: False
    show ?thesis
    proof (cases "readKind b")
      case (Inl e)
      have False if "?R b i vs" for vs
      proof -
        have "vs \<noteq> []" using that ne by auto
        then obtain v vs' where vs: "vs = v # vs'" by (cases vs) auto
        with that obtain k c where "rlp_value k c = Some v" by auto
        with readKind_value [of k c v "concat vs'"] that vs Inl "1.prems" show False by auto
      qed
      moreover have "CountValues_loop b i = Inl e"
        using Inl ne by (simp add: CountValues_loop.simps [of b])
      ultimately show ?thesis by (metis Inl_Inr_False)
    next
      case (Inr t)
      obtain k ts cs where t: "t = (k, ts, cs)" by (cases t)
      define m where "m = unat ts + unat cs"
      have step: "CountValues_loop b i = CountValues_loop (drop m b) (i + 1)"
        using Inr ne t by (simp add: CountValues_loop.simps [of b] m_def)
      have ih: "CountValues_loop (drop m b) (i + 1) = Inr n \<longleftrightarrow> (\<exists>vs. ?R (drop m b) (i + 1) vs)"
        using "1.IH" [OF _ Inr t [symmetric] refl] ne "1.prems" by (simp add: m_def)
      have v: "rlp_value k (take (unat cs) (drop (unat ts) b)) = Some (take m b)"
        using readKind_inv [of b k ts cs] Inr t "1.prems" by (simp add: m_def)
      have "(\<exists>vs. ?R (drop m b) (i + 1) vs) \<longleftrightarrow> (\<exists>vs. ?R b i vs)"
      proof
        assume "\<exists>vs. ?R (drop m b) (i + 1) vs"
        then obtain vs where "?R (drop m b) (i + 1) vs" by blast
        then have "?R b i (take m b # vs)"
          using v append_take_drop_id [of m b] by auto
        then show "\<exists>vs. ?R b i vs" by blast
      next
        assume "\<exists>vs. ?R b i vs"
        then obtain vs where R: "?R b i vs" by blast
        then obtain v' vs' where vs: "vs = v' # vs'" using ne by (cases vs) auto
        with R obtain k' c' where v': "rlp_value k' c' = Some v'" by auto
        from readKind_value [OF v', of "concat vs'"] R vs "1.prems" Inr t
        have "m = length v'"
          by (auto simp: m_def unat_of_nat)
        then have "?R (drop m b) (i + 1) vs'" using R vs by auto
        then show "\<exists>vs. ?R (drop m b) (i + 1) vs" by blast
      qed
      with step ih show ?thesis by simp
    qed
  qed
qed

lemma AppendUint64_rlp_string: "AppendUint64 b i = b @ rlp_string (be_min (unat i))"
proof -
  have "i \<noteq> 0 \<Longrightarrow> be_min (unat i) = putint i" by (simp add: putint_be_min)
  moreover have "i < 128 \<Longrightarrow> (ucast i :: byte) < 0x80"
    by (simp add: word_less_nat_alt unsigned_ucast_eq take_bit_eq_mod)
  moreover have "i < 128 \<Longrightarrow> i < 256" by (simp add: word_less_nat_alt)
  moreover have "i < 256 \<Longrightarrow> \<not> i < 128 \<Longrightarrow> \<not> (ucast i :: byte) < 0x80"
    by (simp add: word_less_nat_alt unsigned_ucast_eq take_bit_eq_mod)
  ultimately show ?thesis
    by (auto simp: AppendUint64_def putint_def rlp_string_def rlp_head_def)
qed

lemma SplitString_rlp_string:
  "length (rlp_string s @ r) < 2 ^ 63 \<Longrightarrow> SplitString (rlp_string s @ r) = Inr (s, r)"
  using rlp_value_string [of s]
    Split_iff_value [of "rlp_string s @ r" "if length s = 1 \<and> hd s < 0x80 then Byte else String" s r]
  by (auto simp: SplitString_def)

lemma SplitUint64_be_min:
  assumes "length (rlp_string (be_min (unat i)) @ r) < 2 ^ 63"
  shows "SplitUint64 (rlp_string (be_min (unat (i :: uint64))) @ r) = Inr (i, r)"
proof -
  let ?c = "be_min (unat i)"
  have split: "SplitString (rlp_string ?c @ r) = Inr (?c, r)"
    using assms by (rule SplitString_rlp_string)
  have le: "length ?c \<le> 8" by (rule length_be_min_u64)
  consider "length ?c = 0" | x where "?c = [x]" | "2 \<le> length ?c"
    by (cases ?c rule: remdups_adj.cases) auto
  then show ?thesis
  proof cases
    case 1
    then have "i = 0" by (simp add: unat_eq_zero [symmetric] del: unat_eq_zero)
    with split show ?thesis by (simp add: SplitUint64_def)
  next
    case (2 x)
    then have "unat i = unat x" "x \<noteq> 0"
      using be_val_be_min [of "unat i"] hd_be_min [of "unat i"] by (auto simp: be_val_Cons)
    then have "ucast x = i"
      by (simp add: word_unat_eq_iff unsigned_ucast_eq take_bit_nat_eq_self order_less_trans [OF unat_byte_less])
    with split 2 \<open>x \<noteq> 0\<close> show ?thesis by (simp add: SplitUint64_def)
  next
    case 3
    then have "256 ^ 1 \<le> (256 :: nat) ^ (length ?c - 1)" by (intro power_increasing) auto
    moreover have "0 < unat i" using 3 by (cases "unat i = 0") auto
    ultimately have "256 \<le> unat i"
      using be_val_hd_pos [of ?c] hd_be_min [of "unat i"] by (simp del: unat_eq_zero)
    with split 3 le readSize_tag [of "length ?c" ?c] hd_be_min [of "unat i"] show ?thesis
      by (simp add: SplitUint64_def)
  qed
qed

lemmas rlp_eval = rlp_value_def rlp_string_def rlp_head_def be_min_pos

subsection \<open>Properties\<close>

text \<open>C15: \<^verbatim>\<open>Split\<close> accepts a byte string exactly when it starts with the canonical encoding of a value,
  and then returns the kind and the content of that value and the bytes after it. In particular
  no value has a second encoding that \<^verbatim>\<open>Split\<close> accepts.\<close>

theorem Split_exact:
  assumes "length b < 2 ^ 63"
  shows "Split b = Inr (k, c, r) \<longleftrightarrow> (\<exists>h. rlp_value k c = Some h \<and> b = h @ r)"
  using assms by (rule Split_iff_value)

theorem Split_exact_witness:
  "length [0x83, 1, 2, 3, 9 :: byte] < 2 ^ 63 \<and>
   Split [0x83, 1, 2, 3, 9] = Inr (String, [1, 2, 3], [9])"
  using Split_exact [of "[0x83, 1, 2, 3, 9]" String "[1, 2, 3]" "[9]"] by (simp add: rlp_eval)

text \<open>C24: \<^verbatim>\<open>CountValues\<close> succeeds with \<open>n\<close> exactly on the concatenations of \<open>n\<close> canonical encodings.\<close>

theorem CountValues_exact:
  assumes "length b < 2 ^ 63"
  shows "CountValues b = Inr n \<longleftrightarrow>
    (\<exists>vs. n = length vs \<and> b = concat vs \<and> (\<forall>v \<in> set vs. \<exists>k c. rlp_value k c = Some v))"
  unfolding CountValues_def using CountValues_loop_iff [OF assms, of 0 n] by simp

theorem CountValues_exact_witness: "CountValues [0x05, 0x82, 1, 2, 0xC0] = Inr 3"
proof -
  let ?vs = "[[0x05], [0x82, 1, 2], [0xC0]] :: bytes list"
  have "rlp_value Byte [0x05] = Some [0x05]" "rlp_value String [1, 2] = Some [0x82, 1, 2]"
    "rlp_value List [] = Some [0xC0]"
    by (simp_all add: rlp_eval)
  then have "\<forall>v \<in> set ?vs. \<exists>k c. rlp_value k c = Some v" by auto
  then show ?thesis
    using CountValues_exact [of "[0x05, 0x82, 1, 2, 0xC0]" 3]
    by (simp, intro exI [of _ ?vs]) auto
qed

text \<open>C25: The integer \<^verbatim>\<open>AppendUint64\<close> writes is the one \<^verbatim>\<open>SplitUint64\<close> reads back, for every 64-bit
  value and whatever follows it.\<close>

theorem uint64_roundtrip:
  assumes "length (AppendUint64 [] i @ r) < 2 ^ 63"
  shows "SplitUint64 (AppendUint64 [] i @ r) = Inr (i, r)"
  using assms SplitUint64_be_min [of i r] by (simp add: AppendUint64_rlp_string)

theorem uint64_roundtrip_witness: "SplitUint64 (AppendUint64 [] 1024 @ [7]) = Inr (1024, [7])"
  using uint64_roundtrip [of 1024 "[7]"] by (simp add: AppendUint64_def)

text \<open>C26: \<^verbatim>\<open>IntSize\<close> and \<^verbatim>\<open>ListSize\<close> are the lengths of what the encoder writes: of an integer, and of a
  list header with its content. The latter wraps only where the content has almost \<open>2 ^ 64\<close> bytes.\<close>

theorem sizes_exact:
  "IntSize i = length (AppendUint64 [] i) \<and>
   unat (ListSize n) = (length (puthead 0xC0 0xF7 n) + unat n) mod 2 ^ 64 \<and>
   length (puthead 0xC0 0xF7 n) \<le> 9"
proof (intro conjI)
  have "0x80 \<le> i \<Longrightarrow> i \<noteq> 0" by auto
  moreover have "length (putint i) = length (AppendUint64 [] i) - 1" if "0x80 \<le> i"
    using that by (auto simp: putint_def AppendUint64_def word_less_nat_alt word_le_nat_alt)
  moreover have "AppendUint64 [] i \<noteq> []" by (simp add: AppendUint64_def)
  ultimately show "IntSize i = length (AppendUint64 [] i)"
    by (auto simp: IntSize_def intsize_putint not_less AppendUint64_def [of "[]" i] split: if_splits)
next
  show "unat (ListSize n) = (length (puthead 0xC0 0xF7 n) + unat n) mod 2 ^ 64"
    by (simp add: ListSize_def unat_word_ariths unat_of_nat mod_simps flip: headsize_puthead)
  show "length (puthead 0xC0 0xF7 n) \<le> 9"
    using length_be_min_u64 [of n] by (simp add: puthead_rlp_head rlp_head_def)
qed

end
