(* ===== verification/Rlp_Encode.thy ===== *)
theory Rlp_Encode
  imports Rlp_Raw
begin

section \<open>Package rlp: the encoder\<close>

text \<open>
  \<^verbatim>\<open>src/rlp/encode.go\<close>. The encoder makes one pass over a value: string data goes to the buffer
  \<open>str\<close>, and for each list only the offset of its header in \<open>str\<close> and, at the end of the list, the
  size of its payload are recorded. \<^verbatim>\<open>toBytes\<close> then interleaves the headers with the string data
  in an output slice whose size was counted during the pass.
  The reflection of \<^verbatim>\<open>makeWriter\<close> is a datatype of Go values with one constructor per writer
  function; what the writer of a struct asks \<^verbatim>\<open>reflect\<close> (the \<^verbatim>\<open>optional\<close> tag, \<^verbatim>\<open>IsZero\<close>) is a flag of
  the field. The buffers are reset before use, so the pool of buffers is not modelled.
  The main result is that the two passes compute the recursive RLP encoding.
\<close>

record listhead =
  lh_offset :: nat
  lh_size :: int

record encbuf =
  buf_str :: bytes
  lheads :: "listhead list"
  lhsize :: int

datatype goval =
    VRaw bytes
  | VBigIntPtr "int option"
  | VBigInt int
  | VUint uint64
  | VBool bool
  | VString bytes
  | VBytes bytes
  | VByteArray bytes
  | VSlice bool "goval list"
  | VStruct "(goval \<times> bool \<times> bool) list"
  | VNilPtr rlp_kind
  | VPtr goval
  | VInterface "goval option"

text \<open>A field of a struct: its value, whether it has the \<^verbatim>\<open>optional\<close> tag, whether it is zero.\<close>

type_synonym gofield = "goval \<times> bool \<times> bool"

subsection \<open>The encoding buffer\<close>

definition encbuf_reset :: "encbuf \<Rightarrow> encbuf" where
  "encbuf_reset w = w\<lparr>lhsize := 0, buf_str := [], lheads := []\<rparr>"

definition encbuf_Write :: "encbuf \<Rightarrow> bytes \<Rightarrow> encbuf" where
  "encbuf_Write w b = w\<lparr>buf_str := buf_str w @ b\<rparr>"

definition encodeStringHeader :: "encbuf \<Rightarrow> nat \<Rightarrow> encbuf" where
  "encodeStringHeader w sz =
     (if sz < 56 then encbuf_Write w [0x80 + word_of_nat sz]
      else (let sizebuf = putint (word_of_nat sz); sizesize = length sizebuf
            in encbuf_Write w ((0xB7 + word_of_nat sizesize) # sizebuf)))"

definition encodeString :: "encbuf \<Rightarrow> bytes \<Rightarrow> encbuf" where
  "encodeString w b =
     (if length b = 1 \<and> b ! 0 \<le> 0x7F then encbuf_Write w [b ! 0]
      else encbuf_Write (encodeStringHeader w (length b)) b)"

definition encodeUint :: "encbuf \<Rightarrow> uint64 \<Rightarrow> encbuf" where
  "encodeUint w i =
     (if i = 0 then encbuf_Write w [0x80]
      else if i < 128 then encbuf_Write w [ucast i]
      else (let sizebuf = putint i; s = length sizebuf
            in encbuf_Write w ((0x80 + word_of_nat s) # sizebuf)))"

definition encbuf_size :: "encbuf \<Rightarrow> int" where
  "encbuf_size w = int (length (buf_str w)) + lhsize w"

definition encbuf_list :: "encbuf \<Rightarrow> nat \<times> encbuf" where
  "encbuf_list w =
     (let w' = w\<lparr>lheads := lheads w @ [\<lparr>lh_offset = length (buf_str w), lh_size = lhsize w\<rparr>]\<rparr>
      in (length (lheads w') - 1, w'))"

definition encbuf_listEnd :: "encbuf \<Rightarrow> nat \<Rightarrow> encbuf" where
  "encbuf_listEnd w index =
     (let lh = lheads w ! index;
          sz = encbuf_size w - int (lh_offset lh) - lh_size lh;
          w' = w\<lparr>lheads := (lheads w)[index := lh\<lparr>lh_size := sz\<rparr>]\<rparr>
      in if sz < 56 then w'\<lparr>lhsize := lhsize w + 1\<rparr>
         else w'\<lparr>lhsize := lhsize w + (1 + int (intsize (word_of_int sz)))\<rparr>)"

definition listhead_encode :: "listhead \<Rightarrow> bytes" where
  "listhead_encode head = puthead 0xC0 0xF7 (word_of_int (lh_size head))"

text \<open>The loop of \<^verbatim>\<open>toBytes\<close> over the list headers, then the copy of the rest.\<close>

fun toBytes_loop :: "listhead list \<Rightarrow> bytes \<Rightarrow> bytes \<Rightarrow> nat \<Rightarrow> nat \<Rightarrow> bytes option" where
  "toBytes_loop [] str out pos strpos =
     map_option (\<lambda>s. fst (go_copy out pos s)) (go_slice str strpos (length str))"
| "toBytes_loop (head # heads) str out pos strpos =
     (case go_slice str strpos (lh_offset head) of
        None \<Rightarrow> None
      | Some s \<Rightarrow>
          (let (out, n) = go_copy out pos s; pos = pos + n; strpos = strpos + n;
               enc = listhead_encode head
           in case go_put out pos enc of
                None \<Rightarrow> None
              | Some out \<Rightarrow> toBytes_loop heads str out (pos + length enc) strpos))"

definition toBytes :: "encbuf \<Rightarrow> bytes option" where
  "toBytes w = toBytes_loop (lheads w) (buf_str w) (replicate (nat (encbuf_size w)) 0) 0 0"

subsection \<open>Big integers\<close>

text \<open>\<^verbatim>\<open>big.Int.BitLen\<close> and \<^verbatim>\<open>big.Int.Bits\<close> (little-endian 64-bit words) of the standard library.\<close>

fun bitlen :: "nat \<Rightarrow> nat" where
  "bitlen n = (if n = 0 then 0 else Suc (bitlen (n div 2)))"

declare bitlen.simps [simp del]

fun big_Bits :: "nat \<Rightarrow> uint64 list" where
  "big_Bits n = (if n = 0 then [] else word_of_nat n # big_Bits (n div 2 ^ 64))"

declare big_Bits.simps [simp del]

text \<open>The inner loop over the bytes of one word, then the outer loop over the words.\<close>

fun put_word :: "nat \<Rightarrow> uint64 \<Rightarrow> nat \<Rightarrow> bytes \<Rightarrow> nat \<times> bytes" where
  "put_word 0 d index buf = (index, buf)"
| "put_word (Suc j) d index buf =
     (if index > 0 then put_word j (drop_bit 8 d) (index - 1) (buf[index - 1 := ucast d])
      else (index, buf))"

fun put_words :: "uint64 list \<Rightarrow> nat \<Rightarrow> bytes \<Rightarrow> bytes" where
  "put_words [] index buf = buf"
| "put_words (d # ds) index buf = (let (index, buf) = put_word 8 d index buf in put_words ds index buf)"

definition writeBigInt :: "int \<Rightarrow> encbuf \<Rightarrow> rlp_error + encbuf" where
  "writeBigInt i w =
     (if i < 0 then Inl ErrNegativeBigInt
      else
        (let bl = bitlen (nat i) in
         if bl \<le> 64 then Inr (encodeUint w (word_of_int i))
         else
           (let len = nat (drop_bit 3 (and (int bl + 7) (-8)));
                w = encodeStringHeader w len;
                buf = put_words (big_Bits (nat i)) len (replicate len 0)
            in Inr (encbuf_Write w buf))))"

subsection \<open>Writers\<close>

definition writeByteArray :: "bytes \<Rightarrow> encbuf \<Rightarrow> encbuf" where
  "writeByteArray a w =
     (if length a = 0 then encbuf_Write w [0x80]
      else if length a = 1 then
        (if a ! 0 \<le> 0x7f then encbuf_Write w [a ! 0] else encbuf_Write w [0x81, a ! 0])
      else encbuf_Write (encodeStringHeader w (length a)) a)"

text \<open>The index of the first field with the tag \<^verbatim>\<open>optional\<close>, and the number of fields the struct
  writer emits: trailing optional fields that are zero are left out.\<close>

fun firstOptionalField :: "gofield list \<Rightarrow> nat" where
  "firstOptionalField [] = 0"
| "firstOptionalField ((v, optional, zero) # fs) = (if optional then 0 else Suc (firstOptionalField fs))"

fun lastField_count :: "gofield list \<Rightarrow> nat \<Rightarrow> nat \<Rightarrow> nat" where
  "lastField_count flds first 0 = 0"
| "lastField_count flds first (Suc n) =
     (if first \<le> n \<and> snd (snd (flds ! n)) then lastField_count flds first n else Suc n)"

definition struct_count :: "gofield list \<Rightarrow> nat" where
  "struct_count flds =
     (let first = firstOptionalField flds in
      if first = length flds then length flds
      else lastField_count flds first (length flds))"

fun writer :: "goval \<Rightarrow> encbuf \<Rightarrow> rlp_error + encbuf"
  and write_elems :: "goval list \<Rightarrow> encbuf \<Rightarrow> rlp_error + encbuf"
  and write_fields :: "nat \<Rightarrow> gofield list \<Rightarrow> encbuf \<Rightarrow> rlp_error + encbuf" where
  "writer (VRaw b) w = Inr (encbuf_Write w b)"
| "writer (VBigIntPtr None) w = Inr (encbuf_Write w [0x80])"
| "writer (VBigIntPtr (Some i)) w = writeBigInt i w"
| "writer (VBigInt i) w = writeBigInt i w"
| "writer (VUint i) w = Inr (encodeUint w i)"
| "writer (VBool b) w = Inr (encbuf_Write w [if b then 0x01 else 0x80])"
| "writer (VString s) w = Inr (encodeString w s)"
| "writer (VBytes b) w = Inr (encodeString w b)"
| "writer (VByteArray a) w = Inr (writeByteArray a w)"
| "writer (VSlice tail vs) w =
     (if tail then write_elems vs w
      else (let (lh, w) = encbuf_list w
            in map_sum id (\<lambda>w. encbuf_listEnd w lh) (write_elems vs w)))"
| "writer (VStruct flds) w =
     (let (lh, w) = encbuf_list w
      in map_sum id (\<lambda>w. encbuf_listEnd w lh) (write_fields (struct_count flds) flds w))"
| "writer (VNilPtr k) w =
     (if k = String then Inr (encbuf_Write w [0x80])
      else (let (lh, w) = encbuf_list w in Inr (encbuf_listEnd w lh)))"
| "writer (VPtr v) w = writer v w"
| "writer (VInterface None) w = Inr (encbuf_Write w [0xC0])"
| "writer (VInterface (Some v)) w = writer v w"
| "write_elems [] w = Inr w"
| "write_elems (v # vs) w = (case writer v w of Inl e \<Rightarrow> Inl e | Inr w \<Rightarrow> write_elems vs w)"
| "write_fields n [] w = Inr w"
| "write_fields 0 (f # fs) w = Inr w"
| "write_fields (Suc n) ((v, optional, zero) # fs) w =
     (case writer v w of Inl e \<Rightarrow> Inl e | Inr w \<Rightarrow> write_fields n fs w)"

definition EncodeToBytes :: "goval \<Rightarrow> rlp_error + bytes" where
  "EncodeToBytes v =
     (case writer v (encbuf_reset \<lparr>buf_str = [], lheads = [], lhsize = 0\<rparr>) of
        Inl err \<Rightarrow> Inl err
      | Inr eb \<Rightarrow> (case toBytes eb of None \<Rightarrow> Inl GoPanic | Some bs \<Rightarrow> Inr bs))"

subsection \<open>Big integers are written as the shortest big-endian string\<close>

lemma bitlen_le_iff: "bitlen n \<le> m \<longleftrightarrow> n < 2 ^ m"
proof (induction n arbitrary: m rule: bitlen.induct)
  case (1 n)
  show ?case
  proof (cases "n = 0")
    case True
    then show ?thesis by (simp add: bitlen.simps)
  next
    case False
    then have b: "bitlen n = Suc (bitlen (n div 2))" by (simp add: bitlen.simps [of n])
    show ?thesis
    proof (cases m)
      case 0
      with b False show ?thesis by simp
    next
      case (Suc k)
      have "n div 2 < 2 ^ k \<longleftrightarrow> n < 2 ^ k * 2" by (rule div_less_iff_less_mult) simp
      with "1.IH" [OF False, of k] b Suc show ?thesis by (simp add: mult.commute)
    qed
  qed
qed

lemma length_be_min_bitlen: "length (be_min n) = (bitlen n + 7) div 8"
proof (rule antisym)
  have "bitlen n \<le> 8 * ((bitlen n + 7) div 8)" by linarith
  then have "n < 256 ^ ((bitlen n + 7) div 8)"
    by (simp only: bitlen_le_iff power_mult) simp
  then show "length (be_min n) \<le> (bitlen n + 7) div 8" by (rule length_be_min_le)
next
  have "n < 256 ^ length (be_min n)" using be_val_less [of "be_min n"] by simp
  then have "n < 2 ^ (8 * length (be_min n))" by (simp add: power_mult)
  then have "bitlen n \<le> 8 * length (be_min n)" by (simp add: bitlen_le_iff)
  then show "(bitlen n + 7) div 8 \<le> length (be_min n)" by linarith
qed

lemma round_up_bytes: "nat (drop_bit 3 (and (int bl + 7) (-8))) = (bl + 7) div 8"
proof -
  have m: "(-8 :: int) = NOT (mask 3)" by (simp add: mask_eq_exp_minus_1 not_int_def)
  have "drop_bit 3 (and (int bl + 7) (-8)) = drop_bit 3 (int bl + 7)"
    unfolding m by (rule bit_eqI) (auto simp: bit_simps)
  then show ?thesis by (simp add: drop_bit_eq_div nat_div_distrib nat_add_distrib)
qed

lemma length_put_word [simp]: "length (snd (put_word j d index buf)) = length buf"
  by (induction j d index buf rule: put_word.induct) auto

lemma fst_put_word: "fst (put_word j d index buf) = index - j"
  by (induction j d index buf rule: put_word.induct) auto

lemma nth_put_word:
  "index \<le> length buf \<Longrightarrow> p < length buf \<Longrightarrow>
   snd (put_word j d index buf) ! p =
     (if p < index \<and> index - 1 - p < j then ucast (drop_bit (8 * (index - 1 - p)) d) else buf ! p)"
proof (induction j d index buf rule: put_word.induct)
  case (2 j d index buf)
  show ?case
  proof (cases "index > 0")
    case True
    let ?buf = "buf[index - 1 := ucast d]"
    have ih: "snd (put_word (Suc j) d index buf) ! p =
        (if p < index - 1 \<and> index - 1 - 1 - p < j
         then ucast (drop_bit (8 * (index - 1 - 1 - p)) (drop_bit 8 d)) else ?buf ! p)"
      using 2 True by simp
    consider "p < index - 1" | "p = index - 1" | "index \<le> p" by linarith
    then show ?thesis
    proof cases
      case 1
      then obtain t where t: "index - 1 - p = Suc t" by (cases "index - 1 - p") auto
      with 1 have "index - 1 - 1 - p = t" by linarith
      with t 1 ih show ?thesis by (simp add: add.commute)
    next
      case 2
      with "2.prems" True have "?buf ! p = ucast d" by simp
      with 2 True ih show ?thesis by simp
    next
      case 3
      with True have "p \<noteq> index - 1" and "\<not> p < index - 1" by simp_all
      with 3 ih show ?thesis by simp
    qed
  qed simp
qed simp

lemma nth_put_words:
  "index \<le> length buf \<Longrightarrow> p < length buf \<Longrightarrow>
   put_words (big_Bits n) index buf ! p =
     (if p < index \<and> index - 1 - p < 8 * length (big_Bits n)
      then word_of_nat (n div 256 ^ (index - 1 - p)) else buf ! p)"
proof (induction n arbitrary: index buf rule: big_Bits.induct)
  case (1 n)
  show ?case
  proof (cases "n = 0")
    case True
    then show ?thesis by (simp add: big_Bits.simps)
  next
    case False
    let ?m = "n div 2 ^ 64"
    let ?w = "put_word 8 (word_of_nat n) index buf"
    have "put_words (big_Bits n) index buf = put_words (big_Bits ?m) (index - 8) (snd ?w)"
      using False fst_put_word [of 8 "word_of_nat n" index buf]
      by (auto simp: big_Bits.simps [of n] split: prod.splits)
    moreover have "put_words (big_Bits ?m) (index - 8) (snd ?w) ! p =
      (if p < index - 8 \<and> index - 8 - 1 - p < 8 * length (big_Bits ?m)
       then word_of_nat (?m div 256 ^ (index - 8 - 1 - p)) else snd ?w ! p)"
      using False "1.prems" by (intro "1.IH") auto
    moreover have "?m div 256 ^ (index - 8 - 1 - p) = n div 256 ^ (index - 1 - p)"
      if "p < index - 8"
    proof -
      have "(2 :: nat) ^ 64 * 256 ^ (index - 8 - 1 - p) = 256 ^ (8 + (index - 8 - 1 - p))"
        by (simp add: power_add)
      moreover have "8 + (index - 8 - 1 - p) = index - 1 - p" using that by linarith
      ultimately show ?thesis by (metis div_mult2_eq)
    qed
    moreover have "(ucast (drop_bit (8 * t) (word_of_nat n :: uint64)) :: byte) =
      word_of_nat (n div 256 ^ t)" if "t < 8" for t
    proof -
      have "drop_bit (8 * t) (take_bit 64 n) mod 256 = drop_bit (8 * t) n mod 256"
        by (simp add: take_bit_drop_bit [symmetric] flip: take_bit_eq_mod [of 8, simplified])
           (use that in \<open>simp add: drop_bit_take_bit take_bit_take_bit\<close>)
      then show ?thesis
        by (simp add: word_unat_eq_iff unsigned_ucast_eq unat_drop_bit_eq unat_of_nat
            take_bit_eq_mod drop_bit_nat_def power_mult)
    qed
    ultimately show ?thesis
      using False "1.prems" nth_put_word [of index buf p 8 "word_of_nat n"]
      by (auto simp: big_Bits.simps [of n])
  qed
qed

lemma be_min_Suc_nth:
  "p < length (be_min n) \<Longrightarrow> be_min n ! p = word_of_nat (n div 256 ^ (length (be_min n) - 1 - p))"
proof (induction n arbitrary: p rule: be_min.induct)
  case (1 n)
  then have n: "0 < n" by (cases "n = 0") auto
  show ?case
  proof (cases "p < length (be_min (n div 256))")
    case True
    then obtain t where t: "length (be_min (n div 256)) - 1 - p = t"
      "length (be_min (n div 256)) - p = Suc t" by (cases "length (be_min (n div 256)) - p") auto
    with True n 1 show ?thesis
      by (simp add: be_min_pos [of n] nth_append div_mult2_eq)
  next
    case False
    with "1.prems" n have "p = length (be_min (n div 256))" by (simp add: be_min_pos [of n])
    with n show ?thesis by (simp add: be_min_pos [of n])
  qed
qed

lemma big_Bits_length: "n < 2 ^ (64 * length (big_Bits n))"
proof (induction n rule: big_Bits.induct)
  case (1 n)
  show ?case
  proof (cases "n = 0")
    case False
    with 1 have "n div 2 ^ 64 < 2 ^ (64 * length (big_Bits (n div 2 ^ 64)))" by simp
    then have "n < 2 ^ (64 * length (big_Bits (n div 2 ^ 64))) * 2 ^ 64"
      by (subst (asm) div_less_iff_less_mult) auto
    with False show ?thesis by (simp add: big_Bits.simps [of n] power_add)
  qed (simp add: big_Bits.simps)
qed

lemma length_put_words [simp]: "length (put_words ds index buf) = length buf"
  by (induction ds index buf rule: put_words.induct)
    (auto split: prod.splits dest: arg_cong [where f = "\<lambda>x. length (snd x)"])

lemma put_words_be_min:
  assumes "len = length (be_min n)"
  shows "put_words (big_Bits n) len (replicate len 0) = be_min n"
proof (rule nth_equalityI)
  have "length (be_min n) \<le> 8 * length (big_Bits n)"
    using big_Bits_length [of n] by (intro length_be_min_le) (simp add: power_mult)
  moreover fix p assume "p < length (put_words (big_Bits n) len (replicate len 0))"
  moreover from calculation have "len - 1 - p < 8 * length (big_Bits n)"
    using assms by (simp only: length_put_words length_replicate)
  ultimately show "put_words (big_Bits n) len (replicate len 0) ! p = be_min n ! p"
    using assms by (simp add: nth_put_words be_min_Suc_nth)
qed (simp add: assms)

subsection \<open>The recursive encoding and the layout of the buffer\<close>

text \<open>The encoding of a list with payload \<open>c\<close>, and of a value, by recursion on the value.\<close>

definition rlp_list :: "bytes \<Rightarrow> bytes" where
  "rlp_list c = rlp_head 0xC0 0xF7 (length c) @ c"

fun rlp_spec :: "goval \<Rightarrow> bytes"
  and rlp_spec_elems :: "goval list \<Rightarrow> bytes"
  and rlp_spec_fields :: "nat \<Rightarrow> gofield list \<Rightarrow> bytes" where
  "rlp_spec (VRaw b) = b"
| "rlp_spec (VBigIntPtr None) = [0x80]"
| "rlp_spec (VBigIntPtr (Some i)) = rlp_string (be_min (nat i))"
| "rlp_spec (VBigInt i) = rlp_string (be_min (nat i))"
| "rlp_spec (VUint i) = rlp_string (be_min (unat i))"
| "rlp_spec (VBool b) = [if b then 0x01 else 0x80]"
| "rlp_spec (VString s) = rlp_string s"
| "rlp_spec (VBytes b) = rlp_string b"
| "rlp_spec (VByteArray a) = rlp_string a"
| "rlp_spec (VSlice tail vs) = (if tail then rlp_spec_elems vs else rlp_list (rlp_spec_elems vs))"
| "rlp_spec (VStruct flds) = rlp_list (rlp_spec_fields (struct_count flds) flds)"
| "rlp_spec (VNilPtr k) = (if k = String then [0x80] else [0xC0])"
| "rlp_spec (VPtr v) = rlp_spec v"
| "rlp_spec (VInterface None) = [0xC0]"
| "rlp_spec (VInterface (Some v)) = rlp_spec v"
| "rlp_spec_elems [] = []"
| "rlp_spec_elems (v # vs) = rlp_spec v @ rlp_spec_elems vs"
| "rlp_spec_fields n [] = []"
| "rlp_spec_fields 0 (f # fs) = []"
| "rlp_spec_fields (Suc n) ((v, optional, zero) # fs) = rlp_spec v @ rlp_spec_fields n fs"

text \<open>Whether the encoder meets a negative integer.\<close>

fun rlp_negative :: "goval \<Rightarrow> bool"
  and rlp_negative_elems :: "goval list \<Rightarrow> bool"
  and rlp_negative_fields :: "nat \<Rightarrow> gofield list \<Rightarrow> bool" where
  "rlp_negative (VBigIntPtr (Some i)) = (i < 0)"
| "rlp_negative (VBigInt i) = (i < 0)"
| "rlp_negative (VSlice tail vs) = rlp_negative_elems vs"
| "rlp_negative (VStruct flds) = rlp_negative_fields (struct_count flds) flds"
| "rlp_negative (VPtr v) = rlp_negative v"
| "rlp_negative (VInterface (Some v)) = rlp_negative v"
| "rlp_negative _ = False"
| "rlp_negative_elems [] = False"
| "rlp_negative_elems (v # vs) = (rlp_negative v \<or> rlp_negative_elems vs)"
| "rlp_negative_fields n [] = False"
| "rlp_negative_fields 0 (f # fs) = False"
| "rlp_negative_fields (Suc n) ((v, optional, zero) # fs) = (rlp_negative v \<or> rlp_negative_fields n fs)"

text \<open>
  What an encoding step adds to the buffer, in order: string data and list headers (the number
  is the payload size). The buffer keeps the two apart; the output interleaves them.
\<close>

datatype piece = Data bytes | Head nat

fun str_of :: "piece list \<Rightarrow> bytes" where
  "str_of [] = []"
| "str_of (Data b # ps) = b @ str_of ps"
| "str_of (Head n # ps) = str_of ps"

fun heads_of :: "nat \<Rightarrow> piece list \<Rightarrow> listhead list" where
  "heads_of off [] = []"
| "heads_of off (Data b # ps) = heads_of (off + length b) ps"
| "heads_of off (Head n # ps) = \<lparr>lh_offset = off, lh_size = int n\<rparr> # heads_of off ps"

fun hsize_of :: "piece list \<Rightarrow> nat" where
  "hsize_of [] = 0"
| "hsize_of (Data b # ps) = hsize_of ps"
| "hsize_of (Head n # ps) = length (rlp_head 0xC0 0xF7 n) + hsize_of ps"

fun bytes_of :: "piece list \<Rightarrow> bytes" where
  "bytes_of [] = []"
| "bytes_of (Data b # ps) = b @ bytes_of ps"
| "bytes_of (Head n # ps) = rlp_head 0xC0 0xF7 n @ bytes_of ps"

lemma length_bytes_of: "length (bytes_of ps) = length (str_of ps) + hsize_of ps"
  by (induction ps rule: bytes_of.induct) auto

lemma pieces_append [simp]:
  "str_of (ps @ qs) = str_of ps @ str_of qs"
  "hsize_of (ps @ qs) = hsize_of ps + hsize_of qs"
  "bytes_of (ps @ qs) = bytes_of ps @ bytes_of qs"
  "heads_of off (ps @ qs) = heads_of off ps @ heads_of (off + length (str_of ps)) qs"
  by (induction ps arbitrary: off rule: bytes_of.induct) (auto simp: add.assoc)

text \<open>The buffer \<open>w'\<close> is \<open>w\<close> with the pieces \<open>ps\<close> added.\<close>

definition adds :: "encbuf \<Rightarrow> piece list \<Rightarrow> encbuf \<Rightarrow> bool" where
  "adds w ps w' \<longleftrightarrow>
     buf_str w' = buf_str w @ str_of ps \<and>
     lheads w' = lheads w @ heads_of (length (buf_str w)) ps \<and>
     lhsize w' = lhsize w + int (hsize_of ps) \<and>
     (\<forall>n. Head n \<in> set ps \<longrightarrow> n < 2 ^ 63)"

lemma adds_trans: "adds w ps w' \<Longrightarrow> adds w' qs w'' \<Longrightarrow> adds w (ps @ qs) w''"
  by (auto simp: adds_def)

lemma adds_refl: "adds w [] w"
  by (simp add: adds_def)

lemma adds_Write: "adds w [Data b] (encbuf_Write w b)"
  by (simp add: adds_def encbuf_Write_def)

lemma adds_list:
  assumes "adds (snd (encbuf_list w)) ps w'" and "length (bytes_of ps) < 2 ^ 63"
  shows "adds w (Head (length (bytes_of ps)) # ps) (encbuf_listEnd w' (fst (encbuf_list w)))"
proof -
  let ?n = "length (bytes_of ps)"
  have size: "encbuf_size w' - int (length (buf_str w)) - lhsize w = int ?n"
    using assms(1) by (simp add: adds_def encbuf_size_def encbuf_list_def length_bytes_of)
  have head: "length (rlp_head 0xC0 0xF7 ?n) = headsize (word_of_nat ?n)"
    using assms(2) headsize_puthead [of "word_of_nat ?n" "0xC0" "0xF7"]
    by (simp add: puthead_rlp_head unat_of_nat)
  have lt: "(word_of_nat ?n :: uint64) < 56 \<longleftrightarrow> ?n < 56"
    using assms(2) by (simp add: word_less_nat_alt unat_of_nat)
  show ?thesis
    using assms size head lt
    by (auto simp: adds_def encbuf_listEnd_def encbuf_list_def Let_def nth_append headsize_def)
qed

subsection \<open>Every writer adds the encoding of its value\<close>

lemma Write_Write [simp]: "encbuf_Write (encbuf_Write w a) b = encbuf_Write w (a @ b)"
  by (simp add: encbuf_Write_def)

lemma encodeStringHeader_Write:
  "sz < 2 ^ 63 \<Longrightarrow> encodeStringHeader w sz = encbuf_Write w (rlp_head 0x80 0xB7 sz)"
  by (auto simp: encodeStringHeader_def rlp_head_def putint_be_min unat_of_nat word_of_nat_eq_0_iff
      Let_def dest: nat_dvd_not_less)

lemma encodeString_Write: "length b < 2 ^ 63 \<Longrightarrow> encodeString w b = encbuf_Write w (rlp_string b)"
  by (auto simp: encodeString_def rlp_string_def encodeStringHeader_Write length_Suc_conv
      word_le_nat_alt word_less_nat_alt)

lemma encodeUint_Write: "encodeUint w i = encbuf_Write w (rlp_string (be_min (unat i)))"
proof -
  have one: "i < 128 \<Longrightarrow> i \<noteq> 0 \<Longrightarrow> be_min (unat i) = [ucast i]"
    using putint_be_min [of i] by (auto simp: putint_def word_less_nat_alt split: if_splits)
  have small: "i < 128 \<Longrightarrow> (ucast i :: byte) < 0x80"
    by (simp add: word_less_nat_alt unsigned_ucast_eq take_bit_eq_mod)
  have big: "\<not> (length (be_min (unat i)) = 1 \<and> hd (be_min (unat i)) < 0x80)" if "\<not> i < 128"
  proof
    assume "length (be_min (unat i)) = 1 \<and> hd (be_min (unat i)) < 0x80"
    then obtain x where "be_min (unat i) = [x]" "x < 0x80" by (auto simp: length_Suc_conv)
    then have "unat i < 128"
      using be_val_be_min [of "unat i"] by (simp add: be_val_Cons word_less_nat_alt)
    with that show False by (simp add: word_less_nat_alt)
  qed
  have "length (be_min (unat i)) \<le> 8" by (rule length_be_min_u64)
  with one small big show ?thesis
    by (auto simp: encodeUint_def putint_be_min rlp_string_def rlp_head_def Let_def)
qed

lemma writeByteArray_Write:
  "length a < 2 ^ 63 \<Longrightarrow> writeByteArray a w = encbuf_Write w (rlp_string a)"
  by (auto simp: writeByteArray_def rlp_string_def rlp_head_def encodeStringHeader_Write
      length_Suc_conv word_le_nat_alt word_less_nat_alt)

lemma writeBigInt_Write:
  assumes "length (rlp_string (be_min (nat i))) < 2 ^ 63"
  shows "writeBigInt i w =
    (if i < 0 then Inl ErrNegativeBigInt else Inr (encbuf_Write w (rlp_string (be_min (nat i)))))"
proof (cases "i < 0 \<or> bitlen (nat i) \<le> 64")
  case True
  then have "0 \<le> i \<Longrightarrow> unat (word_of_int i :: uint64) = nat i"
    by (auto simp: bitlen_le_iff unsigned_of_int take_bit_int_eq_self)
  with True show ?thesis by (auto simp: writeBigInt_def encodeUint_Write)
next
  case False
  define n where "n = nat i"
  have long: "1 < length (be_min n)" using False unfolding length_be_min_bitlen n_def by linarith
  then have "length (be_min n) < 2 ^ 63"
    using assms by (auto simp: rlp_string_def n_def split: if_splits)
  moreover have "nat (drop_bit 3 (and (int (bitlen n) + 7) (-8))) = length (be_min n)"
    by (simp only: round_up_bytes length_be_min_bitlen)
  ultimately have "writeBigInt i w = Inr (encbuf_Write (encodeStringHeader w (length (be_min n))) (be_min n))"
    using False unfolding writeBigInt_def n_def [symmetric] Let_def
    by (simp only: put_words_be_min if_False not_less de_Morgan_disj not_le) simp
  with \<open>length (be_min n) < 2 ^ 63\<close> False long show ?thesis
    by (simp add: rlp_string_def encodeStringHeader_Write flip: n_def)
qed

definition writes :: "goval \<Rightarrow> encbuf \<Rightarrow> bool" where
  "writes v w \<longleftrightarrow>
     (if rlp_negative v then writer v w = Inl ErrNegativeBigInt
      else \<exists>w' ps. writer v w = Inr w' \<and> adds w ps w' \<and> bytes_of ps = rlp_spec v)"

lemma writes_leaf:
  "\<not> rlp_negative v \<Longrightarrow> writer v w = Inr (encbuf_Write w (rlp_spec v)) \<Longrightarrow> writes v w"
  unfolding writes_def using adds_Write [of w "rlp_spec v"] by auto

lemma ex_adds_Write: "\<exists>ps. adds w ps (encbuf_Write w b) \<and> bytes_of ps = b"
  using adds_Write [of w b] by auto

lemma length_rlp_stringD: "length (rlp_string b) < n \<Longrightarrow> length b < n"
  by (auto simp: rlp_string_def split: if_splits)

lemma writes_list:
  assumes neg: "neg \<Longrightarrow> r = Inl ErrNegativeBigInt"
    and pos: "\<not> neg \<Longrightarrow> \<exists>w' ps. r = Inr w' \<and> adds (snd (encbuf_list w)) ps w' \<and> bytes_of ps = c"
    and len: "length (rlp_list c) < 2 ^ 63"
  shows "if neg then map_sum id (\<lambda>w'. encbuf_listEnd w' (fst (encbuf_list w))) r = Inl ErrNegativeBigInt
    else \<exists>w' ps. map_sum id (\<lambda>w'. encbuf_listEnd w' (fst (encbuf_list w))) r = Inr w' \<and>
      adds w ps w' \<and> bytes_of ps = rlp_list c"
proof (cases neg)
  case True
  then show ?thesis using neg by simp
next
  case False
  then obtain w' ps where r: "r = Inr w'" and a: "adds (snd (encbuf_list w)) ps w'"
    and b: "bytes_of ps = c" using pos by blast
  have "length (bytes_of ps) < 2 ^ 63" using len b by (simp add: rlp_list_def)
  from adds_list [OF a this] r b False show ?thesis
    by (auto simp: rlp_list_def intro!: exI [of _ "Head (length c) # ps"])
qed

lemma writer_writes:
  "length (rlp_spec v) < 2 ^ 63 \<Longrightarrow> writes v w"
  "length (rlp_spec_elems vs) < 2 ^ 63 \<Longrightarrow>
    if rlp_negative_elems vs then write_elems vs w = Inl ErrNegativeBigInt
    else \<exists>w' ps. write_elems vs w = Inr w' \<and> adds w ps w' \<and> bytes_of ps = rlp_spec_elems vs"
  "length (rlp_spec_fields n fs) < 2 ^ 63 \<Longrightarrow>
    if rlp_negative_fields n fs then write_fields n fs w = Inl ErrNegativeBigInt
    else \<exists>w' ps. write_fields n fs w = Inr w' \<and> adds w ps w' \<and> bytes_of ps = rlp_spec_fields n fs"
proof (induction v w and vs w and n fs w rule: writer_write_elems_write_fields.induct)
  case (10 tail vs w)
  show ?case
  proof (cases tail)
    case True
    with 10 show ?thesis by (auto simp: writes_def split: if_splits)
  next
    case False
    let ?w = "snd (encbuf_list w)"
    have "length (rlp_spec_elems vs) < 2 ^ 63" using "10.prems" False by (simp add: rlp_list_def)
    with "10.IH"(2) [OF False refl prod.collapse] False
    show ?thesis
      using "10.prems" writes_list [of "rlp_negative_elems vs" "write_elems vs ?w" w "rlp_spec_elems vs"]
      by (auto simp: writes_def split: prod.splits if_splits)
  qed
next
  case (11 flds w)
  let ?w = "snd (encbuf_list w)" and ?n = "struct_count flds"
  have "length (rlp_spec_fields ?n flds) < 2 ^ 63" using "11.prems" by (simp add: rlp_list_def)
  with "11.IH" [OF refl prod.collapse] show ?case
    using "11.prems"
      writes_list [of "rlp_negative_fields ?n flds" "write_fields ?n flds ?w" w "rlp_spec_fields ?n flds"]
    by (auto simp: writes_def split: prod.splits if_splits)
next
  case (12 k w)
  show ?case
  proof (cases "k = String")
    case True
    then show ?thesis by (intro writes_leaf) simp_all
  next
    case False
    then show ?thesis
      using writes_list [of False "Inr (snd (encbuf_list w))" w "[]"] adds_refl
      by (fastforce simp: writes_def rlp_list_def rlp_head_def split: prod.splits)
  qed
next
  case (17 v vs w)
  then show ?case
    by (fastforce simp: writes_def split: sum.splits if_splits dest: adds_trans)
next
  case (20 n v optional zero fs w)
  then show ?case
    by (fastforce simp: writes_def split: sum.splits if_splits dest: adds_trans)
qed (auto simp: writes_def ex_adds_Write encodeUint_Write writeBigInt_Write
    encodeString_Write [OF length_rlp_stringD] writeByteArray_Write [OF length_rlp_stringD]
    intro!: adds_refl exI [of _ "[]"])

subsection \<open>The second pass interleaves the pieces\<close>

lemma toBytes_loop_pieces:
  assumes "strpos \<le> length pre"
    and "length out = pos + (length pre - strpos) + length (bytes_of ps)"
    and "length (bytes_of ps) < 2 ^ 63" and "\<forall>n. Head n \<in> set ps \<longrightarrow> n < 2 ^ 63"
  shows "toBytes_loop (heads_of (length pre) ps) (pre @ str_of ps) out pos strpos =
    Some (take pos out @ drop strpos pre @ bytes_of ps)"
  using assms
proof (induction ps arbitrary: pre out pos strpos rule: bytes_of.induct)
  case 1
  then show ?case by (simp add: go_simps)
next
  case (2 b ps)
  from "2.IH" [of strpos "pre @ b" out pos] "2.prems" show ?case by simp
next
  case (3 n ps)
  let ?h = "rlp_head 0xC0 0xF7 n" and ?s = "drop strpos pre"
  have enc: "listhead_encode \<lparr>lh_offset = length pre, lh_size = int n\<rparr> = ?h"
    using spec [OF "3.prems"(4), of n] by (simp add: listhead_encode_def puthead_rlp_head unat_of_nat)
  let ?out = "take pos out @ ?s @ drop (pos + length ?s) out"
  let ?out2 = "take (pos + length ?s) ?out @ ?h @ drop (pos + length ?s + length ?h) ?out"
  have "toBytes_loop (heads_of (length pre) (Head n # ps)) (pre @ str_of ps) out pos strpos =
    toBytes_loop (heads_of (length pre) ps) (pre @ str_of ps) ?out2 (pos + length ?s + length ?h)
      (strpos + length ?s)"
    using "3.prems" by (simp add: go_simps enc Let_def)
  also have "\<dots> = Some (take (pos + length ?s + length ?h) ?out2 @ drop (strpos + length ?s) pre @ bytes_of ps)"
    using "3.prems" by (intro "3.IH") auto
  also have "\<dots> = Some (take pos out @ ?s @ bytes_of (Head n # ps))"
    using "3.prems" by simp
  finally show ?case by simp
qed

lemma EncodeToBytes_spec:
  assumes "length (rlp_spec v) < 2 ^ 63"
  shows "EncodeToBytes v = (if rlp_negative v then Inl ErrNegativeBigInt else Inr (rlp_spec v))"
proof (cases "rlp_negative v")
  case True
  with writer_writes(1) [OF assms] show ?thesis by (simp add: writes_def EncodeToBytes_def)
next
  case False
  let ?w = "encbuf_reset \<lparr>buf_str = [], lheads = [], lhsize = 0\<rparr>"
  from writer_writes(1) [OF assms] False obtain w' ps
    where w': "writer v ?w = Inr w'" and a: "adds ?w ps w'" and b: "bytes_of ps = rlp_spec v"
    unfolding writes_def by metis
  have "toBytes w' = Some (bytes_of ps)"
    using a assms toBytes_loop_pieces [of 0 "[]" "replicate (nat (encbuf_size w')) 0" 0 ps]
    by (simp add: toBytes_def adds_def encbuf_reset_def encbuf_size_def length_bytes_of nat_int_add flip: b)
  with w' b False show ?thesis by (simp add: EncodeToBytes_def)
qed

subsection \<open>Properties\<close>



text \<open>C27: A struct is encoded without its trailing optional zero fields and with every other field: the
  fields left out are exactly the longest suffix of zero fields that does not reach below the
  first optional field.\<close>

theorem struct_count_longest:
  "struct_count flds \<le> length flds \<and> firstOptionalField flds \<le> struct_count flds \<and>
   (\<forall>i. struct_count flds \<le> i \<and> i < length flds \<longrightarrow> snd (snd (flds ! i))) \<and>
   (firstOptionalField flds < struct_count flds \<and> firstOptionalField flds < length flds \<longrightarrow>
      \<not> snd (snd (flds ! (struct_count flds - 1))))"
proof -
  have first: "firstOptionalField flds \<le> length flds"
    by (induction flds rule: firstOptionalField.induct) auto
  have "lastField_count flds f n \<le> n \<and> f \<le> lastField_count flds f n \<and>
    (\<forall>i. lastField_count flds f n \<le> i \<and> i < n \<longrightarrow> snd (snd (flds ! i))) \<and>
    (f < lastField_count flds f n \<longrightarrow> \<not> snd (snd (flds ! (lastField_count flds f n - 1))))"
    if "f \<le> n" for f n
    using that
  proof (induction n)
    case (Suc n)
    show ?case
    proof (cases "f \<le> n \<and> snd (snd (flds ! n))")
      case True
      with Suc.IH show ?thesis by (auto simp: less_Suc_eq)
    next
      case False
      with Suc.prems show ?thesis by (auto simp: not_le)
    qed
  qed simp
  from this [OF first] show ?thesis
    by (auto simp: struct_count_def Let_def)
qed

theorem struct_count_longest_witness:
  "struct_count [(VUint 1, False, False), (VUint 2, True, False), (VUint 0, True, True)] = 2 \<and>
   snd (snd ([(VUint 1, False, False), (VUint 2, True, False), (VUint 0, True, True)] ! 2))"
  using struct_count_longest
    [of "[(VUint 1, False, False), (VUint 2, True, False), (VUint 0, True, True)]"]
  by (simp add: struct_count_def numeral_eq_Suc)

end
