(* ===== verification/Rlp_Decode.thy ===== *)
theory Rlp_Decode
  imports Rlp_Encode
begin

section \<open>Package rlp: the decoding stream\<close>

text \<open>
  \<^verbatim>\<open>src/rlp/decode.go\<close>. The state of a \<^verbatim>\<open>Stream\<close> reading from a \<^verbatim>\<open>bytes.Reader\<close>: the bytes the reader
  has left, the input limit, the stack of sizes of the open lists (innermost first) and the cached
  type tag of the value ahead. An operation takes the state and returns its result or error
  together with the new state, since an error leaves a changed stream behind. A decoder that runs
  a loop until the end of a list is given fuel; \<open>None\<close> is lack of fuel only, and
  the theory \<open>Rlp_Codec\<close> shows how much is enough. The text an error carries about the Go type
  it was decoding into is not modelled, and the scratch buffer \<^verbatim>\<open>uintbuf\<close> is not part of the state.
\<close>

record stream =
  s_input :: bytes
  s_remaining :: uint64
  s_size :: uint64
  s_kinderr :: "rlp_error option"
  s_stack :: "uint64 list"
  s_kind :: "rlp_kind option"
  s_byteval :: byte
  s_limited :: bool

type_synonym 'a outcome = "(rlp_error + 'a) \<times> stream"

subsection \<open>Reading from the input\<close>

definition listLimit :: "stream \<Rightarrow> bool \<times> uint64" where
  "listLimit s = (case s_stack s of [] \<Rightarrow> (False, 0) | limit # _ \<Rightarrow> (True, limit))"

definition willRead :: "uint64 \<Rightarrow> stream \<Rightarrow> unit outcome" where
  "willRead n s =
     (let s = s\<lparr>s_kind := None\<rparr>; (inList, limit) = listLimit s in
      if inList \<and> n > limit then (Inl ErrElemTooLarge, s)
      else
        (let s = (if inList then s\<lparr>s_stack := (limit - n) # tl (s_stack s)\<rparr> else s) in
         if s_limited s then
           (if n > s_remaining s then (Inl ErrValueTooLarge, s)
            else (Inr (), s\<lparr>s_remaining := s_remaining s - n\<rparr>))
         else (Inr (), s)))"

definition readByte :: "stream \<Rightarrow> byte outcome" where
  "readByte s =
     (case willRead 1 s of
        (Inl err, s) \<Rightarrow> (Inl err, s)
      | (Inr _, s) \<Rightarrow>
          (case s_input s of
             [] \<Rightarrow> (Inl ErrUnexpectedEOF, s)
           | b # rest \<Rightarrow> (Inr b, s\<lparr>s_input := rest\<rparr>)))"

text \<open>\<^verbatim>\<open>readFull\<close> into a buffer of \<open>n\<close> bytes.\<close>

definition readFull :: "uint64 \<Rightarrow> stream \<Rightarrow> bytes outcome" where
  "readFull n s =
     (case willRead n s of
        (Inl err, s) \<Rightarrow> (Inl err, s)
      | (Inr _, s) \<Rightarrow>
          if length (s_input s) < unat n then (Inl ErrUnexpectedEOF, s\<lparr>s_input := []\<rparr>)
          else (Inr (take (unat n) (s_input s)), s\<lparr>s_input := drop (unat n) (s_input s)\<rparr>))"

definition readUint :: "byte \<Rightarrow> stream \<Rightarrow> uint64 outcome" where
  "readUint sz s =
     (if sz = 0 then (Inr 0, s\<lparr>s_kind := None\<rparr>)
      else if sz = 1 then
        (case readByte s of (Inl err, s) \<Rightarrow> (Inl err, s) | (Inr b, s) \<Rightarrow> (Inr (ucast b), s))
      else
        (case readFull (ucast sz) s of
           (Inl err, s) \<Rightarrow> (Inl err, s)
         | (Inr buffer, s) \<Rightarrow>
             if buffer ! 0 = 0 then (Inl ErrCanonSize, s)
             else (Inr (be_word (replicate (8 - unat sz) 0 @ buffer)), s)))"

text \<open>The type tag: kind, size and error are all recorded in the stream by \<^verbatim>\<open>Kind\<close>.\<close>

definition stream_readKind :: "stream \<Rightarrow> (rlp_kind \<times> uint64 \<times> rlp_error option) \<times> stream" where
  "stream_readKind s =
     (case readByte s of
        (Inl err, s) \<Rightarrow>
          ((Byte, 0, Some (if s_stack s = [] \<and> (err = ErrUnexpectedEOF \<or> err = ErrValueTooLarge)
                           then ErrEOF else err)), s)
      | (Inr b, s) \<Rightarrow>
          (let s = s\<lparr>s_byteval := 0\<rparr> in
           if b < 0x80 then ((Byte, 0, None), s\<lparr>s_byteval := b\<rparr>)
           else if b < 0xB8 then ((String, ucast (b - 0x80), None), s)
           else if b < 0xC0 then
             (case readUint (b - 0xB7) s of
                (Inl err, s) \<Rightarrow> ((String, 0, Some err), s)
              | (Inr sz, s) \<Rightarrow>
                  ((String, sz, if sz < 56 then Some ErrCanonSize else None), s))
           else if b < 0xF8 then ((List, ucast (b - 0xC0), None), s)
           else
             (case readUint (b - 0xF7) s of
                (Inl err, s) \<Rightarrow> ((List, 0, Some err), s)
              | (Inr sz, s) \<Rightarrow>
                  ((List, sz, if sz < 56 then Some ErrCanonSize else None), s))))"

definition stream_Kind :: "stream \<Rightarrow> (rlp_kind \<times> uint64) outcome" where
  "stream_Kind s =
     (let ret = (\<lambda>s. case s_kinderr s of
                        None \<Rightarrow> (Inr (the (s_kind s), s_size s), s) | Some err \<Rightarrow> (Inl err, s)) in
      if s_kind s \<noteq> None then ret s
      else
        (let (inList, limit) = listLimit s in
         if inList \<and> limit = 0 then (Inl EOL, s)
         else
           (let ((k, sz, err), s) = stream_readKind s;
                err = (if err = None then
                         (if inList \<and> sz > limit then Some ErrElemTooLarge
                          else if s_limited s \<and> sz > s_remaining s then Some ErrValueTooLarge
                          else None)
                       else err)
            in ret (s\<lparr>s_kind := Some k, s_size := sz, s_kinderr := err\<rparr>))))"

subsection \<open>Reading values\<close>

definition stream_Bytes :: "stream \<Rightarrow> bytes outcome" where
  "stream_Bytes s =
     (case stream_Kind s of
        (Inl err, s) \<Rightarrow> (Inl err, s)
      | (Inr (k, sz), s) \<Rightarrow>
          (case k of
             Byte \<Rightarrow> (Inr [s_byteval s], s\<lparr>s_kind := None\<rparr>)
           | String \<Rightarrow>
               (case readFull sz s of
                  (Inl err, s) \<Rightarrow> (Inl err, s)
                | (Inr b, s) \<Rightarrow>
                    if sz = 1 \<and> b ! 0 < 128 then (Inl ErrCanonSize, s) else (Inr b, s))
           | List \<Rightarrow> (Inl ErrExpectedString, s)))"

definition stream_Raw :: "stream \<Rightarrow> bytes outcome" where
  "stream_Raw s =
     (case stream_Kind s of
        (Inl err, s) \<Rightarrow> (Inl err, s)
      | (Inr (k, sz), s) \<Rightarrow>
          if k = Byte then (Inr [s_byteval s], s\<lparr>s_kind := None\<rparr>)
          else
            (case readFull sz s of
               (Inl err, s) \<Rightarrow> (Inl err, s)
             | (Inr content, s) \<Rightarrow>
                 (Inr ((if k = String then puthead 0x80 0xB7 sz else puthead 0xC0 0xF7 sz) @ content), s)))"

definition stream_uint :: "nat \<Rightarrow> stream \<Rightarrow> uint64 outcome" where
  "stream_uint maxbits s =
     (case stream_Kind s of
        (Inl err, s) \<Rightarrow> (Inl err, s)
      | (Inr (k, sz), s) \<Rightarrow>
          (case k of
             Byte \<Rightarrow>
               if s_byteval s = 0 then (Inl ErrCanonInt, s)
               else (Inr (ucast (s_byteval s)), s\<lparr>s_kind := None\<rparr>)
           | String \<Rightarrow>
               if sz > word_of_nat (maxbits div 8) then (Inl errUintOverflow, s)
               else
                 (case readUint (ucast sz) s of
                    (Inl err, s) \<Rightarrow> (Inl (if err = ErrCanonSize then ErrCanonInt else err), s)
                  | (Inr v, s) \<Rightarrow> if sz > 0 \<and> v < 128 then (Inl ErrCanonSize, s) else (Inr v, s))
           | List \<Rightarrow> (Inl ErrExpectedString, s)))"

definition stream_Uint :: "stream \<Rightarrow> uint64 outcome" where
  "stream_Uint s = stream_uint 64 s"

definition stream_Bool :: "stream \<Rightarrow> bool outcome" where
  "stream_Bool s =
     (case stream_uint 8 s of
        (Inl err, s) \<Rightarrow> (Inl err, s)
      | (Inr num, s) \<Rightarrow>
          if num = 0 then (Inr False, s) else if num = 1 then (Inr True, s)
          else (Inl (ErrInvalidBool num), s))"

definition stream_List :: "stream \<Rightarrow> uint64 outcome" where
  "stream_List s =
     (case stream_Kind s of
        (Inl err, s) \<Rightarrow> (Inl err, s)
      | (Inr (k, sz), s) \<Rightarrow>
          if k \<noteq> List then (Inl ErrExpectedList, s)
          else
            (let (inList, limit) = listLimit s;
                 s = (if inList then s\<lparr>s_stack := (limit - sz) # tl (s_stack s)\<rparr> else s)
             in (Inr sz, s\<lparr>s_stack := sz # s_stack s, s_kind := None, s_size := 0\<rparr>)))"

definition stream_ListEnd :: "stream \<Rightarrow> unit outcome" where
  "stream_ListEnd s =
     (let (inList, limit) = listLimit s in
      if \<not> inList then (Inl errNotInList, s)
      else if limit > 0 then (Inl errNotAtEOL, s)
      else (Inr (), s\<lparr>s_stack := tl (s_stack s), s_kind := None, s_size := 0\<rparr>))"

text \<open>\<^verbatim>\<open>Reset\<close> with a \<^verbatim>\<open>bytes.Reader\<close> over \<open>r\<close>: without an explicit limit it is the length of the data.\<close>

definition stream_Reset :: "bytes \<Rightarrow> uint64 \<Rightarrow> stream" where
  "stream_Reset r inputLimit =
     \<lparr>s_input = r,
      s_remaining = (if inputLimit > 0 then inputLimit else word_of_nat (length r)),
      s_size = 0, s_kinderr = None, s_stack = [], s_kind = None, s_byteval = 0, s_limited = True\<rparr>"

definition NewListStream :: "bytes \<Rightarrow> uint64 \<Rightarrow> stream" where
  "NewListStream r len = (stream_Reset r len)\<lparr>s_kind := Some List, s_size := len\<rparr>"

subsection \<open>Decoders\<close>

definition wrapStreamError :: "rlp_error \<Rightarrow> rlp_error" where
  "wrapStreamError err =
     (case err of
        ErrCanonInt \<Rightarrow> DecodeError ''non-canonical integer (leading zero bytes)''
      | ErrCanonSize \<Rightarrow> DecodeError ''non-canonical size information''
      | ErrExpectedList \<Rightarrow> DecodeError ''expected input list''
      | ErrExpectedString \<Rightarrow> DecodeError ''expected input string or byte''
      | errUintOverflow \<Rightarrow> DecodeError ''input string too long''
      | errNotAtEOL \<Rightarrow> DecodeError ''input list has too many elements''
      | _ \<Rightarrow> err)"

definition wrapped :: "'a outcome \<Rightarrow> 'a outcome" where
  "wrapped r = (case r of (Inl err, s) \<Rightarrow> (Inl (wrapStreamError err), s) | _ \<Rightarrow> r)"

definition decodeUint :: "nat \<Rightarrow> stream \<Rightarrow> uint64 outcome" where
  "decodeUint bits s = wrapped (stream_uint bits s)"

definition decodeBool :: "stream \<Rightarrow> bool outcome" where
  "decodeBool s = wrapped (stream_Bool s)"

definition decodeString :: "stream \<Rightarrow> bytes outcome" where
  "decodeString s = wrapped (stream_Bytes s)"

definition decodeByteSlice :: "stream \<Rightarrow> bytes outcome" where
  "decodeByteSlice s = wrapped (stream_Bytes s)"

definition decodeBigInt :: "stream \<Rightarrow> int outcome" where
  "decodeBigInt s =
     (case stream_Kind s of
        (Inl err, s) \<Rightarrow> (Inl (wrapStreamError err), s)
      | (Inr (k, sz), s) \<Rightarrow>
          (let r = (if k = List then (Inl (wrapStreamError ErrExpectedString), s)
                    else if k = Byte then (Inr [s_byteval s], s\<lparr>s_kind := None\<rparr>)
                    else if sz = 0 then (Inr [], s\<lparr>s_kind := None\<rparr>)
                    else
                      (case readFull sz s of
                         (Inl err, s) \<Rightarrow> (Inl (wrapStreamError err), s)
                       | (Inr buffer, s) \<Rightarrow>
                           if sz \<le> 32 \<and> sz = 1 \<and> buffer ! 0 < 128
                           then (Inl (wrapStreamError ErrCanonSize), s) else (Inr buffer, s)))
           in case r of
                (Inl err, s) \<Rightarrow> (Inl err, s)
              | (Inr buffer, s) \<Rightarrow>
                  if length buffer > 0 \<and> buffer ! 0 = 0 then (Inl (wrapStreamError ErrCanonInt), s)
                  else (Inr (int (be_val buffer)), s)))"

text \<open>Decoding into a byte array of length \<open>len\<close>.\<close>

definition decodeByteArray :: "nat \<Rightarrow> stream \<Rightarrow> bytes outcome" where
  "decodeByteArray len s =
     (case stream_Kind s of
        (Inl err, s) \<Rightarrow> (Inl err, s)
      | (Inr (k, sz), s) \<Rightarrow>
          (case k of
             Byte \<Rightarrow>
               if len = 0 then (Inl (DecodeError ''input string too long''), s)
               else if len > 1 then (Inl (DecodeError ''input string too short''), s)
               else (Inr [s_byteval s], s\<lparr>s_kind := None\<rparr>)
           | String \<Rightarrow>
               if word_of_nat len < sz then (Inl (DecodeError ''input string too long''), s)
               else if word_of_nat len > sz then (Inl (DecodeError ''input string too short''), s)
               else
                 (case readFull (word_of_nat len) s of
                    (Inl err, s) \<Rightarrow> (Inl err, s)
                  | (Inr arr, s) \<Rightarrow>
                      if sz = 1 \<and> arr ! 0 < 128 then (Inl (wrapStreamError ErrCanonSize), s)
                      else (Inr arr, s))
           | List \<Rightarrow> (Inl (wrapStreamError ErrExpectedString), s)))"

text \<open>
  \<^verbatim>\<open>decodeSliceElems\<close>: elements are decoded with \<open>elemdec\<close> until it reports the end of the list.
  The decoders of lists, arrays and structs are generic in the decoder of their elements, as in
  the code; \<open>None\<close> stands for lack of fuel in the loop or in an element.
\<close>

type_synonym 'a decoder = "stream \<Rightarrow> 'a outcome option"

fun decodeSliceElems :: "nat \<Rightarrow> 'a decoder \<Rightarrow> 'a list decoder" where
  "decodeSliceElems 0 elemdec s = None"
| "decodeSliceElems (Suc fuel) elemdec s =
     (case elemdec s of
        None \<Rightarrow> None
      | Some (Inl err, s) \<Rightarrow> Some (if err = EOL then Inr [] else Inl err, s)
      | Some (Inr x, s) \<Rightarrow>
          (case decodeSliceElems fuel elemdec s of
             None \<Rightarrow> None
           | Some (Inl err, s) \<Rightarrow> Some (Inl err, s)
           | Some (Inr xs, s) \<Rightarrow> Some (Inr (x # xs), s)))"

definition decodeListSlice :: "nat \<Rightarrow> 'a decoder \<Rightarrow> 'a list decoder" where
  "decodeListSlice fuel elemdec s =
     (case stream_List s of
        (Inl err, s) \<Rightarrow> Some (Inl (wrapStreamError err), s)
      | (Inr sz, s) \<Rightarrow>
          if sz = 0 then
            (case stream_ListEnd s of (Inl err, s) \<Rightarrow> Some (Inl err, s) | (Inr _, s) \<Rightarrow> Some (Inr [], s))
          else
            (case decodeSliceElems fuel elemdec s of
               None \<Rightarrow> None
             | Some (Inl err, s) \<Rightarrow> Some (Inl err, s)
             | Some (Inr xs, s) \<Rightarrow>
                 (case stream_ListEnd s of
                    (Inl err, s) \<Rightarrow> Some (Inl err, s) | (Inr _, s) \<Rightarrow> Some (Inr xs, s))))"

text \<open>Decoding into an array of \<open>vlen\<close> elements: the loop over the \<open>n\<close> elements left.\<close>

fun decodeArrayElems :: "nat \<Rightarrow> 'a decoder \<Rightarrow> 'a list decoder" where
  "decodeArrayElems 0 elemdec s = Some (Inr [], s)"
| "decodeArrayElems (Suc n) elemdec s =
     (case elemdec s of
        None \<Rightarrow> None
      | Some (Inl err, s) \<Rightarrow> Some (if err = EOL then Inr [] else Inl err, s)
      | Some (Inr x, s) \<Rightarrow>
          (case decodeArrayElems n elemdec s of
             None \<Rightarrow> None
           | Some (Inl err, s) \<Rightarrow> Some (Inl err, s)
           | Some (Inr xs, s) \<Rightarrow> Some (Inr (x # xs), s)))"

definition decodeListArray :: "nat \<Rightarrow> 'a decoder \<Rightarrow> 'a list decoder" where
  "decodeListArray vlen elemdec s =
     (case stream_List s of
        (Inl err, s) \<Rightarrow> Some (Inl (wrapStreamError err), s)
      | (Inr _, s) \<Rightarrow>
          (case decodeArrayElems vlen elemdec s of
             None \<Rightarrow> None
           | Some (Inl err, s) \<Rightarrow> Some (Inl err, s)
           | Some (Inr xs, s) \<Rightarrow>
               if length xs < vlen then Some (Inl (DecodeError ''input list has too few elements''), s)
               else
                 (case stream_ListEnd s of
                    (Inl err, s) \<Rightarrow> Some (Inl (wrapStreamError err), s)
                  | (Inr _, s) \<Rightarrow> Some (Inr xs, s))))"

text \<open>A field of a struct: its decoder, whether it is optional, and the zero value of its type.\<close>

fun decodeFields :: "('a decoder \<times> bool \<times> 'a) list \<Rightarrow> 'a list decoder" where
  "decodeFields [] s = Some (Inr [], s)"
| "decodeFields ((dec, optional, zero) # fs) s =
     (case dec s of
        None \<Rightarrow> None
      | Some (Inl err, s) \<Rightarrow>
          Some (if err = EOL then
                  (if optional then Inr (zero # map (\<lambda>(d, opt, z). z) fs)
                   else Inl (DecodeError ''too few elements''))
                else Inl err, s)
      | Some (Inr x, s) \<Rightarrow>
          (case decodeFields fs s of
             None \<Rightarrow> None
           | Some (Inl err, s) \<Rightarrow> Some (Inl err, s)
           | Some (Inr xs, s) \<Rightarrow> Some (Inr (x # xs), s)))"

definition decodeStruct :: "('a decoder \<times> bool \<times> 'a) list \<Rightarrow> 'a list decoder" where
  "decodeStruct flds s =
     (case stream_List s of
        (Inl err, s) \<Rightarrow> Some (Inl (wrapStreamError err), s)
      | (Inr _, s) \<Rightarrow>
          (case decodeFields flds s of
             None \<Rightarrow> None
           | Some (Inl err, s) \<Rightarrow> Some (Inl err, s)
           | Some (Inr xs, s) \<Rightarrow>
               (case stream_ListEnd s of
                  (Inl err, s) \<Rightarrow> Some (Inl (wrapStreamError err), s)
                | (Inr _, s) \<Rightarrow> Some (Inr xs, s))))"

text \<open>Decoding into a pointer with the \<^verbatim>\<open>nil\<close> tag: an empty value is the nil pointer.\<close>

definition decodeNilPtr :: "'a decoder \<Rightarrow> rlp_kind \<Rightarrow> 'a option decoder" where
  "decodeNilPtr dec nilKind s =
     (case stream_Kind s of
        (Inl err, s) \<Rightarrow> Some (Inl (wrapStreamError err), s)
      | (Inr (k, sz), s) \<Rightarrow>
          if k \<noteq> Byte \<and> sz = 0 then
            (if k \<noteq> nilKind then Some (Inl (DecodeError ''wrong kind of empty value''), s)
             else Some (Inr None, s\<lparr>s_kind := None\<rparr>))
          else map_option (\<lambda>(r, s). (map_sum id Some r, s)) (dec s))"

text \<open>The values an empty interface decodes to: byte slices and slices of such values.\<close>

datatype item = Str bytes | Items "item list"

fun decodeInterface :: "nat \<Rightarrow> item decoder" where
  "decodeInterface 0 s = None"
| "decodeInterface (Suc fuel) s =
     (case stream_Kind s of
        (Inl err, s) \<Rightarrow> Some (Inl err, s)
      | (Inr (k, sz), s) \<Rightarrow>
          if k = List then
            map_option (\<lambda>(r, s). (map_sum id Items r, s))
              (decodeListSlice fuel (decodeInterface fuel) s)
          else
            (case stream_Bytes s of (Inl err, s) \<Rightarrow> Some (Inl err, s) | (Inr b, s) \<Rightarrow> Some (Inr (Str b), s)))"

text \<open>\<^verbatim>\<open>DecodeBytes\<close> with a decoder for the target type.\<close>

definition DecodeBytes :: "bytes \<Rightarrow> 'a decoder \<Rightarrow> (rlp_error + 'a) option" where
  "DecodeBytes b dec =
     (case dec (stream_Reset b (word_of_nat (length b))) of
        None \<Rightarrow> None
      | Some (Inl err, s) \<Rightarrow> Some (Inl err)
      | Some (Inr v, s) \<Rightarrow>
          if length (s_input s) > 0 then Some (Inl ErrMoreThanOneValue) else Some (Inr v))"

subsection \<open>What a successful read does to the stream\<close>

text \<open>
  \<open>can_read n s\<close>: the input, the innermost list and the input limit all have \<open>n\<close> bytes.
  \<open>consume n s\<close>: the stream after reading them. The subtractions are those of the code, on 64-bit
  words; \<open>core\<close> forgets the cached type tag.
\<close>

definition can_read :: "nat \<Rightarrow> stream \<Rightarrow> bool" where
  "can_read n s \<longleftrightarrow>
     n \<le> length (s_input s) \<and>
     (case s_stack s of [] \<Rightarrow> True | l # _ \<Rightarrow> n \<le> unat l) \<and>
     (s_limited s \<longrightarrow> n \<le> unat (s_remaining s))"

definition consume :: "nat \<Rightarrow> stream \<Rightarrow> stream" where
  "consume n s =
     s\<lparr>s_kind := None, s_input := drop n (s_input s),
       s_stack := (case s_stack s of [] \<Rightarrow> [] | l # ls \<Rightarrow> (l - word_of_nat n) # ls),
       s_remaining := (if s_limited s then s_remaining s - word_of_nat n else s_remaining s)\<rparr>"

definition core :: "stream \<Rightarrow> stream" where
  "core s = s\<lparr>s_size := 0, s_kinderr := None, s_byteval := 0\<rparr>"

lemma consume_simps [simp]:
  "s_kind (consume n s) = None" "s_input (consume n s) = drop n (s_input s)"
  "s_limited (consume n s) = s_limited s"
  "s_stack (consume n s) = (case s_stack s of [] \<Rightarrow> [] | l # ls \<Rightarrow> (l - word_of_nat n) # ls)"
  by (simp_all add: consume_def)

lemma consume_consume [simp]: "consume b (consume a s) = consume (a + b) s"
  by (cases "s_stack s") (simp_all add: consume_def algebra_simps)

lemma consume_0: "s_kind s = None \<Longrightarrow> consume 0 s = s"
  by (cases "s_stack s") (simp_all add: consume_def)

lemma consume_update [simp]:
  "consume n (s\<lparr>s_byteval := b\<rparr>) = (consume n s)\<lparr>s_byteval := b\<rparr>"
  "consume n (s\<lparr>s_kind := k\<rparr>) = consume n s"
  "consume n (s\<lparr>s_size := sz\<rparr>) = (consume n s)\<lparr>s_size := sz\<rparr>"
  "consume n (s\<lparr>s_kinderr := e\<rparr>) = (consume n s)\<lparr>s_kinderr := e\<rparr>"
  by (cases "s_stack s"; simp add: consume_def)+

lemma can_read_update [simp]:
  "can_read n (s\<lparr>s_byteval := b\<rparr>) = can_read n s"
  "can_read n (s\<lparr>s_kind := k\<rparr>) = can_read n s"
  "can_read n (s\<lparr>s_size := sz\<rparr>) = can_read n s"
  "can_read n (s\<lparr>s_kinderr := e\<rparr>) = can_read n s"
  by (simp_all add: can_read_def)

lemma core_update [simp]:
  "core (s\<lparr>s_byteval := b\<rparr>) = core s" "core (s\<lparr>s_size := sz\<rparr>) = core s"
  "core (s\<lparr>s_kinderr := e\<rparr>) = core s"
  by (simp_all add: core_def)

lemma unat_minus_of_nat:
  "n \<le> unat (l :: uint64) \<Longrightarrow> unat (l - word_of_nat n) = unat l - n"
  by (metis le_unat_uoi unat_sub word_le_nat_alt)

lemma can_read_add:
  "can_read (a + b) s \<longleftrightarrow> can_read a s \<and> can_read b (consume a s)"
  by (cases "s_stack s") (auto simp: can_read_def consume_def unat_minus_of_nat)

lemma can_read_mono: "can_read n s \<Longrightarrow> m \<le> n \<Longrightarrow> can_read m s"
  by (auto simp: can_read_def split: list.splits)

lemma willRead_ok:
  assumes "case s_stack s of [] \<Rightarrow> True | l # _ \<Rightarrow> n \<le> l" and "s_limited s \<longrightarrow> n \<le> s_remaining s"
  shows "willRead n s = (Inr (), (consume (unat n) s)\<lparr>s_input := s_input s\<rparr>)"
  using assms
  by (cases s; cases "s_stack s") (auto simp: willRead_def listLimit_def consume_def Let_def)

lemma willRead_fail:
  assumes "\<not> ((case s_stack s of [] \<Rightarrow> True | l # _ \<Rightarrow> n \<le> l) \<and> (s_limited s \<longrightarrow> n \<le> s_remaining s))"
  shows "\<exists>e s'. willRead n s = (Inl e, s')"
  using assms by (cases "s_stack s") (auto simp: willRead_def listLimit_def Let_def)

lemma readFull_ok:
  "can_read (unat n) s \<Longrightarrow> readFull n s = (Inr (take (unat n) (s_input s)), consume (unat n) s)"
  by (subst readFull_def, subst willRead_ok)
    (auto simp: can_read_def word_le_nat_alt consume_def split: list.splits)

lemma readFull_fail:
  assumes "\<not> can_read (unat n) s"
  shows "\<exists>e s'. readFull n s = (Inl e, s')"
proof (cases "(case s_stack s of [] \<Rightarrow> True | l # _ \<Rightarrow> n \<le> l) \<and> (s_limited s \<longrightarrow> n \<le> s_remaining s)")
  case True
  with assms have "length (s_input s) < unat n"
    by (auto simp: can_read_def word_le_nat_alt split: list.splits)
  with True show ?thesis by (simp add: readFull_def willRead_ok)
next
  case False
  from willRead_fail [OF False] show ?thesis by (auto simp: readFull_def)
qed

lemma readByte_ok: "can_read 1 s \<Longrightarrow> readByte s = (Inr (hd (s_input s)), consume 1 s)"
  by (subst readByte_def, subst willRead_ok)
    (auto simp: can_read_def word_le_nat_alt consume_def drop_Suc neq_Nil_conv Suc_le_length_iff
      split: list.splits)

lemma readByte_fail:
  assumes "\<not> can_read 1 s"
  shows "\<exists>e s'. readByte s = (Inl e, s')"
proof (cases "(case s_stack s of [] \<Rightarrow> True | l # _ \<Rightarrow> 1 \<le> l) \<and> (s_limited s \<longrightarrow> 1 \<le> s_remaining s)")
  case True
  with assms have "s_input s = []"
    by (cases "s_input s") (auto simp: can_read_def word_le_nat_alt split: list.splits)
  with True show ?thesis by (simp add: readByte_def willRead_ok)
next
  case False
  from willRead_fail [OF False] show ?thesis by (auto simp: readByte_def)
qed

lemma readFull_iff:
  "readFull n s = (Inr bs, s') \<longleftrightarrow>
   can_read (unat n) s \<and> bs = take (unat n) (s_input s) \<and> s' = consume (unat n) s"
  using readFull_ok [of n s] readFull_fail [of n s] by (cases "can_read (unat n) s") auto

lemma readByte_iff:
  "readByte s = (Inr b, s') \<longleftrightarrow> can_read 1 s \<and> b = hd (s_input s) \<and> s' = consume 1 s"
  using readByte_ok [of s] readByte_fail [of s] by (cases "can_read 1 s") auto

text \<open>The size that follows a long tag: as many bytes as the tag says, without leading zero.\<close>

lemma be_word_zeros: "be_word (replicate k 0 @ bs) = be_word bs"
  by (induction k) (simp_all add: be_word_def)

lemma readUint_iff:
  assumes "2 \<le> m" "m \<le> 8"
  shows "readUint (word_of_nat m) s = (Inr v, s') \<longleftrightarrow>
    can_read m s \<and> s_input s ! 0 \<noteq> 0 \<and> v = word_of_nat (be_val (take m (s_input s))) \<and> s' = consume m s"
proof -
  have m: "unat (word_of_nat m :: byte) = m" "(word_of_nat m :: byte) \<noteq> 0" "(word_of_nat m :: byte) \<noteq> 1"
    using assms by (auto simp: unat_of_nat word_unat_eq_iff)
  have u: "unat (ucast (word_of_nat m :: byte) :: uint64) = m"
    using assms by (simp add: unsigned_ucast_eq unat_of_nat take_bit_nat_eq_self)
  have w: "be_word (take m t) = word_of_nat (be_val (take m t))" for t
    using assms by (simp add: min_le_iff_disj flip: unat_be_word)
  show ?thesis
    using assms m u w readFull_ok [of "ucast (word_of_nat m :: byte)" s]
      readFull_fail [of "ucast (word_of_nat m :: byte)" s]
    by (cases "can_read m s") (auto simp: readUint_def be_word_zeros)
qed

lemma readUint_1_iff:
  "readUint 1 s = (Inr v, s') \<longleftrightarrow> can_read 1 s \<and> v = ucast (hd (s_input s)) \<and> s' = consume 1 s"
  using readByte_ok [of s] readByte_fail [of s] by (cases "can_read 1 s") (auto simp: readUint_def)

text \<open>A long tag with its size is accepted exactly when it is the canonical header.\<close>

lemma ucast_be_val: "ucast (b :: byte) = (word_of_nat (be_val [b]) :: uint64)"
  by (simp add: be_val_Cons)

lemma readUint_tag_iff:
  assumes "1 \<le> m" "m \<le> 8" and len: "length (s_input s) < 2 ^ 63"
  shows "readUint (word_of_nat m) s = (Inr v, s') \<and> \<not> v < 56 \<longleftrightarrow>
    can_read m s \<and> 56 \<le> unat v \<and> take m (s_input s) = be_min (unat v) \<and> s' = consume m s"
proof -
  let ?t = "take m (s_input s)"
  have fits: "unat (word_of_nat (be_val ?t) :: uint64) = be_val ?t"
  proof -
    have "be_val ?t < 256 ^ length ?t" by (rule be_val_less)
    also have "\<dots> \<le> 256 ^ 8" using assms by (intro power_increasing) auto
    finally show ?thesis by (simp add: unat_of_nat)
  qed
  have "readUint (word_of_nat m) s = (Inr v, s') \<and> \<not> v < 56 \<longleftrightarrow>
    can_read m s \<and> (m = 1 \<or> s_input s ! 0 \<noteq> 0) \<and> v = word_of_nat (be_val ?t) \<and> \<not> v < 56 \<and> s' = consume m s"
  proof (cases "m = 1")
    case True
    have "?t = [hd (s_input s)]" if "can_read m s"
      using that True by (cases "s_input s") (auto simp: can_read_def)
    with True show ?thesis
      using readUint_1_iff [of s v s'] by (auto simp: ucast_be_val)
  next
    case False
    with assms readUint_iff [of m s v s'] show ?thesis by auto
  qed
  also have "\<dots> \<longleftrightarrow> can_read m s \<and> 56 \<le> unat v \<and> ?t = be_min (unat v) \<and> s' = consume m s"
  proof (intro iffI; elim conjE)
    assume r: "can_read m s" and z: "m = 1 \<or> s_input s ! 0 \<noteq> 0" and v: "v = word_of_nat (be_val ?t)"
      and big: "\<not> v < 56" and s': "s' = consume m s"
    have t: "?t \<noteq> []" using r assms by (auto simp: can_read_def)
    have "hd ?t \<noteq> 0"
    proof
      assume "hd ?t = 0"
      then have "be_val ?t = be_val (tl ?t)" using t by (cases ?t) (auto simp: be_val_Cons)
      moreover have "m = 1" using z t r \<open>hd ?t = 0\<close> assms
        by (cases "s_input s") (auto simp: can_read_def hd_take)
      ultimately show False using big v fits by (cases "s_input s") (auto simp: word_less_nat_alt)
    qed
    then show "can_read m s \<and> 56 \<le> unat v \<and> ?t = be_min (unat v) \<and> s' = consume m s"
      using r big v fits s' be_min_be_val [of ?t] by (auto simp: word_less_nat_alt)
  next
    assume r: "can_read m s" and "56 \<le> unat v" and t: "?t = be_min (unat v)" and "s' = consume m s"
    then have "hd ?t \<noteq> 0" and "be_val ?t = unat v"
      using hd_be_min [of "unat v"] by auto
    moreover have "hd ?t = s_input s ! 0"
      using r assms by (cases "s_input s") (auto simp: can_read_def hd_take)
    ultimately show "can_read m s \<and> (m = 1 \<or> s_input s ! 0 \<noteq> 0) \<and> v = word_of_nat (be_val ?t) \<and>
        \<not> v < 56 \<and> s' = consume m s"
      using r \<open>56 \<le> unat v\<close> \<open>s' = consume m s\<close> by (auto simp: word_less_nat_alt)
  qed
  finally show ?thesis .
qed

subsection \<open>Type tags\<close>

definition khead :: "rlp_kind \<Rightarrow> nat \<Rightarrow> bytes" where
  "khead k n = (if k = List then rlp_head 0xC0 0xF7 n else rlp_head 0x80 0xB7 n)"

lemma khead_nonempty [simp]: "khead k n \<noteq> []"
  by (simp add: khead_def rlp_head_def)

lemma length_khead_pos [simp]: "0 < length (khead k n)"
  by simp

lemma readKind_byte_tag:
  "can_read 1 s \<Longrightarrow> hd (s_input s) < 0x80 \<Longrightarrow>
   stream_readKind s = ((Byte, 0, None), (consume 1 s)\<lparr>s_byteval := hd (s_input s)\<rparr>)"
  by (simp add: stream_readKind_def readByte_ok Let_def)

lemma take_Cons_eq: "take (Suc m) xs = y # ys \<Longrightarrow> hd xs = y \<and> take m (drop 1 xs) = ys"
  by (cases xs) auto

lemma readKind_khead:
  assumes r: "can_read (length (khead k (unat sz))) s" and k: "k \<noteq> Byte"
    and t: "take (length (khead k (unat sz))) (s_input s) = khead k (unat sz)"
    and len: "length (s_input s) < 2 ^ 63"
  shows "stream_readKind s =
    ((k, sz, None), (consume (length (khead k (unat sz))) s)\<lparr>s_byteval := 0\<rparr>)"
proof (cases "unat sz < 56")
  case True
  define n where "n = unat sz"
  have n: "n < 56" and sz: "unat sz = n" "sz = word_of_nat n"
    using True by (simp_all add: n_def)
  have u: "ucast (word_of_nat n :: byte) = (word_of_nat n :: uint64)"
    using n by (simp add: word_unat_eq_iff unsigned_ucast_eq unat_of_nat take_bit_nat_eq_self)
  have r1: "can_read 1 s" using r by (rule can_read_mono) (simp add: Suc_le_eq)
  from t n have "hd (s_input s) = (if k = List then 0xC0 else 0x80) + word_of_nat n"
    unfolding sz(1) by (auto simp: khead_def rlp_head_def dest!: take_Cons_eq)
  with n k r1 u show ?thesis
    unfolding sz(1)
    by (cases k) (auto simp: stream_readKind_def readByte_ok Let_def tag_simps khead_def rlp_head_def sz(2))
next
  case False
  let ?m = "length (be_min (unat sz))"
  have m: "1 \<le> ?m" "?m \<le> 8" using False length_be_min_u64 [of sz] by (auto simp: Suc_le_eq)
  have h: "khead k (unat sz) = ((if k = List then 0xF7 else 0xB7) + word_of_nat ?m) # be_min (unat sz)"
    using False by (simp add: khead_def rlp_head_def)
  have r1: "can_read 1 s" "can_read ?m (consume 1 s)"
    using r can_read_add [of 1 ?m s] by (simp_all add: h)
  from t have hd: "hd (s_input s) = (if k = List then 0xF7 else 0xB7) + word_of_nat ?m"
    and tl: "take ?m (drop 1 (s_input s)) = be_min (unat sz)"
    by (auto simp: h dest!: take_Cons_eq)
  let ?s1 = "(consume 1 s)\<lparr>s_byteval := 0\<rparr>"
  have "readUint (word_of_nat ?m) ?s1 = (Inr sz, consume ?m ?s1) \<and> \<not> sz < 56"
    using readUint_tag_iff [of ?m ?s1 sz "consume ?m ?s1"] m r1 False tl len by simp
  with hd k r1 m show ?thesis
    by (cases k) (auto simp: stream_readKind_def readByte_ok Let_def tag_simps khead_def rlp_head_def)
qed

lemma readKind_inverse:
  assumes "stream_readKind s = ((k, sz, None), s')" and len: "length (s_input s) < 2 ^ 63"
  shows "can_read 1 s \<and>
    (k = Byte \<and> sz = 0 \<and> hd (s_input s) < 0x80 \<and> s' = (consume 1 s)\<lparr>s_byteval := hd (s_input s)\<rparr> \<or>
     k \<noteq> Byte \<and> can_read (length (khead k (unat sz))) s \<and>
       take (length (khead k (unat sz))) (s_input s) = khead k (unat sz) \<and>
       s' = (consume (length (khead k (unat sz))) s)\<lparr>s_byteval := 0\<rparr>)"
proof -
  have r: "can_read 1 s"
    using assms readByte_fail [of s] by (cases "can_read 1 s") (auto simp: stream_readKind_def)
  then obtain b t where b: "s_input s = b # t" by (cases "s_input s") (auto simp: can_read_def)
  let ?s1 = "(consume 1 s)\<lparr>s_byteval := 0\<rparr>"
  have short: "ucast (word_of_nat n :: byte) = (word_of_nat n :: uint64)"
    "(ucast (word_of_nat n :: uint64) :: byte) = word_of_nat n"
    "unat (word_of_nat n :: uint64) = n" if "n < 56" for n
    using that by (simp_all add: word_unat_eq_iff unsigned_ucast_eq unat_of_nat take_bit_nat_eq_self)
  show ?thesis
  proof (cases b rule: tag_cases)
    case byte
    with assms r b show ?thesis by (auto simp: stream_readKind_def readByte_ok Let_def)
  next
    case (short_string n)
    with assms r b short show ?thesis
      by (auto simp: stream_readKind_def readByte_ok Let_def tag_simps khead_def rlp_head_def)
  next
    case (short_list n)
    with assms r b short show ?thesis
      by (auto simp: stream_readKind_def readByte_ok Let_def tag_simps khead_def rlp_head_def)
  next
    case (long_string m)
    with assms r b have "k = String" and "readUint (word_of_nat m) ?s1 = (Inr sz, s') \<and> \<not> sz < 56"
      by (auto simp: stream_readKind_def readByte_ok Let_def tag_simps
          split: sum.splits prod.splits if_splits)
    with readUint_tag_iff [of m ?s1 sz s'] long_string len
    have *: "can_read m ?s1" "56 \<le> unat sz" "take m (drop 1 (s_input s)) = be_min (unat sz)"
      "s' = consume m ?s1" by auto
    from *(1) have "length (take m (drop 1 (s_input s))) = m"
      by (simp add: can_read_def)
    with *(3) have "length (be_min (unat sz)) = m" by simp
    with * \<open>k = String\<close> r b long_string can_read_add [of 1 m s] show ?thesis
      by (auto simp: khead_def rlp_head_def)
  next
    case (long_list m)
    with assms r b have "k = List" and "readUint (word_of_nat m) ?s1 = (Inr sz, s') \<and> \<not> sz < 56"
      by (auto simp: stream_readKind_def readByte_ok Let_def tag_simps
          split: sum.splits prod.splits if_splits)
    with readUint_tag_iff [of m ?s1 sz s'] long_list len
    have *: "can_read m ?s1" "56 \<le> unat sz" "take m (drop 1 (s_input s)) = be_min (unat sz)"
      "s' = consume m ?s1" by auto
    from *(1) have "length (take m (drop 1 (s_input s))) = m"
      by (simp add: can_read_def)
    with *(3) have "length (be_min (unat sz)) = m" by simp
    with * \<open>k = List\<close> r b long_list can_read_add [of 1 m s] show ?thesis
      by (auto simp: khead_def rlp_head_def)
  qed
qed

text \<open>A stream whose type tag has been read.\<close>

definition loaded :: "rlp_kind \<Rightarrow> uint64 \<Rightarrow> stream \<Rightarrow> stream" where
  "loaded k sz s = s\<lparr>s_kind := Some k, s_size := sz, s_kinderr := None\<rparr>"

lemma loaded_simps [simp]:
  "s_byteval (loaded k sz s) = s_byteval s" "s_stack (loaded k sz s) = s_stack s"
  "s_input (loaded k sz s) = s_input s" "can_read n (loaded k sz s) = can_read n s"
  "core (consume n (loaded k sz s)) = core (consume n s)"
  "s_limited (loaded k sz s) = s_limited s"
  by (simp_all add: loaded_def)

lemma Kind_loaded [simp]: "stream_Kind (loaded k sz s) = (Inr (k, sz), loaded k sz s)"
  by (simp add: stream_Kind_def loaded_def)

lemma Kind_readKind:
  assumes "s_kind s = None" and "stream_readKind s = ((k, sz, None), s1)"
    and "case s_stack s of [] \<Rightarrow> True | l # _ \<Rightarrow> l \<noteq> 0 \<and> sz \<le> l"
    and "s_limited s1 \<longrightarrow> sz \<le> s_remaining s1"
  shows "stream_Kind s = (Inr (k, sz), loaded k sz s1)"
  using assms
  by (cases "s_stack s") (auto simp: stream_Kind_def listLimit_def loaded_def Let_def not_less)

lemma Kind_inverse:
  assumes "s_kind s = None" and "stream_Kind s = (Inr (k, sz), s2)"
  shows "\<exists>s1. stream_readKind s = ((k, sz, None), s1) \<and> s2 = loaded k sz s1"
proof -
  obtain k' sz' err s1 where r: "stream_readKind s = ((k', sz', err), s1)"
    by (metis prod_cases4 surj_pair)
  obtain inList limit where l: "listLimit s = (inList, limit)" by (cases "listLimit s")
  have "err = None \<and> k' = k \<and> sz' = sz \<and> s2 = loaded k sz s1"
    using assms(2)
    by (cases err) (auto simp: stream_Kind_def loaded_def assms(1) r l Let_def split: if_splits)
  with r show ?thesis by simp
qed

lemma Kind_idem: "s_kind s = None \<Longrightarrow> stream_Kind s = (Inr (k, sz), s2) \<Longrightarrow> stream_Kind s2 = (Inr (k, sz), s2)"
  using Kind_inverse [of s k sz s2] by auto

text \<open>The tag of a value that fits is accepted.\<close>

lemma Kind_khead:
  assumes "s_kind s = None" and len: "length (s_input s) < 2 ^ 63" and k: "k \<noteq> Byte"
    and inp: "s_input s = khead k n @ t"
    and r: "can_read (length (khead k n) + n) s"
  shows "stream_Kind s = (Inr (k, word_of_nat n), loaded k (word_of_nat n)
    ((consume (length (khead k n)) s)\<lparr>s_byteval := 0\<rparr>))"
proof -
  have n: "unat (word_of_nat n :: uint64) = n"
    using r len by (simp add: can_read_def unat_of_nat)
  have r1: "can_read (length (khead k n)) s" "can_read n (consume (length (khead k n)) s)"
    using r by (simp_all add: can_read_add)
  have rk: "stream_readKind s = ((k, word_of_nat n, None), (consume (length (khead k n)) s)\<lparr>s_byteval := 0\<rparr>)"
    using readKind_khead [of k "word_of_nat n" s] r1 k inp len n by simp
  have pos: "0 < length (khead k n)" by simp
  show ?thesis
  proof (rule Kind_readKind [OF assms(1) rk])
    show "case s_stack s of [] \<Rightarrow> True | l # _ \<Rightarrow> l \<noteq> 0 \<and> word_of_nat n \<le> l"
      using r n pos by (auto simp: can_read_def word_le_nat_alt split: list.splits)
    show "s_limited ((consume (length (khead k n)) s)\<lparr>s_byteval := 0\<rparr>) \<longrightarrow>
        word_of_nat n \<le> s_remaining ((consume (length (khead k n)) s)\<lparr>s_byteval := 0\<rparr>)"
      using r1(2) n by (auto simp: can_read_def word_le_nat_alt)
  qed
qed

lemma Kind_byte:
  assumes "s_kind s = None" and "s_input s = b # t" and "b < 0x80" and "can_read 1 s"
  shows "stream_Kind s = (Inr (Byte, 0), loaded Byte 0 ((consume 1 s)\<lparr>s_byteval := b\<rparr>))"
proof (rule Kind_readKind [OF assms(1)])
  show "stream_readKind s = ((Byte, 0, None), (consume 1 s)\<lparr>s_byteval := b\<rparr>)"
    using readKind_byte_tag [of s] assms by simp
  show "case s_stack s of [] \<Rightarrow> True | l # _ \<Rightarrow> l \<noteq> 0 \<and> 0 \<le> l"
    using assms(4) by (auto simp: can_read_def split: list.splits)
qed simp

subsection \<open>Strings\<close>

lemma core_kind [simp]: "core ((consume n s)\<lparr>s_kind := None\<rparr>) = core (consume n s)"
  by (simp add: core_def consume_def)

lemma core_loaded_kind: "core ((loaded k sz (consume n s))\<lparr>s_kind := None\<rparr>) = core (consume n s)"
  "core ((loaded k sz ((consume n s)\<lparr>s_byteval := b\<rparr>))\<lparr>s_kind := None\<rparr>) = core (consume n s)"
  by (simp_all add: core_def consume_def loaded_def)

lemma Bytes_ok:
  assumes "s_kind s = None" and len: "length (s_input s) < 2 ^ 63"
    and inp: "s_input s = rlp_string b @ t" and r: "can_read (length (rlp_string b)) s"
  shows "\<exists>s'. stream_Bytes s = (Inr b, s') \<and> core s' = core (consume (length (rlp_string b)) s)"
proof (cases "length b = 1 \<and> hd b < 0x80")
  case True
  then obtain x where "b = [x]" "x < 0x80" by (auto simp: length_Suc_conv)
  with assms Kind_byte [of s x t] show ?thesis
    by (auto simp: stream_Bytes_def rlp_string_def core_loaded_kind)
next
  case False
  let ?h = "khead String (length b)"
  have enc: "rlp_string b = ?h @ b" using False by (auto simp: rlp_string_def khead_def)
  have kind: "stream_Kind s = (Inr (String, word_of_nat (length b)),
      loaded String (word_of_nat (length b)) ((consume (length ?h) s)\<lparr>s_byteval := 0\<rparr>))"
    using assms Kind_khead [of s String "length b" "b @ t"] by (simp add: enc)
  have n: "unat (word_of_nat (length b) :: uint64) = length b"
    using len inp by (simp add: enc unat_of_nat)
  have r1: "can_read (length b) (consume (length ?h) s)"
    using r by (simp add: enc can_read_add)
  have one: "\<not> (word_of_nat (length b) = (1 :: uint64) \<and> b ! 0 < 128)"
    using False n by (auto simp: word_unat_eq_iff length_Suc_conv)
  show ?thesis
    using kind n r1 one inp
    by (auto simp: stream_Bytes_def readFull_ok enc)
qed

lemma Bytes_inverse:
  assumes "s_kind s = None" and len: "length (s_input s) < 2 ^ 63" and b: "stream_Bytes s = (Inr b, s')"
  shows "can_read (length (rlp_string b)) s \<and>
    take (length (rlp_string b)) (s_input s) = rlp_string b \<and>
    core s' = core (consume (length (rlp_string b)) s)"
proof -
  obtain k sz s2 where kind: "stream_Kind s = (Inr (k, sz), s2)"
    using b by (auto simp: stream_Bytes_def split: prod.splits sum.splits)
  then obtain s1 where rk: "stream_readKind s = ((k, sz, None), s1)" and s2: "s2 = loaded k sz s1"
    using Kind_inverse assms(1) by blast
  note inv = readKind_inverse [OF rk len]
  show ?thesis
  proof (cases k)
    case Byte
    then obtain x t where "s_input s = x # t" using inv by (cases "s_input s") (auto simp: can_read_def)
    with inv Byte b kind s2 show ?thesis
      by (auto simp: stream_Bytes_def rlp_string_def core_loaded_kind)
  next
    case String
    let ?h = "khead String (unat sz)"
    have h: "can_read (length ?h) s" "take (length ?h) (s_input s) = ?h"
      "s1 = (consume (length ?h) s)\<lparr>s_byteval := 0\<rparr>"
      using inv String by auto
    obtain s3 where rf: "readFull sz s2 = (Inr b, s3)" and "s' = s3" and one: "\<not> (sz = 1 \<and> b ! 0 < 128)"
      using b kind String by (auto simp: stream_Bytes_def split: prod.splits sum.splits if_splits)
    from rf have r2: "can_read (unat sz) (consume (length ?h) s)"
      and bs: "b = take (unat sz) (drop (length ?h) (s_input s))" and s3: "s3 = consume (unat sz) s2"
      unfolding readFull_iff s2 h(3) by auto
    have lb: "length b = unat sz" using r2 by (simp add: bs can_read_def)
    have "\<not> (length b = 1 \<and> hd b < 0x80)"
      using one lb by (cases b) (auto simp: word_unat_eq_iff)
    then have enc: "rlp_string b = ?h @ b" by (auto simp: rlp_string_def khead_def lb)
    have "take (length ?h + unat sz) (s_input s) = ?h @ b"
      using h(2) by (simp add: take_add bs)
    then show ?thesis
      using h(1) r2 lb \<open>s' = s3\<close> s3 s2 h(3)
      by (simp add: enc can_read_add)
  next
    case List
    with b kind show ?thesis by (simp add: stream_Bytes_def)
  qed
qed

subsection \<open>Lists\<close>

text \<open>Entering a list of \<open>sz\<close> bytes; leaving it is possible when all of them were read.\<close>

definition push_list :: "uint64 \<Rightarrow> stream \<Rightarrow> stream" where
  "push_list sz s =
     s\<lparr>s_stack := sz # (case s_stack s of [] \<Rightarrow> [] | l # ls \<Rightarrow> (l - sz) # ls), s_kind := None, s_size := 0\<rparr>"

lemma core_eqD:
  assumes "core s = core t"
  shows "s_kind s = s_kind t" "s_input s = s_input t" "s_stack s = s_stack t"
    "can_read n s = can_read n t" "core (consume n s) = core (consume n t)"
    "core (push_list sz s) = core (push_list sz t)"
  using assms
  by (cases s; cases t; auto simp: core_def can_read_def consume_def push_list_def split: list.splits)+

lemma core_tl_push:
  "core ((consume n (push_list (word_of_nat n) s))\<lparr>s_stack := tl (s_stack (consume n (push_list (word_of_nat n) s)))\<rparr>) =
   core (consume n s)"
  by (cases "s_stack s") (simp_all add: core_def consume_def push_list_def)

lemma List_loaded:
  "stream_List (loaded k sz s) =
     (if k \<noteq> List then (Inl ErrExpectedList, loaded k sz s) else (Inr sz, push_list sz (loaded k sz s)))"
  by (cases "s_stack s") (simp_all add: stream_List_def listLimit_def push_list_def Let_def)

lemma core_push_loaded: "core (push_list sz (loaded k n s)) = core (push_list sz s)"
  by (simp add: core_def push_list_def loaded_def)

lemma List_ok:
  assumes "s_kind s = None" and "length (s_input s) < 2 ^ 63"
    and "s_input s = khead List n @ t" and "can_read (length (khead List n) + n) s"
  shows "\<exists>s'. stream_List s = (Inr (word_of_nat n), s') \<and>
    core s' = core (push_list (word_of_nat n) (consume (length (khead List n)) s))"
proof -
  let ?s1 = "(consume (length (khead List n)) s)\<lparr>s_byteval := 0\<rparr>"
  have kind: "stream_Kind s = (Inr (List, word_of_nat n), loaded List (word_of_nat n) ?s1)"
    using Kind_khead [OF assms(1,2) _ assms(3,4)] by simp
  have "stream_List s = stream_List (loaded List (word_of_nat n) ?s1)"
    using kind by (simp add: stream_List_def)
  also have "\<dots> = (Inr (word_of_nat n), push_list (word_of_nat n) (loaded List (word_of_nat n) ?s1))"
    by (simp add: List_loaded)
  finally have "stream_List s = (Inr (word_of_nat n), push_list (word_of_nat n) (loaded List (word_of_nat n) ?s1))" .
  moreover have "core (push_list (word_of_nat n) (loaded List (word_of_nat n) ?s1)) =
    core (push_list (word_of_nat n) (consume (length (khead List n)) s))"
    unfolding core_push_loaded by (simp add: core_def push_list_def)
  ultimately show ?thesis by blast
qed

lemma List_inverse:
  assumes "s_kind s = None" and len: "length (s_input s) < 2 ^ 63" and l: "stream_List s = (Inr sz, s')"
  shows "can_read (length (khead List (unat sz))) s \<and>
    take (length (khead List (unat sz))) (s_input s) = khead List (unat sz) \<and>
    core s' = core (push_list sz (consume (length (khead List (unat sz))) s))"
proof -
  obtain k n s2 where kind: "stream_Kind s = (Inr (k, n), s2)"
    using l by (auto simp: stream_List_def split: prod.splits sum.splits)
  then obtain s1 where rk: "stream_readKind s = ((k, n, None), s1)" and s2: "s2 = loaded k n s1"
    using Kind_inverse assms(1) by blast
  have "stream_List s = stream_List s2"
    using kind s2 by (simp add: stream_List_def)
  then have k: "k = List" "n = sz" "s' = push_list sz s2"
    using l by (auto simp: s2 List_loaded split: if_splits)
  let ?h = "khead List (unat sz)"
  have h: "can_read (length ?h) s" "take (length ?h) (s_input s) = ?h"
    "s1 = (consume (length ?h) s)\<lparr>s_byteval := 0\<rparr>"
    using readKind_inverse [OF rk len] k by auto
  have "core s' = core (push_list sz (consume (length ?h) s))"
    unfolding k(3) s2 core_push_loaded h(3) by (simp add: core_def push_list_def)
  with h(1,2) show ?thesis by blast
qed

lemma ListEnd_iff:
  "stream_ListEnd s = (Inr u, s') \<longleftrightarrow>
   (\<exists>ls. s_stack s = 0 # ls) \<and> s' = s\<lparr>s_stack := tl (s_stack s), s_kind := None, s_size := 0\<rparr>"
  by (cases "s_stack s") (auto simp: stream_ListEnd_def listLimit_def Let_def word_gt_0)

end
