(* ===== verification/Rlp_Codec.thy ===== *)
theory Rlp_Codec
  imports Rlp_Decode
begin

section \<open>Package rlp: decoding inverts encoding\<close>

text \<open>
  The contract between the decoders of \<^verbatim>\<open>src/rlp/decode.go\<close>: what the decoder of a list relies on
  when it is given the decoder of its elements, and what it promises in turn. The contract is a
  locale; it is interpreted on the byte string decoder, on the list decoder of any contract, and
  on the generic decoder of interface values, whose recursion is bounded by the fuel.
\<close>

subsection \<open>The end of a list\<close>

lemma rlp_list_khead: "rlp_list b = khead List (length b) @ b"
  by (simp add: rlp_list_def khead_def)

lemma can_read_push: "can_read n s \<Longrightarrow> n \<le> unat sz \<Longrightarrow> can_read n (push_list sz s)"
  by (auto simp: can_read_def push_list_def split: list.splits)

lemma push_list_simps [simp]:
  "s_kind (push_list sz s) = None" "s_input (push_list sz s) = s_input s"
  "s_stack (push_list sz s) = sz # (case s_stack s of [] \<Rightarrow> [] | l # ls \<Rightarrow> (l - sz) # ls)"
  by (simp_all add: push_list_def)

lemma core_stack_cong: "core s = core t \<Longrightarrow> core (s\<lparr>s_stack := l\<rparr>) = core (t\<lparr>s_stack := l\<rparr>)"
  by (cases s; cases t) (simp add: core_def)

lemma unat_u63: "n < 2 ^ 63 \<Longrightarrow> unat (word_of_nat n :: uint64) = n"
  by (simp add: unat_of_nat)

lemma ListEnd_push:
  assumes "core s2 = core (consume n (push_list sz s))" and "sz = word_of_nat n"
  shows "\<exists>s'. stream_ListEnd s2 = (Inr (), s') \<and> core s' = core (consume n s)"
proof -
  have "s_stack s2 = 0 # tl (s_stack s2)"
    using assms(2) core_eqD(3) [OF assms(1)] by (simp add: push_list_def)
  moreover have "core (s2\<lparr>s_stack := tl (s_stack s2)\<rparr>) = core (consume n s)"
    using core_stack_cong [OF assms(1)] core_eqD(3) [OF assms(1)] core_tl_push [of n s] assms(2) by simp
  ultimately have "s_stack s2 = 0 # tl (s_stack s2)"
    "core (s2\<lparr>s_stack := tl (s_stack s2)\<rparr>) = core (consume n s)" by blast+
  moreover have "s2\<lparr>s_stack := l, s_kind := None\<rparr> = s2\<lparr>s_stack := l\<rparr>" for l
    using core_eqD(1) [OF assms(1)] by (cases s2) simp
  ultimately show ?thesis
    by (intro exI [of _ "s2\<lparr>s_stack := tl (s_stack s2), s_kind := None, s_size := 0\<rparr>"])
      (auto simp: ListEnd_iff)
qed

lemma ListEnd_not_EOL: "stream_ListEnd s \<noteq> (Inl EOL, s')"
  by (cases "s_stack s") (auto simp: stream_ListEnd_def listLimit_def Let_def)

lemma wrapStreamError_EOL: "wrapStreamError err = EOL \<longleftrightarrow> err = EOL"
  by (cases err) (simp_all add: wrapStreamError_def)

lemma slice_not_EOL: "decodeSliceElems fuel dec s \<noteq> Some (Inl EOL, s')"
  by (induction fuel arbitrary: s) (auto split: option.splits prod.splits sum.splits if_splits)

lemma willRead_not_EOL: "fst (willRead n s) \<noteq> Inl EOL"
  by (cases "s_stack s") (auto simp: willRead_def listLimit_def Let_def)

lemma readByte_not_EOL: "fst (readByte s) \<noteq> Inl EOL"
  using willRead_not_EOL [of 1 s] by (auto simp: readByte_def split: prod.splits sum.splits list.splits)

lemma readFull_not_EOL: "fst (readFull n s) \<noteq> Inl EOL"
  using willRead_not_EOL [of n s] by (auto simp: readFull_def split: prod.splits sum.splits)

lemma readUint_not_EOL: "fst (readUint n s) \<noteq> Inl EOL"
  using readByte_not_EOL [of s] readFull_not_EOL [of "ucast n" s]
  by (auto simp: readUint_def split: prod.splits sum.splits)

lemma readKind_not_EOL: "stream_readKind s \<noteq> ((k, sz, Some EOL), s')"
  using readByte_not_EOL [of s] readUint_not_EOL
  by (auto simp: stream_readKind_def Let_def split: prod.splits sum.splits if_splits) (metis fst_conv)+

lemma Kind_EOL: "s_kind s = None \<Longrightarrow> s_stack s = 0 # ls \<Longrightarrow> stream_Kind s = (Inl EOL, s)"
  by (simp add: stream_Kind_def listLimit_def)

lemma Kind_EOL_inverse:
  assumes "s_kind s = None" "stream_Kind s = (Inl EOL, s')"
  shows "s' = s \<and> (\<exists>ls. s_stack s = 0 # ls)"
proof -
  obtain inList limit where l: "listLimit s = (inList, limit)" by (cases "listLimit s")
  obtain k sz err s1 where r: "stream_readKind s = ((k, sz, err), s1)"
    by (metis prod.exhaust)
  with readKind_not_EOL have "err \<noteq> Some EOL" by blast
  then have "inList \<and> limit = 0 \<and> s' = s"
    using assms by (cases err) (auto simp: stream_Kind_def l r Let_def split: if_splits)
  with l show ?thesis by (cases "s_stack s") (auto simp: listLimit_def)
qed

subsection \<open>The contract of a decoder\<close>

text \<open>
  \<open>enc\<close> is the encoding a decoder accepts: the decoder consumes an encoding that fits, whatever it
  returns successfully was encoded at the front of the input, it reports \<open>EOL\<close> exactly at the end
  of the enclosing list, and it returns when the input is shorter than \<open>bound\<close>.
\<close>

locale stream_codec =
  fixes enc :: "'a \<Rightarrow> bytes" and dec :: "'a decoder" and bound :: nat
  assumes enc_nonempty: "enc x \<noteq> []"
    and dec_ok: "\<lbrakk>s_kind s = None; length (s_input s) < 2 ^ 63; s_input s = enc x @ t;
        can_read (length (enc x)) s; length (enc x) < bound\<rbrakk>
      \<Longrightarrow> \<exists>s'. dec s = Some (Inr x, s') \<and> core s' = core (consume (length (enc x)) s)"
    and dec_inverse: "\<lbrakk>s_kind s = None; length (s_input s) < 2 ^ 63; dec s = Some (Inr x, s')\<rbrakk>
      \<Longrightarrow> take (length (enc x)) (s_input s) = enc x \<and> core s' = core (consume (length (enc x)) s)"
    and dec_EOL: "\<lbrakk>s_kind s = None; s_stack s = 0 # ls; 0 < bound\<rbrakk> \<Longrightarrow> dec s = Some (Inl EOL, s)"
    and dec_EOL_inverse: "\<lbrakk>s_kind s = None; length (s_input s) < 2 ^ 63; dec s = Some (Inl EOL, s')\<rbrakk>
      \<Longrightarrow> s' = s \<and> (\<exists>ls. s_stack s = 0 # ls)"
    and dec_total: "\<lbrakk>s_kind s = None; length (s_input s) < 2 ^ 63; length (s_input s) < bound\<rbrakk>
      \<Longrightarrow> dec s \<noteq> None"
begin

abbreviation encs :: "'a list \<Rightarrow> bytes" where
  "encs xs \<equiv> concat (map enc xs)"

lemma slice_ok:
  assumes "s_kind s = None" "length (s_input s) < 2 ^ 63" "s_input s = encs xs @ t"
    "can_read (length (encs xs)) s" "s_stack s = word_of_nat (length (encs xs)) # ls"
    "length (encs xs) < bound" "length (encs xs) < fuel"
  shows "\<exists>s'. decodeSliceElems fuel dec s = Some (Inr xs, s') \<and> core s' = core (consume (length (encs xs)) s)"
  using assms
proof (induction xs arbitrary: s fuel)
  case Nil
  then obtain f where "fuel = Suc f" by (cases fuel) auto
  with Nil dec_EOL [of s ls] show ?case by (simp add: consume_0)
next
  case (Cons x xs)
  let ?n = "length (enc x)" and ?m = "length (encs xs)"
  obtain f where f: "fuel = Suc f" using Cons.prems(7) by (cases fuel) auto
  have n: "?n > 0" using enc_nonempty by simp
  have read: "can_read ?n s" "can_read ?m (consume ?n s)"
    using Cons.prems(4) by (simp_all add: can_read_add)
  then obtain s1 where s1: "dec s = Some (Inr x, s1)" "core s1 = core (consume ?n s)"
    using dec_ok [of s x "encs xs @ t"] Cons.prems(1-3,6) by auto
  note c = core_eqD [OF s1(2)]
  have "\<exists>s'. decodeSliceElems f dec s1 = Some (Inr xs, s') \<and> core s' = core (consume ?m s1)"
  proof (rule Cons.IH)
    show "s_kind s1 = None" "length (s_input s1) < 2 ^ 63" "s_input s1 = encs xs @ t"
      "can_read ?m s1" "s_stack s1 = word_of_nat ?m # ls" "?m < bound" "?m < f"
      using c Cons.prems read n f by (auto simp del: length_greater_0_conv)
  qed
  then obtain s' where s': "decodeSliceElems f dec s1 = Some (Inr xs, s')" "core s' = core (consume ?m s1)"
    by blast
  have "core s' = core (consume (length (encs (x # xs))) s)"
    using s'(2) c(5) by simp
  with s1 s'(1) f show ?case by simp
qed

lemma slice_inverse:
  assumes "s_kind s = None" "length (s_input s) < 2 ^ 63"
    "decodeSliceElems fuel dec s = Some (Inr xs, s')"
  shows "take (length (encs xs)) (s_input s) = encs xs \<and>
    core s' = core (consume (length (encs xs)) s) \<and> (\<exists>ls. s_stack s' = 0 # ls)"
  using assms
proof (induction fuel arbitrary: s xs)
  case (Suc fuel)
  show ?case
  proof (cases "dec s")
    case None
    with Suc.prems show ?thesis by simp
  next
    case (Some r)
    obtain res s1 where r: "r = (res, s1)" by (cases r)
    show ?thesis
    proof (cases res)
      case (Inl err)
      with Suc.prems Some r have "err = EOL" "xs = []" "s' = s1" by (auto split: if_splits)
      with dec_EOL_inverse Suc.prems(1,2) Some r Inl show ?thesis by (auto simp: consume_0)
    next
      case (Inr x)
      with Suc.prems(3) Some r obtain ys where
        ys: "decodeSliceElems fuel dec s1 = Some (Inr ys, s')" and xs: "xs = x # ys"
        by (auto split: option.splits prod.splits sum.splits)
      let ?n = "length (enc x)"
      have x: "take ?n (s_input s) = enc x" "core s1 = core (consume ?n s)"
        using dec_inverse Suc.prems(1,2) Some r Inr by auto
      note c = core_eqD [OF x(2)]
      have "take (length (encs ys)) (s_input s1) = encs ys \<and>
        core s' = core (consume (length (encs ys)) s1) \<and> (\<exists>ls. s_stack s' = 0 # ls)"
        using c Suc.prems(1,2) by (intro Suc.IH [OF _ _ ys]) auto
      with x c xs show ?thesis by (simp add: take_add)
    qed
  qed
qed simp

lemma slice_total:
  assumes "s_kind s = None" "length (s_input s) < 2 ^ 63"
    "length (s_input s) < bound" "length (s_input s) < fuel"
  shows "decodeSliceElems fuel dec s \<noteq> None"
  using assms
proof (induction fuel arbitrary: s)
  case (Suc fuel)
  from dec_total [of s] Suc.prems obtain res s1 where d: "dec s = Some (res, s1)" by auto
  show ?case
  proof (cases res)
    case (Inl err)
    with d show ?thesis by simp
  next
    case (Inr x)
    have x: "take (length (enc x)) (s_input s) = enc x" "core s1 = core (consume (length (enc x)) s)"
      using dec_inverse Suc.prems(1,2) d Inr by auto
    have "length (enc x) \<le> length (s_input s)" "0 < length (enc x)"
      using arg_cong [OF x(1), of length] enc_nonempty [of x] by simp_all
    then have "decodeSliceElems fuel dec s1 \<noteq> None"
      using Suc.prems core_eqD(1,2) [OF x(2)]
      by (intro Suc.IH) (auto simp del: length_greater_0_conv)
    with d Inr show ?thesis by (auto split: sum.splits)
  qed
qed simp

lemma list_ok:
  assumes s: "s_kind s = None" "length (s_input s) < 2 ^ 63" "s_input s = rlp_list (encs xs) @ t"
    "can_read (length (rlp_list (encs xs))) s" and n: "length (encs xs) < bound" "length (encs xs) < fuel"
  shows "\<exists>s'. decodeListSlice fuel dec s = Some (Inr xs, s') \<and>
    core s' = core (consume (length (rlp_list (encs xs))) s)"
proof -
  let ?n = "length (encs xs)"
  let ?h = "khead List ?n"
  have enc: "rlp_list (encs xs) = ?h @ encs xs" by (simp add: rlp_list_khead)
  have read: "can_read (length ?h + ?n) s" using s(4) by (simp add: enc)
  obtain s1 where s1: "stream_List s = (Inr (word_of_nat ?n), s1)"
    "core s1 = core (push_list (word_of_nat ?n) (consume (length ?h) s))"
    using List_ok [OF s(1,2) _ read] s(3) by (auto simp: enc)
  note c = core_eqD [OF s1(2)]
  have n64: "unat (word_of_nat ?n :: uint64) = ?n"
    using s(2,3) by (intro unat_u63) (simp add: enc)
  have "\<exists>s2. decodeSliceElems fuel dec s1 = Some (Inr xs, s2) \<and> core s2 = core (consume ?n s1)"
    using c s n read n64 by (intro slice_ok [where t = t]) (auto simp: enc can_read_add can_read_push)
  then obtain s2 where s2: "decodeSliceElems fuel dec s1 = Some (Inr xs, s2)" "core s2 = core (consume ?n s1)"
    by blast
  have cs2: "core s2 = core (consume ?n (push_list (word_of_nat ?n) (consume (length ?h) s)))"
    using s2(2) c(5) by simp
  have stk: "\<exists>ls. s_stack s2 = 0 # ls" using core_eqD(3) [OF cs2] by (simp add: push_list_def)
  have end2: "\<exists>s'. stream_ListEnd s2 = (Inr (), s') \<and> core s' = core (consume (length (rlp_list (encs xs))) s)"
    using ListEnd_push [OF cs2 refl] by (simp add: enc)
  show ?thesis
  proof (cases "?n = 0")
    case True
    then have "xs = []" using enc_nonempty by (cases xs) auto
    have "\<exists>s'. stream_ListEnd s1 = (Inr (), s') \<and> core s' = core (consume 0 (consume (length ?h) s))"
      using s1(2) \<open>xs = []\<close> by (intro ListEnd_push [of s1 0 0]) (simp_all add: consume_0)
    with s1 True \<open>xs = []\<close> show ?thesis by (auto simp: decodeListSlice_def rlp_list_khead)
  next
    case False
    then have "word_of_nat ?n \<noteq> (0 :: uint64)" using n64 by (metis unat_0)
    with s1 s2 end2 show ?thesis by (auto simp: decodeListSlice_def)
  qed
qed

lemma list_inverse:
  assumes s: "s_kind s = None" "length (s_input s) < 2 ^ 63"
    and d: "decodeListSlice fuel dec s = Some (Inr xs, s')"
  shows "take (length (rlp_list (encs xs))) (s_input s) = rlp_list (encs xs) \<and>
    core s' = core (consume (length (rlp_list (encs xs))) s)"
proof -
  obtain sz s1 where l: "stream_List s = (Inr sz, s1)"
    using d by (auto simp: decodeListSlice_def split: prod.splits sum.splits)
  let ?h = "khead List (unat sz)" and ?n = "length (encs xs)"
  from List_inverse [OF s l] have h: "can_read (length ?h) s" "take (length ?h) (s_input s) = ?h"
    and s1: "core s1 = core (push_list sz (consume (length ?h) s))" by auto
  note c = core_eqD [OF s1]
  have "\<exists>s2. take ?n (s_input s1) = encs xs \<and> core s2 = core (consume ?n s1) \<and>
    (\<exists>ls. s_stack s2 = 0 # ls) \<and> stream_ListEnd s2 = (Inr (), s')"
  proof (cases "sz = 0")
    case True
    with d l have "xs = []" "stream_ListEnd s1 = (Inr (), s')"
      by (auto simp: decodeListSlice_def split: prod.splits sum.splits)
    then show ?thesis using c(1,3) True by (intro exI [of _ s1]) (auto simp: consume_0 push_list_def)
  next
    case False
    with d l obtain s2 where "decodeSliceElems fuel dec s1 = Some (Inr xs, s2)" "stream_ListEnd s2 = (Inr (), s')"
      by (auto simp: decodeListSlice_def split: prod.splits sum.splits option.splits)
    moreover have "s_kind s1 = None" "length (s_input s1) < 2 ^ 63"
      using c(1,2) s by (auto simp: push_list_def)
    ultimately show ?thesis using slice_inverse [of s1 fuel xs s2] by auto
  qed
  then obtain s2 where s2: "take ?n (s_input s1) = encs xs" "core s2 = core (consume ?n s1)"
    "stream_ListEnd s2 = (Inr (), s')" and stk: "\<exists>ls. s_stack s2 = 0 # ls" by blast
  have cs2: "core s2 = core (consume ?n (push_list sz (consume (length ?h) s)))"
    using s2(2) c(5) by simp
  have sz: "sz = word_of_nat ?n" using stk core_eqD(3) [OF cs2] by (auto simp: push_list_def)
  have tk: "take ?n (drop (length ?h) (s_input s)) = encs xs" using s2(1) c(2) by (simp add: push_list_def)
  have "?n \<le> length (s_input s)" using arg_cong [OF tk, of length] by simp
  then have "unat sz = ?n" using s(2) unat_u63 [of ?n] by (simp add: sz)
  then have enc: "rlp_list (encs xs) = ?h @ encs xs" by (simp add: rlp_list_khead)
  show ?thesis
    using ListEnd_push [OF cs2 sz] s2(3) h(2) tk by (simp add: enc take_add)
qed

lemma list_EOL: "s_kind s = None \<Longrightarrow> s_stack s = 0 # ls \<Longrightarrow> decodeListSlice fuel dec s = Some (Inl EOL, s)"
  by (simp add: decodeListSlice_def stream_List_def Kind_EOL wrapStreamError_def)

lemma list_EOL_inverse:
  assumes "s_kind s = None" "decodeListSlice fuel dec s = Some (Inl EOL, s')"
  shows "s' = s \<and> (\<exists>ls. s_stack s = 0 # ls)"
proof -
  have "stream_List s = (Inl EOL, s')"
    using assms(2) slice_not_EOL [of fuel dec] ListEnd_not_EOL
    by (auto simp: decodeListSlice_def wrapStreamError_EOL split: prod.splits sum.splits option.splits if_splits)
  then have "stream_Kind s = (Inl EOL, s')"
    by (auto simp: stream_List_def Let_def split: prod.splits sum.splits if_splits)
  with assms(1) show ?thesis by (rule Kind_EOL_inverse)
qed

lemma list_total:
  assumes "s_kind s = None" "length (s_input s) < 2 ^ 63"
    "length (s_input s) \<le> bound" "length (s_input s) \<le> fuel"
  shows "decodeListSlice fuel dec s \<noteq> None"
proof -
  have "decodeSliceElems fuel dec s1 \<noteq> None" if l: "stream_List s = (Inr sz, s1)" for sz s1
  proof -
    from List_inverse [OF assms(1,2) l]
    have h: "can_read (length (khead List (unat sz))) s"
      and s1: "core s1 = core (push_list sz (consume (length (khead List (unat sz))) s))" by auto
    have "length (s_input s) - length (khead List (unat sz)) < length (s_input s)"
      using h length_khead_pos [of List "unat sz"] by (intro diff_less) (auto simp: can_read_def)
    with core_eqD(1,2) [OF s1] assms show ?thesis by (intro slice_total) auto
  qed
  then show ?thesis
    by (auto simp: decodeListSlice_def split: prod.splits sum.splits option.splits)
qed

lemma DecodeBytes_iff:
  assumes b: "length b < 2 ^ 63" "length b < bound"
  shows "DecodeBytes b dec = Some (Inr x) \<longleftrightarrow> b = enc x"
proof
  let ?s = "stream_Reset b (word_of_nat (length b))"
  have s: "s_kind ?s = None" "s_input ?s = b" "length (s_input ?s) < 2 ^ 63"
    using b by (simp_all add: stream_Reset_def)
  show "b = enc x" if "DecodeBytes b dec = Some (Inr x)"
  proof -
    from that obtain s' where d: "dec ?s = Some (Inr x, s')" and e: "s_input s' = []"
      by (auto simp: DecodeBytes_def split: option.splits prod.splits sum.splits if_splits)
    from dec_inverse [OF s(1,3) d] have x: "take (length (enc x)) b = enc x"
      and c: "core s' = core (consume (length (enc x)) ?s)" by (auto simp: s)
    have "drop (length (enc x)) b = []" using core_eqD(2) [OF c] e by (simp add: s)
    with x show ?thesis by simp
  qed
  show "DecodeBytes b dec = Some (Inr x)" if e: "b = enc x"
  proof -
    have "can_read (length (enc x)) ?s"
      using unat_u63 [OF b(1)] e by (auto simp: can_read_def stream_Reset_def)
    with dec_ok [OF s(1,3), of x "[]"] e b s obtain s' where
      "dec ?s = Some (Inr x, s')" and c: "core s' = core (consume (length (enc x)) ?s)" by auto
    with core_eqD(2) [OF c] s e show ?thesis by (simp add: DecodeBytes_def)
  qed
qed

lemma DecodeBytes_total:
  assumes "length b < 2 ^ 63" "length b < bound"
  shows "DecodeBytes b dec \<noteq> None"
  using dec_total [of "stream_Reset b (word_of_nat (length b))"] assms
  by (auto simp: DecodeBytes_def stream_Reset_def split: option.splits sum.splits prod.splits)

lemma list_codec: "stream_codec (\<lambda>xs. rlp_list (encs xs)) (decodeListSlice bound dec) bound"
proof
  fix s s' :: stream and xs t and ls
  show "rlp_list (encs xs) \<noteq> []" by (simp add: rlp_list_khead)
  assume k: "s_kind s = None"
  show "s_stack s = 0 # ls \<Longrightarrow> decodeListSlice bound dec s = Some (Inl EOL, s)"
    using k by (rule list_EOL)
  assume len: "length (s_input s) < 2 ^ 63"
  show "decodeListSlice bound dec s = Some (Inl EOL, s') \<Longrightarrow> s' = s \<and> (\<exists>ls. s_stack s = 0 # ls)"
    using k by (rule list_EOL_inverse)
  show "length (s_input s) < bound \<Longrightarrow> decodeListSlice bound dec s \<noteq> None"
    using k len by (intro list_total) auto
  show "decodeListSlice bound dec s = Some (Inr xs, s') \<Longrightarrow>
      take (length (rlp_list (encs xs))) (s_input s) = rlp_list (encs xs) \<and>
      core s' = core (consume (length (rlp_list (encs xs))) s)"
    using k len by (rule list_inverse)
  show "\<exists>s'. decodeListSlice bound dec s = Some (Inr xs, s') \<and>
      core s' = core (consume (length (rlp_list (encs xs))) s)"
    if "s_input s = rlp_list (encs xs) @ t" "can_read (length (rlp_list (encs xs))) s"
      "length (rlp_list (encs xs)) < bound"
    using that k len by (intro list_ok) (auto simp: rlp_list_khead)
qed

end

subsection \<open>The codecs of the package\<close>

lemma map_sum_eq_Inl: "map_sum f g r = Inl e \<longleftrightarrow> (\<exists>d. r = Inl d \<and> e = f d)"
  by (cases r) auto

lemma map_sum_eq_Inr: "map_sum f g r = Inr y \<longleftrightarrow> (\<exists>x. r = Inr x \<and> y = g x)"
  by (cases r) auto

lemma Kind_twice:
  assumes "s_kind s = None" "stream_Kind s = (Inr (k, sz), s2)"
  shows "stream_List s2 = stream_List s" "stream_Bytes s2 = stream_Bytes s"
  using Kind_idem [OF assms] assms(2) by (simp_all add: stream_List_def stream_Bytes_def)

lemma Bytes_EOL_inverse:
  assumes "s_kind s = None" "stream_Bytes s = (Inl EOL, s')"
  shows "s' = s \<and> (\<exists>ls. s_stack s = 0 # ls)"
proof -
  have "stream_Kind s = (Inl EOL, s')"
    using assms(2) readFull_not_EOL
    by (auto simp: stream_Bytes_def split: prod.splits sum.splits if_splits rlp_kind.splits) (metis fst_conv)
  with assms(1) show ?thesis by (rule Kind_EOL_inverse)
qed

lemma rlp_string_nonempty: "rlp_string b \<noteq> []"
  by (auto simp: rlp_string_def rlp_head_def)

interpretation string_codec: stream_codec rlp_string "\<lambda>s. Some (stream_Bytes s)" bound for bound
proof
  fix s s' :: stream and x t and ls
  assume k: "s_kind s = None"
  show "s_stack s = 0 # ls \<Longrightarrow> Some (stream_Bytes s) = Some (Inl EOL, s)"
    by (simp add: stream_Bytes_def Kind_EOL k)
  assume len: "length (s_input s) < 2 ^ 63"
  show "s' = s \<and> (\<exists>ls. s_stack s = 0 # ls)" if "Some (stream_Bytes s) = Some (Inl EOL, s')"
    using Bytes_EOL_inverse [OF k] that by blast
  show "\<exists>s'. Some (stream_Bytes s) = Some (Inr x, s') \<and> core s' = core (consume (length (rlp_string x)) s)"
    if "s_input s = rlp_string x @ t" "can_read (length (rlp_string x)) s"
    using Bytes_ok [OF k len that] by blast
  show "take (length (rlp_string x)) (s_input s) = rlp_string x \<and>
      core s' = core (consume (length (rlp_string x)) s)" if "Some (stream_Bytes s) = Some (Inr x, s')"
    using Bytes_inverse [OF k len] that by blast
qed (simp_all add: rlp_string_nonempty)

text \<open>The encoding of the values an interface decodes to, and those values as Go values.\<close>

fun enc_item :: "item \<Rightarrow> bytes" where
  "enc_item (Str b) = rlp_string b"
| "enc_item (Items xs) = rlp_list (concat (map enc_item xs))"

fun item_goval :: "item \<Rightarrow> goval" where
  "item_goval (Str b) = VBytes b"
| "item_goval (Items xs) = VSlice False (map item_goval xs)"

lemma decodeInterface_cases:
  assumes "s_kind s = None"
  obtains e s2 where "stream_Kind s = (Inl e, s2)" "decodeInterface (Suc fuel) s = Some (Inl e, s2)"
  | sz s2 where "stream_Kind s = (Inr (List, sz), s2)" "decodeInterface (Suc fuel) s =
      map_option (\<lambda>(r, s). (map_sum id Items r, s)) (decodeListSlice fuel (decodeInterface fuel) s)"
  | k sz s2 where "stream_Kind s = (Inr (k, sz), s2)" "k \<noteq> List"
    "decodeInterface (Suc fuel) s = Some (map_prod (map_sum id Str) id (stream_Bytes s))"
proof -
  obtain r s2 where "stream_Kind s = (r, s2)" by (cases "stream_Kind s")
  then consider e where "stream_Kind s = (Inl e, s2)"
    | sz where "stream_Kind s = (Inr (List, sz), s2)"
    | k sz where "stream_Kind s = (Inr (k, sz), s2)" "k \<noteq> List"
    by (cases r) auto
  then show ?thesis
  proof cases
    case 1
    with that(1) show ?thesis by simp
  next
    case 2
    with that(2) Kind_twice(1) [OF assms 2] show ?thesis by (simp add: decodeListSlice_def)
  next
    case 3
    with that(3) Kind_twice(2) [OF assms 3(1)] show ?thesis
      by (cases "stream_Bytes s") (auto split: sum.splits)
  qed
qed

lemma Kind_rlp_string:
  assumes "s_kind s = None" "length (s_input s) < 2 ^ 63" "s_input s = rlp_string b @ t"
    "can_read (length (rlp_string b)) s"
  shows "\<exists>k sz s2. stream_Kind s = (Inr (k, sz), s2) \<and> k \<noteq> List"
proof -
  obtain s' where "stream_Bytes s = (Inr b, s')" using Bytes_ok [OF assms] by blast
  then show ?thesis by (auto simp: stream_Bytes_def split: prod.splits sum.splits rlp_kind.splits)
qed

lemma Kind_List:
  assumes "s_kind s = None" "stream_List s = (Inr n, s')"
  shows "\<exists>s2. stream_Kind s = (Inr (List, n), s2)"
  using assms by (auto simp: stream_List_def Let_def split: prod.splits sum.splits if_splits)

lemma interface_codec_Suc:
  assumes "stream_codec enc_item (decodeInterface fuel) fuel"
  shows "stream_codec enc_item (decodeInterface (Suc fuel)) (Suc fuel)"
proof
  note list = stream_codec.list_ok [OF assms] stream_codec.list_inverse [OF assms]
    stream_codec.list_EOL_inverse [OF assms] stream_codec.list_total [OF assms]
  show "enc_item x \<noteq> []" for x
    by (cases x) (simp_all add: rlp_string_nonempty rlp_list_khead)
  fix s s' :: stream and x t and ls
  assume k: "s_kind s = None"
  show "decodeInterface (Suc fuel) s = Some (Inl EOL, s)" if "s_stack s = 0 # ls"
    using that by (simp add: Kind_EOL k)
  assume len: "length (s_input s) < 2 ^ 63"
  show "s' = s \<and> (\<exists>ls. s_stack s = 0 # ls)" if "decodeInterface (Suc fuel) s = Some (Inl EOL, s')"
    using that Kind_EOL_inverse [OF k, of s'] Bytes_EOL_inverse [OF k, of s'] list(3) [OF k, of fuel s']
    by (cases rule: decodeInterface_cases [OF k, of fuel])
      (auto simp: map_prod_def map_sum_eq_Inl simp del: decodeInterface.simps split: prod.splits)
  show "decodeInterface (Suc fuel) s \<noteq> None" if "length (s_input s) < Suc fuel"
    using list(4) [OF k len, of fuel] that
    by (cases rule: decodeInterface_cases [OF k, of fuel]) (auto simp del: decodeInterface.simps)
  show "take (length (enc_item x)) (s_input s) = enc_item x \<and>
      core s' = core (consume (length (enc_item x)) s)"
    if "decodeInterface (Suc fuel) s = Some (Inr x, s')"
    using that list(2) [OF k len] Bytes_inverse [OF k len]
    by (cases rule: decodeInterface_cases [OF k, of fuel])
      (auto simp: map_prod_def map_sum_eq_Inr simp del: decodeInterface.simps split: prod.splits)
  show "\<exists>s'. decodeInterface (Suc fuel) s = Some (Inr x, s') \<and>
      core s' = core (consume (length (enc_item x)) s)"
    if x: "s_input s = enc_item x @ t" "can_read (length (enc_item x)) s" "length (enc_item x) < Suc fuel"
  proof (cases x)
    case (Str b)
    with x Kind_rlp_string [OF k len, of b t] Bytes_ok [OF k len, of b t] show ?thesis
      by (cases rule: decodeInterface_cases [OF k, of fuel]) (auto simp del: decodeInterface.simps)
  next
    case (Items xs)
    have "length (concat (map enc_item xs)) < fuel"
      using x(3) Items length_khead_pos [of List "length (concat (map enc_item xs))"]
      by (simp add: rlp_list_khead del: length_khead_pos length_greater_0_conv)
    with Items x list(1) [OF k len, of xs t fuel] obtain s' where
      d: "decodeListSlice fuel (decodeInterface fuel) s = Some (Inr xs, s')"
      and c: "core s' = core (consume (length (enc_item x)) s)" by auto
    from d obtain n s1 where "stream_List s = (Inr n, s1)"
      by (auto simp: decodeListSlice_def split: prod.splits sum.splits)
    with Kind_List [OF k] obtain s2 where "stream_Kind s = (Inr (List, n), s2)" by blast
    with d c Items show ?thesis
      by (cases rule: decodeInterface_cases [OF k, of fuel]) (auto simp del: decodeInterface.simps)
  qed
qed

lemma interface_codec: "stream_codec enc_item (decodeInterface fuel) fuel"
proof (induction fuel)
  case 0
  show ?case
  proof
    show "enc_item x \<noteq> []" for x
      by (cases x) (simp_all add: rlp_string_nonempty rlp_list_khead)
  qed simp_all
qed (rule interface_codec_Suc)

interpretation item_codec: stream_codec enc_item "decodeInterface fuel" fuel for fuel
  by (rule interface_codec)

interpretation strings_codec:
  stream_codec "\<lambda>xs. rlp_list (concat (map rlp_string xs))"
    "decodeListSlice bound (\<lambda>s. Some (stream_Bytes s))" bound for bound
  by (rule string_codec.list_codec)

lemma item_encoding: "rlp_spec (item_goval x) = enc_item x \<and> \<not> rlp_negative (item_goval x)"
proof (induction x)
  case (Items xs)
  then have "rlp_spec_elems (map item_goval xs) = concat (map enc_item xs) \<and>
    \<not> rlp_negative_elems (map item_goval xs)"
    by (induction xs) auto
  then show ?case by simp
qed simp

subsection \<open>Properties\<close>

text \<open>C17: Decoding into an interface value inverts the encoder: with fuel for the input, \<^verbatim>\<open>DecodeBytes\<close> returns, and
  it returns the value \<open>x\<close> exactly on the bytes \<^verbatim>\<open>EncodeToBytes\<close> writes for \<open>x\<close>. So it accepts no input with
  trailing bytes, with an element that overruns its list, or in a form that is not canonical.\<close>

theorem DecodeBytes_EncodeToBytes:
  assumes "length b < 2 ^ 63" and "length b < fuel" and "length (rlp_spec (item_goval x)) < 2 ^ 63"
  shows "DecodeBytes b (decodeInterface fuel) \<noteq> None \<and>
    (DecodeBytes b (decodeInterface fuel) = Some (Inr x) \<longleftrightarrow> EncodeToBytes (item_goval x) = Inr b)"
  using item_codec.DecodeBytes_iff [OF assms(1,2)] item_codec.DecodeBytes_total [OF assms(1,2)]
    EncodeToBytes_spec [OF assms(3)] item_encoding [of x] by auto

theorem DecodeBytes_EncodeToBytes_witness:
  "DecodeBytes [0xC4, 0x81, 200, 0xC1, 5] (decodeInterface 6) = Some (Inr (Items [Str [200], Items [Str [5]]]))"
proof -
  have "length (rlp_spec (item_goval (Items [Str [200], Items [Str [5]]]))) < 2 ^ 63"
    "EncodeToBytes (item_goval (Items [Str [200], Items [Str [5]]])) = Inr [0xC4, 0x81, 200, 0xC1, 5]"
    using EncodeToBytes_spec [of "item_goval (Items [Str [200], Items [Str [5]]])"]
    by (simp_all add: rlp_eval rlp_list_def)
  then show ?thesis
    using DecodeBytes_EncodeToBytes [of "[0xC4, 0x81, 200, 0xC1, 5]" 6 "Items [Str [200], Items [Str [5]]]"]
    by simp
qed

text \<open>C28: The size of a nested list is compared with the limit of the enclosing list as it was before the tag was
  read: a list whose payload alone fills the enclosing list is opened although it does not fit, and the
  count of bytes left in the enclosing list wraps around to \<open>2 ^ 64 - 1\<close>.\<close>

theorem List_overrun:
  assumes s: "s_kind s = None" "s_stack s = word_of_nat n # ls" and n: "0 < n" "n < 56"
    and inp: "s_input s = (0xC0 + word_of_nat n) # t" "length t < 2 ^ 62"
    and lim: "s_limited s \<Longrightarrow> n < unat (s_remaining s)"
  shows "\<exists>s'. stream_List s = (Inr (word_of_nat n), s') \<and> s_stack s' = word_of_nat n # (- 1) # ls"
proof -
  let ?n = "word_of_nat n :: uint64"
  have un: "unat ?n = n" using n by (intro unat_u63) simp
  have h: "khead List (unat ?n) = [0xC0 + word_of_nat n]" using n un by (simp add: khead_def rlp_head_def)
  have "can_read (length (khead List (unat ?n))) s"
    unfolding h using n inp lim un by (auto simp: can_read_def s)
  then have "stream_readKind s = ((List, ?n, None), (consume 1 s)\<lparr>s_byteval := 0\<rparr>)"
    using readKind_khead [of List ?n s] inp h by simp
  moreover have "?n \<noteq> 0" using un n by (metis less_irrefl unat_0)
  moreover have "?n \<le> s_remaining s - 1" if "s_limited s"
    using lim [OF that] un by (simp add: word_le_nat_alt unat_minus_of_nat [of 1, simplified])
  ultimately have "stream_Kind s = (Inr (List, ?n), loaded List ?n ((consume 1 s)\<lparr>s_byteval := 0\<rparr>))"
    using s by (intro Kind_readKind) (auto simp: consume_def)
  then have "stream_List s = stream_List (loaded List ?n ((consume 1 s)\<lparr>s_byteval := 0\<rparr>))"
    by (simp add: stream_List_def)
  then show ?thesis by (simp add: List_loaded s)
qed

theorem List_overrun_witness:
  "stream_List (stream_Reset [0xC1, 0xC1, 1] 3) =
     (Inr 1, (stream_Reset [0xC1, 1] 2)\<lparr>s_stack := [1]\<rparr>) \<and>
   (\<exists>s'. stream_List ((stream_Reset [0xC1, 1] 2)\<lparr>s_stack := [1]\<rparr>) = (Inr 1, s') \<and> s_stack s' = [1, - 1])"
proof
  show "stream_List (stream_Reset [0xC1, 0xC1, 1] 3) = (Inr 1, (stream_Reset [0xC1, 1] 2)\<lparr>s_stack := [1]\<rparr>)"
    by (simp add: stream_List_def stream_Kind_def stream_readKind_def readByte_def willRead_def listLimit_def
        stream_Reset_def Let_def)
  show "\<exists>s'. stream_List ((stream_Reset [0xC1, 1] 2)\<lparr>s_stack := [1]\<rparr>) = (Inr 1, s') \<and> s_stack s' = [1, - 1]"
    using List_overrun [of "(stream_Reset [0xC1, 1] 2)\<lparr>s_stack := [1]\<rparr>" 1 "[]" "[1]"]
    by (simp add: stream_Reset_def)
qed

end
