(* ===== verification/Trie_Encoding.thy ===== *)
theory Trie_Encoding
  imports Go_Prelude
begin

section \<open>Package trie: key encodings\<close>

text \<open>
  \<^verbatim>\<open>src/trie/encoding.go\<close>: the three encodings of a key (key bytes, hex nibbles with an optional
  terminator, compact) and the common prefix of two keys. The loops keep the indices of the code;
  \<open>None\<close> is the run-time panic of an index out of range. The lemmas give the recursive form of each
  loop, \<open>pack\<close> and \<open>nibbles\<close>, and the round trips between the encodings.
\<close>

unbundle bit_operations_syntax

definition hasTerm :: "bytes \<Rightarrow> bool" where
  "hasTerm s \<longleftrightarrow> length s > 0 \<and> s ! (length s - 1) = 16"

function decodeNibbles_loop :: "bytes \<Rightarrow> bytes \<Rightarrow> nat \<Rightarrow> nat \<Rightarrow> bytes option" where
  "decodeNibbles_loop nibbles bs bi ni =
     (if ni < length nibbles then
        (if ni + 1 < length nibbles \<and> bi < length bs then
           decodeNibbles_loop nibbles (bs[bi := push_bit 4 (nibbles ! ni) OR nibbles ! (ni + 1)]) (bi + 1) (ni + 2)
         else None)
      else Some bs)"
  by pat_completeness auto
termination by (relation "measure (\<lambda>(nibbles, bs, bi, ni). length nibbles - ni)") auto

declare decodeNibbles_loop.simps [simp del]

definition decodeNibbles :: "bytes \<Rightarrow> bytes \<Rightarrow> bytes option" where
  "decodeNibbles nibbles bs = decodeNibbles_loop nibbles bs 0 0"

definition hexToCompact :: "bytes \<Rightarrow> bytes option" where
  "hexToCompact hex =
     (let (terminator, hex) = (if hasTerm hex then (1, take (length hex - 1) hex) else (0, hex));
          buf = replicate (length hex div 2 + 1) 0;
          buf = buf[0 := push_bit 5 terminator];
          (buf, hex) = (if length hex mod 2 = 1
                        then (buf[0 := (buf ! 0 OR push_bit 4 1) OR hex ! 0], drop 1 hex)
                        else (buf, hex))
      in map_option (\<lambda>bs. take 1 buf @ bs) (decodeNibbles hex (drop 1 buf)))"

function compactInPlace_loop :: "bytes \<Rightarrow> nat \<Rightarrow> nat \<Rightarrow> nat \<Rightarrow> bytes option" where
  "compactInPlace_loop hex hexLen bi ni =
     (if ni < hexLen then
        (if ni + 1 < length hex \<and> bi < length hex then
           compactInPlace_loop (hex[bi := push_bit 4 (hex ! ni) OR hex ! (ni + 1)]) hexLen (bi + 1) (ni + 2)
         else None)
      else Some hex)"
  by pat_completeness auto
termination by (relation "measure (\<lambda>(hex, hexLen, bi, ni). hexLen - ni)") auto

declare compactInPlace_loop.simps [simp del]

definition hexToCompactInPlace :: "bytes \<Rightarrow> (nat \<times> bytes) option" where
  "hexToCompactInPlace hex =
     (let hexLen = length hex;
          (firstByte, hexLen) =
            (if hexLen > 0 \<and> hex ! (hexLen - 1) = 16 then (push_bit 5 1, hexLen - 1) else (0, hexLen));
          binLen = hexLen div 2 + 1;
          (firstByte, ni) = (if hexLen mod 2 = 1 then ((firstByte OR push_bit 4 1) OR hex ! 0, 1) else (firstByte, 0))
      in case compactInPlace_loop hex hexLen 1 ni of
           None \<Rightarrow> None
         | Some hex \<Rightarrow> if hex = [] then None else Some (binLen, hex[0 := firstByte]))"

fun keybytesToHex_loop :: "nat \<Rightarrow> bytes \<Rightarrow> bytes \<Rightarrow> bytes" where
  "keybytesToHex_loop i [] nibs = nibs"
| "keybytesToHex_loop i (b # str) nibs =
     keybytesToHex_loop (i + 1) str (nibs[i * 2 := b div 16, i * 2 + 1 := b mod 16])"

definition keybytesToHex :: "bytes \<Rightarrow> bytes" where
  "keybytesToHex str =
     (let l = length str * 2 + 1; nibs = keybytesToHex_loop 0 str (replicate l 0) in nibs[l - 1 := 16])"

definition compactToHex :: "bytes \<Rightarrow> bytes" where
  "compactToHex compact =
     (if length compact = 0 then compact
      else
        (let base = keybytesToHex compact;
             base = (if base ! 0 < 2 then take (length base - 1) base else base);
             chop = 2 - (base ! 0 AND 1)
         in drop (unat chop) base))"

definition hexToKeybytes :: "bytes \<Rightarrow> bytes option" where
  "hexToKeybytes hex =
     (let hex = (if hasTerm hex then take (length hex - 1) hex else hex) in
      if length hex mod 2 \<noteq> 0 then None
      else decodeNibbles hex (replicate (length hex div 2) 0))"

function prefixLen_loop :: "bytes \<Rightarrow> bytes \<Rightarrow> nat \<Rightarrow> nat \<Rightarrow> nat" where
  "prefixLen_loop a b len i =
     (if i < len then (if a ! i \<noteq> b ! i then i else prefixLen_loop a b len (i + 1)) else i)"
  by pat_completeness auto
termination by (relation "measure (\<lambda>(a, b, len, i). len - i)") auto

declare prefixLen_loop.simps [simp del]

definition prefixLen :: "bytes \<Rightarrow> bytes \<Rightarrow> nat" where
  "prefixLen a b = (let len = (if length b < length a then length b else length a) in prefixLen_loop a b len 0)"

subsection \<open>The loops as recursion\<close>

fun pack :: "bytes \<Rightarrow> bytes" where
  "pack (a # b # r) = (push_bit 4 a OR b) # pack r"
| "pack _ = []"

definition nibbles :: "bytes \<Rightarrow> bytes" where
  "nibbles s = concat (map (\<lambda>b. [b div 16, b mod 16]) s)"

lemma hasTerm_snoc: "hasTerm h \<longleftrightarrow> (\<exists>p. h = p @ [16])"
  by (cases h rule: rev_cases) (auto simp: hasTerm_def)

lemma nibbles_simps [simp]: "nibbles [] = []" "nibbles (b # s) = b div 16 # b mod 16 # nibbles s"
  by (simp_all add: nibbles_def)

lemma length_nibbles [simp]: "length (nibbles s) = 2 * length s"
  by (induction s) auto

lemma length_pack [simp]: "length (pack h) = length h div 2"
  by (induction h rule: pack.induct) auto

lemma decodeNibbles_loop_pack:
  assumes "even (length h)" "length h div 2 = length bs" "ni = 2 * bi" "bi \<le> length bs"
  shows "decodeNibbles_loop h bs bi ni = Some (take bi bs @ pack (drop ni h))"
  using assms
proof (induction h bs bi ni rule: decodeNibbles_loop.induct)
  case (1 h bs bi ni)
  show ?case
  proof (cases "ni < length h")
    case True
    then have lt: "ni + 1 < length h" "bi < length bs" using "1.prems" by (auto elim!: evenE)
    have "drop ni h = h ! ni # h ! (ni + 1) # drop (ni + 2) h"
      using lt(1) by (metis Cons_nth_drop_Suc Suc_eq_plus1 add_2_eq_Suc' True)
    with "1.IH" [OF True conjI [OF lt]] "1.prems" lt True show ?thesis
      by (simp add: decodeNibbles_loop.simps [of h bs bi "2 * bi"] take_Suc_conv_app_nth)
  next
    case False
    then have "bi = length bs" "drop ni h = []" using "1.prems" by (auto elim!: evenE)
    with False show ?thesis by (simp add: decodeNibbles_loop.simps [of h bs "length bs" ni])
  qed
qed

lemma decodeNibbles_pack:
  "even (length h) \<Longrightarrow> length h div 2 = length bs \<Longrightarrow> decodeNibbles h bs = Some (pack h)"
  by (simp add: decodeNibbles_def decodeNibbles_loop_pack)

lemma keybytesToHex_loop_nibbles:
  assumes "length nibs = 2 * (i + length s) + 1"
  shows "keybytesToHex_loop i s nibs = take (2 * i) nibs @ nibbles s @ [last nibs]"
  using assms
proof (induction i s nibs rule: keybytesToHex_loop.induct)
  case (1 i nibs)
  then show ?case by (cases nibs rule: rev_cases) auto
next
  case (2 i b s nibs)
  let ?nibs = "nibs[i * 2 := b div 16, i * 2 + 1 := b mod 16]"
  have "take (2 * (i + 1)) ?nibs = take (2 * i) nibs @ [b div 16, b mod 16]"
    using 2 by (intro nth_equalityI) (auto simp: nth_append nth_list_update nth_Cons' mult.commute)
  moreover have "last ?nibs = last nibs"
    using 2 by (subst (1 2) last_conv_nth) (auto simp: nth_list_update)
  ultimately show ?case using 2 by simp
qed

lemma keybytesToHex_nibbles: "keybytesToHex s = nibbles s @ [16]"
  by (simp add: keybytesToHex_def keybytesToHex_loop_nibbles list_update_append)

subsection \<open>Common prefixes\<close>

lemma prefixLen_loop_props:
  assumes "i \<le> len" "\<forall>j < i. a ! j = b ! j"
  shows "prefixLen_loop a b len i \<le> len \<and> (\<forall>j < prefixLen_loop a b len i. a ! j = b ! j) \<and>
    (prefixLen_loop a b len i < len \<longrightarrow> a ! prefixLen_loop a b len i \<noteq> b ! prefixLen_loop a b len i)"
  using assms
proof (induction a b len i rule: prefixLen_loop.induct)
  case (1 a b len i)
  show ?case
  proof (cases "i < len \<and> a ! i = b ! i")
    case True
    then have "prefixLen_loop a b len i = prefixLen_loop a b len (i + 1)"
      by (simp add: prefixLen_loop.simps [of a b len i])
    with "1.IH" True "1.prems" show ?thesis by (simp add: less_Suc_eq)
  next
    case False
    then have "prefixLen_loop a b len i = i" by (auto simp: prefixLen_loop.simps [of a b len i])
    with False "1.prems" show ?thesis by auto
  qed
qed

lemma prefixLen_props:
  "prefixLen a b \<le> length a" "prefixLen a b \<le> length b"
  "take (prefixLen a b) a = take (prefixLen a b) b"
  "prefixLen a b < length a \<Longrightarrow> prefixLen a b < length b \<Longrightarrow> a ! prefixLen a b \<noteq> b ! prefixLen a b"
proof -
  let ?len = "if length b < length a then length b else length a"
  note p = prefixLen_loop_props [of 0 ?len a b]
  show len: "prefixLen a b \<le> length a" "prefixLen a b \<le> length b"
    using p by (auto simp: prefixLen_def Let_def split: if_splits)
  show "take (prefixLen a b) a = take (prefixLen a b) b"
    using p len by (intro nth_equalityI) (auto simp: prefixLen_def Let_def)
  show "prefixLen a b < length a \<Longrightarrow> prefixLen a b < length b \<Longrightarrow> a ! prefixLen a b \<noteq> b ! prefixLen a b"
    using p by (auto simp: prefixLen_def Let_def split: if_splits)
qed

lemma prefixLen_eq:
  assumes "take n a = take n b" "n \<le> length a" "n \<le> length b"
    "n < length a \<Longrightarrow> n < length b \<Longrightarrow> a ! n \<noteq> b ! n"
  shows "prefixLen a b = n"
proof (rule linorder_cases [of "prefixLen a b" n])
  note p = prefixLen_props [of a b]
  assume lt: "prefixLen a b < n"
  then have "take n a ! prefixLen a b = take n b ! prefixLen a b" using assms(1) by simp
  with lt p(4) assms(2,3) show ?thesis by simp
next
  note p = prefixLen_props [of a b]
  assume lt: "n < prefixLen a b"
  then have "take (prefixLen a b) a ! n = take (prefixLen a b) b ! n" using p(3) by simp
  with lt p(1,2) assms(4) show ?thesis by simp
qed

lemma prefixLen_append_left: "prefixLen (p @ a) p = length p"
  by (rule prefixLen_eq) auto

subsection \<open>Round trips\<close>

text \<open>A hex key: nibbles, with an optional terminator.\<close>

definition is_nibbles :: "bytes \<Rightarrow> bool" where
  "is_nibbles h \<longleftrightarrow> (\<forall>x \<in> set h. x < 16)"

definition hexkey :: "bytes \<Rightarrow> bool" where
  "hexkey h \<longleftrightarrow> is_nibbles (if hasTerm h then butlast h else h)"

lemma unat_pack:
  assumes "a < 16" "b < (16 :: byte)"
  shows "unat (push_bit 4 a OR b) = unat a * 16 + unat b"
proof -
  have b: "bit b n \<Longrightarrow> n < 4" for n
  proof -
    have "b = take_bit 4 b" using assms(2) by (simp add: take_bit_eq_mod mod_word_less)
    then show "bit b n \<Longrightarrow> n < 4" by (metis bit_take_bit_iff)
  qed
  have "push_bit 4 a AND b = 0"
    by (rule bit_word_eqI) (auto simp: bit_simps dest: b)
  then have "push_bit 4 a OR b = push_bit 4 a + b"
    by (simp add: disjunctive_add_eq_or)
  moreover have "unat (push_bit 4 a) = unat a * 16"
    using assms(1) by (simp only: unsigned_push_bit_eq)
      (simp add: push_bit_eq_mult take_bit_eq_mod word_less_nat_alt)
  moreover have "unat a * 16 + unat b < 256" using assms by (simp add: word_less_nat_alt)
  ultimately show ?thesis by (simp add: unat_plus_if')
qed

lemma pack_nibble:
  assumes "a < 16" "b < (16 :: byte)"
  shows "(push_bit 4 a OR b) div 16 = a" "(push_bit 4 a OR b) mod 16 = b"
  using assms unat_pack [OF assms]
  by (simp_all add: word_unat_eq_iff unat_div unat_mod word_less_nat_alt)

lemma byte_nibbles: "b div 16 < (16 :: byte)" "b mod 16 < (16 :: byte)"
  using unat_byte_less [of b]
  by (simp_all add: word_less_nat_alt unat_div unat_mod div_less_iff_less_mult del: unat_byte_less)

lemma pack_byte: "push_bit 4 (b div 16) OR (b mod 16) = (b :: byte)"
  using unat_pack [OF byte_nibbles [of b]] by (simp add: word_unat_eq_iff unat_div unat_mod)

lemma is_nibbles_simps [simp]:
  "is_nibbles []" "is_nibbles (x # h) \<longleftrightarrow> x < 16 \<and> is_nibbles h"
  "is_nibbles (g @ h) \<longleftrightarrow> is_nibbles g \<and> is_nibbles h"
  by (auto simp: is_nibbles_def)

lemma is_nibbles_nibbles [simp]: "is_nibbles (nibbles s)"
  by (induction s) (auto simp: byte_nibbles)

lemma pack_nibbles [simp]: "pack (nibbles s) = s"
  by (induction s) (auto simp: pack_byte)

lemma nibbles_pack: "even (length h) \<Longrightarrow> is_nibbles h \<Longrightarrow> nibbles (pack h) = h"
  by (induction h rule: pack.induct) (auto simp: pack_nibble)

lemma not_hasTerm_nibbles [simp]: "is_nibbles h \<Longrightarrow> \<not> hasTerm h"
  by (auto simp: hasTerm_snoc)

lemma hexToKeybytes_keybytesToHex: "hexToKeybytes (keybytesToHex s) = Some s"
  by (simp add: hexToKeybytes_def keybytesToHex_nibbles hasTerm_snoc decodeNibbles_pack Let_def)

text \<open>The flag nibble of the compact encoding: the terminator in its second bit, oddness in its first.\<close>

definition compact_flag :: "bool \<Rightarrow> bool \<Rightarrow> byte" where
  "compact_flag term odd_len = (if term then 2 else 0) + (if odd_len then 1 else 0)"

lemma compact_flag_cases:
  "compact_flag True True = 3" "compact_flag True False = 2"
  "compact_flag False True = 1" "compact_flag False False = 0"
  by (simp_all add: compact_flag_def)

definition compact_spec :: "bool \<Rightarrow> bytes \<Rightarrow> bytes" where
  "compact_spec term h =
     (if even (length h) then push_bit 4 (compact_flag term False) # pack h
      else pack (compact_flag term True # h))"

lemma hexToCompact_spec:
  "hexToCompact (h @ [16]) = Some (compact_spec True h)"
  "\<not> hasTerm h \<Longrightarrow> hexToCompact h = Some (compact_spec False h)"
proof -
  have "map_option (\<lambda>bs. [c] @ bs) (decodeNibbles h (replicate (length h div 2) 0)) = Some (c # pack h)"
    if "even (length h)" for c and h :: bytes
    using that by (simp add: decodeNibbles_pack)
  then show "hexToCompact (h @ [16]) = Some (compact_spec True h)"
    "\<not> hasTerm h \<Longrightarrow> hexToCompact h = Some (compact_spec False h)"
    by (cases h; auto simp: hexToCompact_def Let_def hasTerm_def compact_spec_def compact_flag_cases
        decodeNibbles_pack odd_iff_mod_2_eq_one)+
qed

lemma nibbles_compact_spec:
  assumes "is_nibbles h"
  shows "nibbles (compact_spec term h) =
    (if even (length h) then [compact_flag term False, 0] else [compact_flag term True]) @ h"
proof -
  have flag: "compact_flag t d < 16" for t d by (cases t; cases d) (simp_all add: compact_flag_cases)
  have "push_bit 4 (compact_flag term False) = push_bit 4 (compact_flag term False) OR 0" by simp
  with pack_nibble [OF flag, of 0] assms show ?thesis
    by (auto simp: compact_spec_def nibbles_pack flag pack_nibble)
qed

lemma compactToHex_spec:
  assumes "is_nibbles h"
  shows "compactToHex (compact_spec term h) = h @ (if term then [16] else [])"
proof -
  have "compact_spec term h \<noteq> []"
    by (cases h) (auto simp: compact_spec_def)
  moreover have "base ! 0 < 2 \<longleftrightarrow> \<not> term" "unat (2 - (base ! 0 AND 1)) = (if even (length h) then 2 else 1)"
    if "base = nibbles (compact_spec term h) @ [16]" for base
    by (cases "even (length h)"; cases "term"; simp add: that nibbles_compact_spec [OF assms] compact_flag_cases)+
  ultimately show ?thesis
    by (auto simp: compactToHex_def keybytesToHex_nibbles Let_def nibbles_compact_spec [OF assms])
qed

lemma compactInPlace_loop_pack:
  assumes "hexLen \<le> length hex" "even (hexLen - ni)" "bi \<le> ni + 1" "ni \<le> hexLen"
  shows "\<exists>hex'. compactInPlace_loop hex hexLen bi ni = Some hex' \<and> length hex' = length hex \<and>
    take (bi + (hexLen - ni) div 2) hex' = take bi hex @ pack (take (hexLen - ni) (drop ni hex))"
  using assms
proof (induction hex hexLen bi ni rule: compactInPlace_loop.induct)
  case (1 hex hexLen bi ni)
  show ?case
  proof (cases "ni < hexLen")
    case False
    with "1.prems" show ?thesis by (simp add: compactInPlace_loop.simps [of hex hexLen bi hexLen])
  next
    case True
    then obtain m where m: "hexLen = ni + 2 * Suc m"
      using "1.prems"(2) by (metis Suc_pred dvdE le_add_diff_inverse less_imp_le_nat nat_0_less_mult_iff zero_less_diff)
    let ?b = "push_bit 4 (hex ! ni) OR hex ! (ni + 1)"
    have lt: "ni + 1 < length hex" "bi < length hex" using m "1.prems" by auto
    have loop: "compactInPlace_loop hex hexLen bi ni = compactInPlace_loop (hex[bi := ?b]) hexLen (bi + 1) (ni + 2)"
      using True lt by (simp add: compactInPlace_loop.simps [of hex hexLen bi ni])
    have hd: "drop ni hex = hex ! ni # hex ! (ni + 1) # drop (ni + 2) hex"
      using lt(1) by (metis Cons_nth_drop_Suc Suc_eq_plus1 add_2_eq_Suc' add_lessD1)
    have tl: "drop (ni + 2) (hex[bi := ?b]) = drop (ni + 2) hex"
      using "1.prems"(3) by simp
    have tk: "take (bi + 1) (hex[bi := ?b]) = take bi hex @ [?b]"
      using lt(2) by (simp add: take_Suc_conv_app_nth)
    obtain hex' where "compactInPlace_loop (hex[bi := ?b]) hexLen (bi + 1) (ni + 2) = Some hex'"
      "length hex' = length hex"
      "take (bi + 1 + (hexLen - (ni + 2)) div 2) hex' =
         take bi hex @ ?b # pack (take (hexLen - (ni + 2)) (drop (ni + 2) hex))"
      using "1.IH" [OF True conjI [OF lt]] m "1.prems" unfolding tl tk by auto
    with loop hd m show ?thesis by simp
  qed
qed

lemma length_compact_spec: "length (compact_spec term h) = length h div 2 + 1"
  by (auto simp: compact_spec_def)

lemma compactInPlace_first:
  assumes "hexLen \<le> length h" "h \<noteq> []" "ni = hexLen mod 2"
  shows "\<exists>h'. compactInPlace_loop h hexLen 1 ni = Some h' \<and> length h' = length h \<and>
    take (hexLen div 2 + 1) (h'[0 := c]) = c # pack (take (hexLen - ni) (drop ni h))"
proof -
  have n: "even (hexLen - ni)" "ni \<le> hexLen" "(hexLen - ni) div 2 = hexLen div 2"
    using assms(3) by (auto simp: odd_iff_mod_2_eq_one minus_mod_eq_mult_div)
  obtain h' where "compactInPlace_loop h hexLen 1 ni = Some h'" "length h' = length h"
    "take (1 + (hexLen - ni) div 2) h' = take 1 h @ pack (take (hexLen - ni) (drop ni h))"
    using compactInPlace_loop_pack [of hexLen h ni 1] assms n by auto
  moreover then have "take (hexLen div 2 + 1) (h'[0 := c]) = c # pack (take (hexLen - ni) (drop ni h))"
    using assms(2) n(3) by (cases h'; cases h) auto
  ultimately show ?thesis by blast
qed

subsection \<open>Properties\<close>

text \<open>C21: The compact encoding of a hex key, with or without terminator, succeeds and decodes to the key again; so it
  is injective on hex keys. Its length is half that of the key, and the encoding of key bytes to nibbles
  is undone by \<^verbatim>\<open>hexToKeybytes\<close>.\<close>

theorem compact_roundtrip:
  assumes "hexkey h"
  shows "\<exists>c. hexToCompact h = Some c \<and> compactToHex c = h \<and>
    length c = (if hasTerm h then length h - 1 else length h) div 2 + 1 \<and>
    hexToKeybytes (keybytesToHex c) = Some c"
proof (cases "hasTerm h")
  case True
  then obtain p where "h = p @ [16]" "is_nibbles p"
    using assms by (auto simp: hexkey_def hasTerm_snoc)
  then show ?thesis
    by (auto simp: hexToCompact_spec compactToHex_spec length_compact_spec hexToKeybytes_keybytesToHex hasTerm_snoc)
next
  case False
  with assms show ?thesis
    by (auto simp: hexkey_def hexToCompact_spec compactToHex_spec length_compact_spec hexToKeybytes_keybytesToHex)
qed

theorem compact_roundtrip_witness:
  "hexToCompact [1, 2, 3, 16] = Some [0x31, 0x23] \<and> compactToHex [0x31, 0x23] = [1, 2, 3, 16]"
proof -
  have "hexToCompact [1, 2, 3, 16] = Some [0x31, 0x23]"
    using hexToCompact_spec(1) [of "[1, 2, 3]"] by (simp add: compact_spec_def compact_flag_cases)
  moreover have "hexkey [1, 2, 3, 16]" by (simp add: hexkey_def hasTerm_def)
  ultimately show ?thesis using compact_roundtrip [of "[1, 2, 3, 16]"] by auto
qed

text \<open>C20: The conversion in place writes the same compact key as \<^verbatim>\<open>hexToCompact\<close>, although it overwrites its own
  input, for every non-empty slice of bytes; on the empty slice it panics.\<close>

theorem hexToCompactInPlace_eq:
  "(case hexToCompactInPlace h of
      None \<Rightarrow> h = []
    | Some (n, h') \<Rightarrow> h \<noteq> [] \<and> length h' = length h \<and> hexToCompact h = Some (take n h'))"
proof (cases "h = []")
  case True
  then show ?thesis by (simp add: hexToCompactInPlace_def compactInPlace_loop.simps)
next
  case False
  obtain p where p: "h = p @ [16] \<and> hasTerm h \<or> h = p \<and> \<not> hasTerm h"
    by (metis hasTerm_snoc)
  let ?n = "length p" and ?f = "push_bit 4 (compact_flag (hasTerm h) (odd (length p)))"
  let ?c = "if odd ?n then ?f OR h ! 0 else ?f"
  have n: "?n \<le> length h" using p by auto
  obtain h' where h': "compactInPlace_loop h ?n 1 (?n mod 2) = Some h'" "length h' = length h"
    "take (?n div 2 + 1) (h'[0 := ?c]) = ?c # pack (take (?n - ?n mod 2) (drop (?n mod 2) h))"
    using compactInPlace_first [OF n False refl, of ?c] by blast
  have "?c # pack (take (?n - ?n mod 2) (drop (?n mod 2) h)) = compact_spec (hasTerm h) p"
    using p by (cases p) (auto simp: compact_spec_def odd_iff_mod_2_eq_one)
  then have "hexToCompact h = Some (take (?n div 2 + 1) (h'[0 := ?c]))"
    using p h'(3) hexToCompact_spec by auto
  moreover have "hexToCompactInPlace h = Some (?n div 2 + 1, h'[0 := ?c])"
    using p h'(1,2) False
    by (auto simp: hexToCompactInPlace_def Let_def hasTerm_def compact_flag_cases odd_iff_mod_2_eq_one)
  ultimately show ?thesis using False h'(2) by simp
qed

end
