(* ===== verification/Trie_Spec.thy ===== *)
theory Trie_Spec
  imports Trie_Encoding "HOL-Library.Sublist"
begin

section \<open>Package trie: the abstract Merkle Patricia trie\<close>

text \<open>
  The specification that \<^verbatim>\<open>src/trie/trie.go\<close> implements: a trie as a tree without hash nodes and without
  cache flags, the map it stands for (\<open>plookup\<close>), its canonical form (\<open>canon\<close>), and insertion and deletion
  on it. The results are that both operations keep the canonical form and update the map, and that
  the canonical form of a map is unique; the theory \<open>Trie\<close> relates the nodes of the code to these trees.
\<close>

datatype ptree = PNil | PVal bytes | PShort bytes ptree | PFull "ptree list"

lemma size_nth_ptree [termination_simp]: "i < length ts \<Longrightarrow> size (ts ! i) < Suc (size_list size ts)"
  by (metis le_refl less_Suc_eq_le nth_mem size_list_estimation')

fun plookup :: "ptree \<Rightarrow> bytes \<Rightarrow> bytes option" where
  "plookup PNil k = None"
| "plookup (PVal v) k = (if k = [] then Some v else None)"
| "plookup (PShort p t) k = (if take (length p) k = p then plookup t (drop (length p) k) else None)"
| "plookup (PFull ts) [] = None"
| "plookup (PFull ts) (x # k) = (if unat x < length ts then plookup (ts ! unat x) k else None)"

text \<open>A key as the trie uses it: nibbles and the terminator.\<close>

definition termkey :: "bytes \<Rightarrow> bool" where
  "termkey k \<longleftrightarrow> (\<exists>q. k = q @ [16] \<and> is_nibbles q)"

definition two_children :: "ptree list \<Rightarrow> bool" where
  "two_children ts \<longleftrightarrow> (\<exists>i j. i < j \<and> j < length ts \<and> ts ! i \<noteq> PNil \<and> ts ! j \<noteq> PNil)"

inductive canon :: "ptree \<Rightarrow> bool" where
  leaf: "termkey p \<Longrightarrow> v \<noteq> [] \<Longrightarrow> canon (PShort p (PVal v))"
| ext: "p \<noteq> [] \<Longrightarrow> is_nibbles p \<Longrightarrow> canon (PFull ts) \<Longrightarrow> canon (PShort p (PFull ts))"
| full: "length ts = 17 \<Longrightarrow> (\<forall>i < 16. ts ! i = PNil \<or> canon (ts ! i)) \<Longrightarrow>
    ts ! 16 = PNil \<or> (\<exists>v. v \<noteq> [] \<and> ts ! 16 = PVal v) \<Longrightarrow> two_children ts \<Longrightarrow> canon (PFull ts)"

inductive_simps canon_simps [simp]: "canon PNil" "canon (PVal v)"

inductive_cases canon_ShortE: "canon (PShort p t)"

inductive_cases canon_FullE: "canon (PFull ts)"

definition wf_root :: "ptree \<Rightarrow> bool" where
  "wf_root t \<longleftrightarrow> t = PNil \<or> canon t"

text \<open>What may stand where the key \<open>k\<close> remains: a value below a complete key, a subtrie otherwise.\<close>

definition fits :: "ptree \<Rightarrow> bytes \<Rightarrow> bool" where
  "fits t k \<longleftrightarrow> (if k = [] then t = PNil \<or> (\<exists>v. v \<noteq> [] \<and> t = PVal v) else termkey k \<and> wf_root t)"

subsection \<open>Keys\<close>

lemma termkey_Cons: "termkey (x # k) \<longleftrightarrow> (x = 16 \<and> k = []) \<or> (x < 16 \<and> termkey k)"
proof -
  have "termkey (x # k) \<longleftrightarrow> (\<exists>q. (q = [] \<and> x = 16 \<and> k = [] \<or> (\<exists>r. q = x # r \<and> k = r @ [16])) \<and> is_nibbles q)"
    unfolding termkey_def by (intro iff_exI) (auto simp: Cons_eq_append_conv)
  then show ?thesis by (auto simp: termkey_def)
qed

lemma termkey_nonempty [simp]: "\<not> termkey []"
  by (auto simp: termkey_def)

lemma termkey_not_nibbles: "termkey k \<Longrightarrow> \<not> is_nibbles k"
  by (auto simp: termkey_def)

lemma termkey_append_nibbles: "is_nibbles p \<Longrightarrow> termkey (p @ k) \<longleftrightarrow> termkey k"
  by (induction p) (auto simp: termkey_Cons)

lemma termkey_append_term: "termkey p \<Longrightarrow> termkey (p @ k) \<longleftrightarrow> k = []"
  by (induction p) (auto simp: termkey_Cons)

lemma termkey_keybytes: "termkey (keybytesToHex key)"
  by (auto simp: termkey_def keybytesToHex_nibbles)

lemma termkey_unat: "termkey (x # k) \<Longrightarrow> unat x < 17"
  by (auto simp: termkey_Cons word_less_nat_alt)

lemma keybytesToHex_inj: "keybytesToHex a = keybytesToHex b \<longleftrightarrow> a = b"
  by (metis hexToKeybytes_keybytesToHex option.inject)

lemma fitsD: "fits t k \<Longrightarrow> k \<noteq> [] \<Longrightarrow> termkey k \<and> wf_root t"
  by (simp add: fits_def)

lemma fits_PNil [simp]: "fits PNil k \<longleftrightarrow> k = [] \<or> termkey k"
  by (auto simp: fits_def wf_root_def)

text \<open>Steps down the trie keep \<open>fits\<close>.\<close>

lemma fits_Full:
  assumes "canon (PFull ts)" "termkey (x # k)"
  shows "fits (ts ! unat x) k" "unat x < length ts"
  using assms by (auto elim!: canon_FullE simp: fits_def wf_root_def termkey_Cons word_less_nat_alt)

lemma fits_Short:
  assumes "canon (PShort p t)" "termkey (p @ k)"
  shows "fits t k"
  using assms by (auto elim!: canon_ShortE simp: fits_def wf_root_def termkey_append_term termkey_append_nibbles
      dest: termkey_not_nibbles)

lemma canon_ShortD:
  assumes "canon (PShort p t)"
  shows "(\<exists>v. termkey p \<and> v \<noteq> [] \<and> t = PVal v) \<or> (\<exists>ts. p \<noteq> [] \<and> is_nibbles p \<and> t = PFull ts \<and> canon t)"
  using assms by (auto elim!: canon_ShortE)

lemma canon_Short_nonempty: "canon (PShort p t) \<Longrightarrow> p \<noteq> [] \<and> t \<noteq> PNil"
  by (auto elim!: canon_ShortE)

subsection \<open>The keys of a canonical trie\<close>

lemma plookup_Full: "plookup (PFull ts) k = (case k of [] \<Rightarrow> None | x # k \<Rightarrow>
    if unat x < length ts then plookup (ts ! unat x) k else None)"
  by (cases k) auto

lemma plookup_Short_append [simp]: "plookup (PShort p t) (p @ k) = plookup t k"
  by simp

lemma plookup_Short_Some: "plookup (PShort p t) k = Some v \<longleftrightarrow> (\<exists>r. k = p @ r \<and> plookup t r = Some v)"
  by (metis append_take_drop_id option.distinct(1) plookup.simps(3) plookup_Short_append)

lemma plookup_PVal_Some [simp]: "plookup (PVal v) k = Some w \<longleftrightarrow> k = [] \<and> w = v"
  by auto

declare plookup.simps(2,3) [simp del]

lemma canon_keys: "canon t \<Longrightarrow> plookup t k = Some v \<Longrightarrow> termkey k \<and> v \<noteq> []"
proof (induction t arbitrary: k rule: canon.induct)
  case (leaf p w)
  then show ?case by (auto simp: plookup_Short_Some)
next
  case (ext p ts)
  then show ?case by (auto simp: plookup_Short_Some termkey_append_nibbles)
next
  case (full ts)
  then obtain x r where k: "k = x # r" "unat x < 17" "plookup (ts ! unat x) r = Some v"
    by (auto simp: plookup_Full split: list.splits if_splits)
  show ?case
  proof (cases "unat x = 16")
    case True
    then have "x = 16" by (simp add: word_unat_eq_iff)
    with k True full show ?thesis by (auto simp: termkey_Cons split: if_splits)
  next
    case False
    with k have "unat x < 16" by simp
    with k full show ?thesis by (auto simp: termkey_Cons word_less_nat_alt)
  qed
qed

lemma canon_key_ex: "canon t \<Longrightarrow> \<exists>k v. plookup t k = Some v"
proof (induction t rule: canon.induct)
  case (leaf p v)
  then show ?case by (auto simp: plookup_Short_Some)
next
  case (ext p ts)
  then show ?case by (auto simp: plookup_Short_Some)
next
  case (full ts)
  then obtain i where i: "i < 17" "ts ! i \<noteq> PNil" by (auto simp: two_children_def)
  have "i = 16 \<or> i < 16" using i by auto
  then have "\<exists>k v. plookup (ts ! i) k = Some v" using full i by auto
  then obtain k v where "plookup (ts ! i) k = Some v" by blast
  then have "plookup (PFull ts) (word_of_nat i # k) = Some v"
    using i full by (simp add: unat_of_nat)
  then show ?case by blast
qed

text \<open>The keys of a full node do not share their first nibble.\<close>

lemma canon_Full_keys:
  assumes "canon (PFull ts)"
  shows "\<exists>x y k l v w. x \<noteq> y \<and> plookup (PFull ts) (x # k) = Some v \<and> plookup (PFull ts) (y # l) = Some w"
proof -
  have child: "\<exists>k v. plookup (PFull ts) (word_of_nat i # k) = Some v" if "i < 17" "ts ! i \<noteq> PNil" for i
  proof -
    have "i = 16 \<or> i < 16" using that by auto
    then have "\<exists>k v. plookup (ts ! i) k = Some v"
      using assms that by (auto elim!: canon_FullE intro: canon_key_ex)
    then show ?thesis using that assms by (auto elim!: canon_FullE simp: unat_of_nat)
  qed
  obtain i j where ij: "i < j" "j < 17" "ts ! i \<noteq> PNil" "ts ! j \<noteq> PNil"
    using assms by (auto elim!: canon_FullE simp: two_children_def)
  then have "word_of_nat i \<noteq> (word_of_nat j :: byte)" by (simp add: word_unat_eq_iff unat_of_nat)
  with ij child [of i] child [of j] show ?thesis by (metis less_trans)
qed

subsection \<open>A map has one canonical trie\<close>

lemma plookup_PNil_iff: "wf_root t \<Longrightarrow> plookup t = (\<lambda>k. None) \<longleftrightarrow> t = PNil"
  using canon_key_ex by (fastforce simp: wf_root_def)

lemma leaf_not_full:
  assumes "termkey p" "canon (PFull ts)" "\<And>k. plookup (PShort q (PFull ts)) k = plookup (PShort p (PVal v)) k"
  shows False
proof -
  obtain x y k l w u where "x \<noteq> y" "plookup (PFull ts) (x # k) = Some w" "plookup (PFull ts) (y # l) = Some u"
    using canon_Full_keys [OF assms(2)] by blast
  then have "plookup (PShort p (PVal v)) (q @ x # k) = Some w" "plookup (PShort p (PVal v)) (q @ y # l) = Some u"
    using assms(3) plookup_Short_append by metis+
  then have "q @ x # k = p" "q @ y # l = p" by (auto simp: plookup_Short_Some)
  with \<open>x \<noteq> y\<close> show False by auto
qed

text \<open>The key of an extension node is the longest common prefix of the keys below it.\<close>

lemma ext_prefix:
  assumes "canon (PFull ts)" "\<And>k. plookup (PShort p (PFull ts)) k = plookup (PShort q t) k"
  shows "prefix q p"
proof -
  obtain x y k l v w where xy: "x \<noteq> y" "plookup (PFull ts) (x # k) = Some v" "plookup (PFull ts) (y # l) = Some w"
    using canon_Full_keys [OF assms(1)] by blast
  then have "plookup (PShort q t) (p @ x # k) = Some v" "plookup (PShort q t) (p @ y # l) = Some w"
    using assms(2) plookup_Short_append by metis+
  then obtain r s where "p @ x # k = q @ r" "p @ y # l = q @ s" by (auto simp: plookup_Short_Some)
  then have "prefix q (p @ x # k)" "prefix q (p @ y # l)" by auto
  with xy(1) show ?thesis by (auto simp: prefix_append prefix_Cons)
qed

lemma canon_unique:
  assumes "canon t" "wf_root t'" "plookup t = plookup t'"
  shows "t = t'"
  using assms
proof (induction t arbitrary: t' rule: canon.induct)
  case (leaf p v)
  have p: "plookup t' p = Some v"
    using leaf.prems(2) by (metis plookup_Short_Some plookup_PVal_Some append_Nil2)
  then have "canon t'" using leaf.prems(1) by (auto simp: wf_root_def)
  then show ?case
  proof cases
    case (leaf p' v')
    with p show ?thesis by (auto simp: plookup_Short_Some)
  next
    case (ext q ts)
    then show ?thesis using leaf_not_full [of p ts q v] \<open>termkey p\<close> leaf.prems(2) by metis
  next
    case (full ts)
    have "plookup (PShort [] (PFull ts)) k = plookup (PShort p (PVal v)) k" for k
      using leaf.prems(2) full(1) by (metis plookup_Short_append append_Nil)
    then show ?thesis using leaf_not_full [of p ts "[]" v] \<open>termkey p\<close> \<open>canon t'\<close> full(1) by blast
  qed
next
  case (ext p ts)
  have p: "canon (PShort p (PFull ts))" using ext by (blast intro: canon.ext)
  then have "plookup t' \<noteq> (\<lambda>k. None)"
    using canon_key_ex [of "PShort p (PFull ts)"] ext.prems(2) by (metis option.distinct(1))
  then have "canon t'" using ext.prems(1) by (auto simp: wf_root_def)
  then show ?case
  proof cases
    case (leaf q v)
    then show ?thesis using leaf_not_full [of q ts p v] ext by metis
  next
    case e: (ext q us)
    have "prefix q p" using ext_prefix [of ts p q "PFull us"] ext e by metis
    moreover have "prefix p q" using ext_prefix [of us q p "PFull ts"] ext e by metis
    ultimately have "p = q" by auto
    then have "plookup (PFull ts) k = plookup (PFull us) k" for k
      using ext.prems(2) e(1) plookup_Short_append by metis
    then have "PFull ts = PFull us" using ext.IH [of "PFull us"] e by (auto simp: wf_root_def)
    with e \<open>p = q\<close> show ?thesis by simp
  next
    case (full us)
    then have "prefix p []"
      using ext_prefix [of us "[]" p "PFull ts"] ext.prems(2) \<open>canon t'\<close> by (metis append_Nil plookup_Short_append)
    with ext show ?thesis by simp
  qed
next
  case (full ts)
  have p: "canon (PFull ts)" using full by (auto intro: canon.full)
  then have "plookup t' \<noteq> (\<lambda>k. None)"
    using canon_key_ex [of "PFull ts"] full.prems(2) by (metis option.distinct(1))
  then have "canon t'" using full.prems(1) by (auto simp: wf_root_def)
  then show ?case
  proof cases
    case (leaf q v)
    have "plookup (PShort [] (PFull ts)) k = plookup (PShort q (PVal v)) k" for k
      using full.prems(2) leaf(1) by (metis plookup_Short_append append_Nil)
    then show ?thesis using leaf_not_full [of q ts "[]" v] leaf p by blast
  next
    case (ext q us)
    then have "prefix q []"
      using ext_prefix [of ts "[]" q "PFull us"] full.prems(2) p by (metis append_Nil plookup_Short_append)
    with ext show ?thesis by simp
  next
    case f: (full us)
    have lk: "plookup (ts ! i) = plookup (us ! i)" if "i < 17" for i
    proof
      fix k
      have "plookup (PFull ts) (word_of_nat i # k) = plookup (PFull us) (word_of_nat i # k)"
        using full.prems(2) f(1) by simp
      then show "plookup (ts ! i) k = plookup (us ! i) k"
        using that full.hyps(1) f(2) by (simp add: unat_of_nat)
    qed
    have "ts = us"
    proof (rule nth_equalityI)
      show "length ts = length us" using full.hyps(1) f(2) by simp
      fix i assume "i < length ts"
      then have i: "i < 17" using full.hyps(1) by simp
      show "ts ! i = us ! i"
      proof (cases "i = 16")
        case True
        then show ?thesis using lk [of 16] full.hyps(2) f(4)
          by (auto dest: fun_cong [of _ _ "[]"] simp: plookup.simps)
      next
        case False
        then have i16: "i < 16" using i by simp
        then have "wf_root (us ! i)" "ts ! i = PNil \<or> canon (ts ! i)"
          using f(3) full.IH by (auto simp: wf_root_def)
        then show ?thesis
          using full.IH lk [OF i] plookup_PNil_iff [of "us ! i"] i16 by (auto simp: fun_eq_iff)
      qed
    qed
    with f show ?thesis by simp
  qed
qed

subsection \<open>Insertion and deletion\<close>

definition pcons :: "bytes \<Rightarrow> ptree \<Rightarrow> ptree" where
  "pcons k t = (if k = [] then t else PShort k t)"

definition pbranch :: "nat \<Rightarrow> bytes \<Rightarrow> ptree \<Rightarrow> bytes \<Rightarrow> ptree \<Rightarrow> ptree" where
  "pbranch m p t key v =
     PFull ((replicate 17 PNil)
       [unat (p ! m) := pcons (drop (m + 1) p) t, unat (key ! m) := pcons (drop (m + 1) key) v])"

fun pinsert :: "ptree \<Rightarrow> bytes \<Rightarrow> ptree \<Rightarrow> ptree" where
  "pinsert t [] v = v"
| "pinsert PNil (x # k) v = PShort (x # k) v"
| "pinsert (PVal w) (x # k) v = PVal w"
| "pinsert (PShort p t) (x # k) v =
     (let m = prefixLen (x # k) p in
      if m = length p then PShort p (pinsert t (drop m (x # k)) v)
      else pcons (take m (x # k)) (pbranch m p t (x # k) v))"
| "pinsert (PFull ts) (x # k) v =
     (if unat x < length ts then PFull (ts[unat x := pinsert (ts ! unat x) k v]) else PFull ts)"

text \<open>The loop that looks for the single entry left in a full node: its index, \<open>-2\<close> when there are more,
  \<open>-1\<close> when there is none.\<close>

fun only_loop :: "nat \<Rightarrow> bool list \<Rightarrow> int \<Rightarrow> int" where
  "only_loop i [] pos = pos"
| "only_loop i (b # bs) pos =
     (if b then (if pos = -1 then only_loop (i + 1) bs (int i) else -2) else only_loop (i + 1) bs pos)"

fun pdelete :: "ptree \<Rightarrow> bytes \<Rightarrow> ptree" where
  "pdelete PNil key = PNil"
| "pdelete (PVal v) key = PNil"
| "pdelete (PShort p t) key =
     (let m = prefixLen key p in
      if m < length p then PShort p t
      else if m = length key then PNil
      else (case pdelete t (drop (length p) key) of PShort q u \<Rightarrow> PShort (p @ q) u | c \<Rightarrow> PShort p c))"
| "pdelete (PFull ts) [] = PFull ts"
| "pdelete (PFull ts) (x # k) =
     (if unat x < length ts then
        (let nn = pdelete (ts ! unat x) k; ts = ts[unat x := nn] in
         if nn \<noteq> PNil then PFull ts
         else
           (let pos = only_loop 0 (map (\<lambda>t. t \<noteq> PNil) ts) (-1) in
            if pos \<ge> 0 then
              (case ts ! nat pos of
                 PShort q u \<Rightarrow> if pos \<noteq> 16 then PShort (word_of_int pos # q) u
                                 else PShort [word_of_int pos] (PShort q u)
               | c \<Rightarrow> PShort [word_of_int pos] c)
            else PFull ts))
      else PFull ts)"

lemma only_loop_second:
  "only_loop i bs (int j) = (if True \<in> set bs then -2 else int j)"
  by (induction bs arbitrary: i) auto

lemma only_loop_one:
  assumes "a < length bs" "bs ! a" "\<And>b. b < length bs \<Longrightarrow> b \<noteq> a \<Longrightarrow> \<not> bs ! b"
  shows "only_loop i bs (-1) = int (i + a)"
  using assms
proof (induction bs arbitrary: i a)
  case (Cons x bs)
  show ?case
  proof (cases a)
    case 0
    then have "True \<notin> set bs" using Cons.prems(3) [of "Suc _"] by (auto simp: in_set_conv_nth)
    with 0 Cons.prems(2) show ?thesis using only_loop_second [of "i + 1" bs i] by simp
  next
    case (Suc c)
    then have "\<not> x" using Cons.prems(3) [of 0] by simp
    moreover have "only_loop (i + 1) bs (-1) = int (i + 1 + c)"
      using Cons.prems Suc Cons.prems(3) [of "Suc _"] by (intro Cons.IH) auto
    ultimately show ?thesis using Suc by simp
  qed
qed simp

lemma only_loop_two:
  assumes "a < b" "b < length bs" "bs ! a" "bs ! b"
  shows "only_loop i bs (-1) = -2"
  using assms
proof (induction bs arbitrary: i a b)
  case (Cons x bs)
  then obtain c where c: "b = Suc c" by (cases b) auto
  show ?case
  proof (cases x)
    case True
    moreover have "True \<in> set bs" using Cons.prems c by (auto simp: in_set_conv_nth)
    ultimately show ?thesis using only_loop_second [of "i + 1" bs i] by simp
  next
    case False
    with Cons.prems obtain d where "a = Suc d" by (cases a) auto
    with False Cons c show ?thesis by auto
  qed
qed simp

subsubsection \<open>Insertion\<close>

lemma map_eqI: "(\<And>k v. f k = Some v \<longleftrightarrow> g k = Some v) \<Longrightarrow> f = g"
  unfolding fun_eq_iff by (metis option.exhaust)

lemma plookup_pcons: "plookup (pcons p t) k = Some v \<longleftrightarrow> (\<exists>r. k = p @ r \<and> plookup t r = Some v)"
  by (simp add: pcons_def plookup_Short_Some)

lemma plookup_Full_Some:
  "plookup (PFull ts) k = Some v \<longleftrightarrow> (\<exists>x r. k = x # r \<and> unat x < length ts \<and> plookup (ts ! unat x) r = Some v)"
  by (cases k) auto

lemma plookup_Short_upd:
  assumes "plookup t' = (plookup t)(r := w)"
  shows "plookup (PShort p t') = (plookup (PShort p t))(p @ r := w)"
  using assms by (intro map_eqI) (auto simp: plookup_Short_Some fun_upd_def split: if_splits)

lemma plookup_Full_upd:
  assumes "plookup t' = (plookup (ts ! unat x))(r := w)" "unat x < length ts"
  shows "plookup (PFull (ts[unat x := t'])) = (plookup (PFull ts))(x # r := w)"
proof -
  have "plookup (PFull (ts[unat x := t'])) k = ((plookup (PFull ts))(x # r := w)) k" for k
    using assms by (cases k) (auto simp: nth_list_update fun_upd_def word_unat_eq_iff [of _ x])
  then show ?thesis by (simp add: fun_eq_iff)
qed

text \<open>The tail of a short node below the nibble at which it is split.\<close>

lemma canon_split:
  assumes "canon (PShort (c @ x # r) t)"
  shows "is_nibbles c" "termkey (x # r) \<and> (\<exists>v. v \<noteq> [] \<and> t = PVal v) \<or> is_nibbles (x # r) \<and> (\<exists>ts. t = PFull ts \<and> canon t)"
  using assms
proof -
  have "termkey (c @ x # r) \<Longrightarrow> is_nibbles c \<and> termkey (x # r)"
    by (induction c) (auto simp: termkey_Cons)
  then show "is_nibbles c" "termkey (x # r) \<and> (\<exists>v. v \<noteq> [] \<and> t = PVal v) \<or> is_nibbles (x # r) \<and> (\<exists>ts. t = PFull ts \<and> canon t)"
    using assms by (auto elim!: canon_ShortE)
qed

lemma pcons_child:
  assumes "canon (PShort (c @ x # r) t)"
  shows "x = 16 \<and> (\<exists>v. v \<noteq> [] \<and> pcons r t = PVal v) \<or> unat x < 16 \<and> canon (pcons r t)"
  using canon_split(2) [OF assms]
  by (auto simp: pcons_def termkey_Cons word_less_nat_alt intro: canon.intros)

lemma pbranch_canon:
  assumes "canon (PShort (c @ x # r) t)" "canon (PShort (c @ y # s) u)" "x \<noteq> y"
  shows "canon (pbranch (length c) (c @ x # r) t (c @ y # s) u)"
proof -
  let ?ts = "(replicate 17 PNil)[unat x := pcons r t, unat y := pcons s u]"
  note x = pcons_child [OF assms(1)] and y = pcons_child [OF assms(2)]
  have ne: "unat x \<noteq> unat y" using assms(3) by (simp add: word_unat_eq_iff)
  have lt: "unat x < 17" "unat y < 17" using x y by auto
  have nn: "pcons r t \<noteq> PNil" "pcons s u \<noteq> PNil" using x y by auto
  have "two_children ?ts"
  proof (cases "unat x < unat y")
    case True
    then show ?thesis
      unfolding two_children_def using lt nn
      by (intro exI [of _ "unat x"] exI [of _ "unat y"]) (auto simp: nth_list_update)
  next
    case False
    then show ?thesis
      unfolding two_children_def using lt nn ne
      by (intro exI [of _ "unat y"] exI [of _ "unat x"]) (auto simp: nth_list_update)
  qed
  moreover have "\<forall>i < 16. ?ts ! i = PNil \<or> canon (?ts ! i)"
    using x y by (auto simp: nth_list_update)
  moreover have "?ts ! 16 = PNil \<or> (\<exists>v. v \<noteq> [] \<and> ?ts ! 16 = PVal v)"
    using x y by (auto simp: nth_list_update)
  ultimately have "canon (PFull ?ts)" by (intro canon.full) auto
  then show ?thesis by (simp add: pbranch_def nth_append)
qed

lemma pbranch_lookup:
  assumes "x \<noteq> y" "unat x < 17" "unat y < 17"
  shows "plookup (pcons c (pbranch (length c) (c @ x # r) t (c @ y # s) (PVal v))) =
    (plookup (PShort (c @ x # r) t))(c @ y # s := Some v)"
proof (rule map_eqI)
  fix k w
  have ne: "unat x \<noteq> unat y" using assms(1) by (simp add: word_unat_eq_iff)
  let ?ts = "(replicate 17 PNil)[unat x := pcons r t, unat y := pcons s (PVal v)]"
  have child: "plookup (?ts ! unat z) q = Some w \<longleftrightarrow>
      (z = y \<and> plookup (pcons s (PVal v)) q = Some w) \<or> (z = x \<and> plookup (pcons r t) q = Some w)"
    if "unat z < 17" for z q
    using that assms by (auto simp: nth_list_update word_unat_eq_iff)
  have "plookup (pcons c (PFull ?ts)) k = Some w \<longleftrightarrow>
      (\<exists>z q. k = c @ z # q \<and> unat z < 17 \<and> plookup (?ts ! unat z) q = Some w)"
    by (auto simp: plookup_pcons plookup_Full_Some)
  also have "\<dots> \<longleftrightarrow> (k = c @ y # s \<and> w = v) \<or> (\<exists>q. k = c @ x # r @ q \<and> plookup t q = Some w)"
    using assms child by (auto simp: plookup_pcons)
  also have "\<dots> \<longleftrightarrow> ((plookup (PShort (c @ x # r) t))(c @ y # s := Some v)) k = Some w"
    using assms(1) by (auto simp: plookup_Short_Some)
  finally show "plookup (pcons c (pbranch (length c) (c @ x # r) t (c @ y # s) (PVal v))) k = Some w \<longleftrightarrow>
      ((plookup (PShort (c @ x # r) t))(c @ y # s := Some v)) k = Some w"
    by (simp add: pbranch_def nth_append)
qed

lemma two_children_upd: "two_children ts \<Longrightarrow> t \<noteq> PNil \<Longrightarrow> two_children (ts[i := t])"
proof -
  assume t: "t \<noteq> PNil" and "two_children ts"
  then obtain a b where ab: "a < b" "b < length ts" "ts ! a \<noteq> PNil" "ts ! b \<noteq> PNil"
    by (auto simp: two_children_def)
  then have "ts[i := t] ! a \<noteq> PNil" "ts[i := t] ! b \<noteq> PNil"
    using t by (cases "a = i"; cases "b = i"; simp)+
  with ab show ?thesis unfolding two_children_def by (metis length_list_update)
qed

lemma canon_Full_upd:
  assumes "canon (PFull ts)" "termkey (x # k)" "fits t k" "t \<noteq> PNil"
  shows "canon (PFull (ts[unat x := t]))"
proof -
  have t: "unat x = 16 \<and> (\<exists>v. v \<noteq> [] \<and> t = PVal v) \<or> unat x < 16 \<and> canon t"
    using assms(2-4) by (cases "k = []") (auto simp: fits_def wf_root_def termkey_Cons word_less_nat_alt)
  from assms(1) have ts: "length ts = 17" "\<forall>i < 16. ts ! i = PNil \<or> canon (ts ! i)"
    "ts ! 16 = PNil \<or> (\<exists>v. v \<noteq> [] \<and> ts ! 16 = PVal v)" "two_children ts"
    by (auto elim!: canon_FullE)
  show ?thesis
  proof (rule canon.full)
    show "\<forall>i < 16. ts[unat x := t] ! i = PNil \<or> canon (ts[unat x := t] ! i)"
    proof (intro allI impI)
      fix i :: nat assume "i < 16"
      with ts t show "ts[unat x := t] ! i = PNil \<or> canon (ts[unat x := t] ! i)"
        by (cases "i = unat x") simp_all
    qed
    show "ts[unat x := t] ! 16 = PNil \<or> (\<exists>v. v \<noteq> [] \<and> ts[unat x := t] ! 16 = PVal v)"
      using ts t by (cases "unat x = 16") auto
  qed (use ts assms(4) two_children_upd in auto)
qed

lemma split_common:
  assumes "termkey key" "canon (PShort p t)" "prefixLen key p \<noteq> length p"
  obtains c x r y s where "p = c @ x # r" "key = c @ y # s" "x \<noteq> y" "length c = prefixLen key p"
proof -
  let ?m = "prefixLen key p"
  note m = prefixLen_props [of key p]
  have p: "?m < length p" using m(2) assms(3) by simp
  have "?m < length key"
  proof (rule ccontr)
    assume "\<not> ?m < length key"
    then have "?m = length key" using m(1) by simp
    then have "key = take (length key) p" using m(3) by simp
    then obtain q where q: "p = key @ q" by (metis append_take_drop_id)
    with assms(1,2) have "q = []"
      by (auto elim!: canon_ShortE simp: termkey_append_term dest: termkey_not_nibbles)
    with q \<open>?m = length key\<close> assms(3) show False by simp
  qed
  then have "key = take ?m p @ key ! ?m # drop (Suc ?m) key" using id_take_nth_drop [of ?m key] m(3) by simp
  moreover have "p = take ?m p @ p ! ?m # drop (Suc ?m) p" using id_take_nth_drop [OF p] .
  ultimately show ?thesis
    using that [of "take ?m p" "p ! ?m" "drop (Suc ?m) p" "key ! ?m" "drop (Suc ?m) key"] p m(4)
      \<open>?m < length key\<close> by simp
qed

lemma fits_upd_Nil: "fits t [] \<Longrightarrow> plookup (PVal v) = (plookup t)([] := Some v)"
  by (rule map_eqI) (auto simp: fits_def)

lemma pinsert_correct:
  assumes "fits t k" "v \<noteq> []"
  shows "fits (pinsert t k (PVal v)) k \<and> pinsert t k (PVal v) \<noteq> PNil \<and>
    plookup (pinsert t k (PVal v)) = (plookup t)(k \<mapsto> v)"
  using assms(1)
proof (induction t k "PVal v" rule: pinsert.induct)
  case (1 t)
  then show ?case using fits_upd_Nil assms(2) by (simp add: fits_def)
next
  case (2 x k)
  then have "canon (PShort (x # k) (PVal v))" using assms(2) by (simp add: canon.leaf)
  moreover have "plookup (PShort (x # k) (PVal v)) = (plookup PNil)(x # k \<mapsto> v)"
    by (rule map_eqI) (auto simp: plookup_Short_Some)
  ultimately show ?case using 2 by (simp add: fits_def wf_root_def)
next
  case (3 w x k)
  then show ?case by (simp add: fits_def wf_root_def)
next
  case (4 p t x k)
  let ?key = "x # k"
  have k: "termkey ?key" and p: "canon (PShort p t)" using fitsD [OF "4.prems"] by (auto simp: wf_root_def)
  show ?case
  proof (cases "prefixLen ?key p = length p")
    case True
    then have "take (length p) ?key = p" using prefixLen_props(3) [of ?key p] by simp
    then obtain r where r: "?key = p @ r" by (metis append_take_drop_id)
    have "fits t r" using fits_Short [OF p] k r by simp
    with "4.hyps" True r have t': "fits (pinsert t r (PVal v)) r" "plookup (pinsert t r (PVal v)) = (plookup t)(r \<mapsto> v)"
      by (auto simp: Let_def)
    from canon_ShortD [OF p] have "canon (PShort p (pinsert t r (PVal v)))"
    proof (elim disjE exE conjE)
      assume "termkey p"
      then have "r = []" using k r by (simp add: termkey_append_term)
      with \<open>termkey p\<close> assms(2) show ?thesis by (simp add: canon.leaf)
    next
      fix ts assume 2: "p \<noteq> []" "is_nibbles p" "t = PFull ts" "canon t"
      then have "termkey r" using k r by (simp add: termkey_append_nibbles)
      then obtain y s where "r = y # s" by (cases r) auto
      with 2 t'(1) show ?thesis by (auto simp: fits_def wf_root_def intro: canon.ext split: if_splits)
    qed
    moreover have "pinsert (PShort p t) ?key (PVal v) = PShort p (pinsert t r (PVal v))"
      using True by (simp add: Let_def, simp add: r)
    ultimately show ?thesis
      using k r plookup_Short_upd [OF t'(2), of p] canon_Short_nonempty [OF p] by (simp add: fits_def wf_root_def)
  next
    case False
    obtain c y r z s where s: "p = c @ y # r" "?key = c @ z # s" "y \<noteq> z" "length c = prefixLen ?key p"
      using split_common [OF k p False] .
    have "canon (PShort ?key (PVal v))" using k assms(2) by (rule canon.leaf)
    then have b: "canon (pbranch (length c) p t ?key (PVal v))"
      using pbranch_canon p s(3) unfolding s(1,2) by blast
    have "is_nibbles c" using canon_split(1) p s(1) by blast
    then have cn: "canon (pcons c (pbranch (length c) p t ?key (PVal v)))"
      using b by (auto simp: pcons_def pbranch_def intro: canon.ext)
    have "unat y < 17" "unat z < 17"
      using pcons_child [of c y r t] pcons_child [of c z s "PVal v"] p \<open>canon (PShort ?key (PVal v))\<close>
      unfolding s(1,2) by auto
    then have "plookup (pcons c (pbranch (length c) p t ?key (PVal v))) = (plookup (PShort p t))(?key \<mapsto> v)"
      using pbranch_lookup s(3) unfolding s(1,2) by blast
    moreover have "pinsert (PShort p t) ?key (PVal v) = pcons c (pbranch (length c) p t ?key (PVal v))"
      using False s(4) arg_cong [OF s(2), of "take (length c)"] by (simp add: Let_def)
    ultimately show ?thesis using cn k by (auto simp: fits_def wf_root_def)
  qed
next
  case (5 ts x k)
  have k: "termkey (x # k)" and f: "canon (PFull ts)" using fitsD [OF "5.prems"] by (auto simp: wf_root_def)
  note x = fits_Full [OF f k]
  with "5.hyps" have t': "fits (pinsert (ts ! unat x) k (PVal v)) k" "pinsert (ts ! unat x) k (PVal v) \<noteq> PNil"
    "plookup (pinsert (ts ! unat x) k (PVal v)) = (plookup (ts ! unat x))(k \<mapsto> v)" by auto
  have "canon (PFull (ts[unat x := pinsert (ts ! unat x) k (PVal v)]))"
    using f k t'(1,2) by (rule canon_Full_upd)
  with x k plookup_Full_upd [OF t'(3) x(2)] show ?case by (simp add: fits_def wf_root_def)
qed

subsubsection \<open>Deletion\<close>

lemma canon_Full_childD:
  assumes "canon (PFull ts)" "i < 17" "ts ! i \<noteq> PNil"
  shows "i < 16 \<and> canon (ts ! i) \<or> i = 16 \<and> (\<exists>v. v \<noteq> [] \<and> ts ! i = PVal v)"
proof -
  have "i < 16 \<or> i = 16" using assms(2) by auto
  with assms show ?thesis by (auto elim!: canon_FullE)
qed

text \<open>A full node that is left with one entry becomes a short node with the same keys.\<close>

definition preduce :: "ptree list \<Rightarrow> nat \<Rightarrow> ptree" where
  "preduce ts pos =
     (case ts ! pos of
        PShort q u \<Rightarrow> if pos \<noteq> 16 then PShort (word_of_nat pos # q) u else PShort [word_of_nat pos] (PShort q u)
      | c \<Rightarrow> PShort [word_of_nat pos] c)"

lemma preduce_correct:
  assumes c: "pos < 16 \<and> canon (ts ! pos) \<or> pos = 16 \<and> (\<exists>v. v \<noteq> [] \<and> ts ! pos = PVal v)"
    and "length ts = 17" and only: "\<forall>i < 17. i \<noteq> pos \<longrightarrow> ts ! i = PNil"
  shows "canon (preduce ts pos) \<and> plookup (preduce ts pos) = plookup (PFull ts)"
proof
  have n: "word_of_nat pos < (16 :: byte)" if "pos < 16"
    using that by (simp add: word_less_nat_alt unat_of_nat)
  have short: "canon (PShort (word_of_nat pos # q) u)" if "pos < 16" "canon (PShort q u)" for q u
    using n that canon_ShortD [OF that(2)] by (auto intro!: canon.intros simp: termkey_Cons)
  show "canon (preduce ts pos)"
    using c
  proof (elim disjE conjE exE)
    assume "pos < 16" "canon (ts ! pos)"
    then show ?thesis
      using short n by (cases "ts ! pos") (auto simp: preduce_def intro!: canon.ext)
  next
    fix v :: bytes assume "pos = 16" "v \<noteq> []" "ts ! pos = PVal v"
    then show ?thesis by (auto simp: preduce_def termkey_Cons intro!: canon.leaf)
  qed
  show "plookup (preduce ts pos) = plookup (PFull ts)"
  proof (rule map_eqI)
    fix k w
    have pos: "pos < 17" using c by auto
    have "plookup (preduce ts pos) k = Some w \<longleftrightarrow> (\<exists>r. k = word_of_nat pos # r \<and> plookup (ts ! pos) r = Some w)"
      by (cases "ts ! pos") (auto simp: preduce_def plookup_Short_Some)
    also have "\<dots> \<longleftrightarrow> plookup (PFull ts) k = Some w"
    proof
      assume "plookup (PFull ts) k = Some w"
      then obtain x r where k: "k = x # r" "unat x < 17" "plookup (ts ! unat x) r = Some w"
        using assms(2) by (auto simp: plookup_Full_Some)
      then have "unat x = pos" using only by (metis option.distinct(1) plookup.simps(1))
      then show "\<exists>r. k = word_of_nat pos # r \<and> plookup (ts ! pos) r = Some w"
        using k by (auto simp: word_unat_eq_iff)
    qed (use pos assms(2) in \<open>auto simp: unat_of_nat\<close>)
    finally show "plookup (preduce ts pos) k = Some w \<longleftrightarrow> plookup (PFull ts) k = Some w" .
  qed
qed

lemma pdelete_Full:
  assumes "unat x < length ts"
  shows "pdelete (PFull ts) (x # k) =
    (let nn = pdelete (ts ! unat x) k; ts = ts[unat x := nn]; pos = only_loop 0 (map (\<lambda>t. t \<noteq> PNil) ts) (-1) in
     if nn \<noteq> PNil \<or> pos < 0 then PFull ts else preduce ts (nat pos))"
  using assms by (auto simp: Let_def preduce_def of_nat_nat split: ptree.splits)

text \<open>The entries left after one of them is removed: none but \<open>pos\<close>, or at least two.\<close>

lemma remaining_children:
  assumes "canon (PFull ts)" "i < 17"
  obtains pos where "pos < 17" "pos \<noteq> i" "ts ! pos \<noteq> PNil" "\<forall>j < 17. j \<noteq> pos \<longrightarrow> ts[i := PNil] ! j = PNil"
    "only_loop 0 (map (\<lambda>t. t \<noteq> PNil) (ts[i := PNil])) (-1) = int pos"
  | "two_children (ts[i := PNil])" "only_loop 0 (map (\<lambda>t. t \<noteq> PNil) (ts[i := PNil])) (-1) = -2"
proof -
  let ?ts = "ts[i := PNil]"
  have len: "length ts = 17" using assms(1) by (auto elim: canon_FullE)
  from assms(1) obtain a b where "a < b" "b < 17" "ts ! a \<noteq> PNil" "ts ! b \<noteq> PNil"
    by (auto elim!: canon_FullE simp: two_children_def)
  then obtain pos where pos: "pos < 17" "pos \<noteq> i" "ts ! pos \<noteq> PNil"
    by (metis less_trans nat_neq_iff)
  show ?thesis
  proof (cases "\<forall>j < 17. j \<noteq> pos \<longrightarrow> ?ts ! j = PNil")
    case True
    then have "only_loop 0 (map (\<lambda>t. t \<noteq> PNil) ?ts) (-1) = int (0 + pos)"
      using pos len by (intro only_loop_one) auto
    with True pos that(1) show ?thesis by simp
  next
    case False
    then obtain j where j: "j < 17" "j \<noteq> pos" "?ts ! j \<noteq> PNil" by blast
    let ?a = "min j pos" and ?b = "max j pos"
    have ab: "?a < ?b" "?b < 17" "?ts ! ?a \<noteq> PNil" "?ts ! ?b \<noteq> PNil"
      using j pos by (auto simp: min_def max_def)
    then have "only_loop 0 (map (\<lambda>t. t \<noteq> PNil) ?ts) (-1) = -2"
      using len by (intro only_loop_two [of ?a ?b]) auto
    moreover have "two_children ?ts"
      unfolding two_children_def using ab len by (intro exI [of _ ?a] exI [of _ ?b]) simp
    ultimately show ?thesis by (rule that(2) [rotated])
  qed
qed

lemma canon_Full_remove:
  assumes "canon (PFull ts)" "two_children (ts[i := PNil])"
  shows "canon (PFull (ts[i := PNil]))"
proof (rule canon.full)
  have ts: "length ts = 17" "\<forall>i < 16. ts ! i = PNil \<or> canon (ts ! i)"
    "ts ! 16 = PNil \<or> (\<exists>v. v \<noteq> [] \<and> ts ! 16 = PVal v)"
    using assms(1) by (auto elim!: canon_FullE)
  show "\<forall>j < 16. ts[i := PNil] ! j = PNil \<or> canon (ts[i := PNil] ! j)"
  proof (intro allI impI)
    fix j :: nat assume "j < 16"
    with ts show "ts[i := PNil] ! j = PNil \<or> canon (ts[i := PNil] ! j)"
      by (cases "j = i") simp_all
  qed
  show "ts[i := PNil] ! 16 = PNil \<or> (\<exists>v. v \<noteq> [] \<and> ts[i := PNil] ! 16 = PVal v)"
    using ts by (cases "i = 16") auto
qed (use assms canon_FullE in auto)

lemma pdelete_Full_correct:
  assumes f: "canon (PFull ts)" and k: "termkey (x # k)"
    and t': "fits (pdelete (ts ! unat x) k) k" "plookup (pdelete (ts ! unat x) k) = (plookup (ts ! unat x))(k := None)"
  shows "canon (pdelete (PFull ts) (x # k)) \<and>
    plookup (pdelete (PFull ts) (x # k)) = (plookup (PFull ts))(x # k := None)"
proof -
  note x = fits_Full [OF f k]
  have len: "length ts = 17" using f by (auto elim: canon_FullE)
  let ?nn = "pdelete (ts ! unat x) k"
  have lk: "plookup (PFull (ts[unat x := ?nn])) = (plookup (PFull ts))(x # k := None)"
    using plookup_Full_upd [OF t'(2) x(2)] .
  show ?thesis
  proof (cases "?nn = PNil")
    case False
    then show ?thesis
      using canon_Full_upd [OF f k t'(1)] lk x(2) by (simp add: pdelete_Full [OF x(2)] Let_def del: pdelete.simps)
  next
    case True
    show ?thesis
    proof (cases rule: remaining_children [OF f x(2) [unfolded len]])
      case (1 pos)
      let ?ts = "ts[unat x := PNil]"
      have "?ts ! pos = ts ! pos" using 1(2) by simp
      with canon_Full_childD [OF f 1(1,3)] 1(4) len
      have "canon (preduce ?ts pos) \<and> plookup (preduce ?ts pos) = plookup (PFull ?ts)"
        by (intro preduce_correct) auto
      with 1(5) True lk show ?thesis by (simp add: pdelete_Full [OF x(2)] Let_def del: pdelete.simps)
    next
      case 2
      with canon_Full_remove [OF f 2(1)] True lk show ?thesis by (simp add: pdelete_Full [OF x(2)] Let_def del: pdelete.simps)
    qed
  qed
qed

lemma canon_append:
  assumes "is_nibbles p" "canon c" "p \<noteq> []"
  shows "canon (case c of PShort q u \<Rightarrow> PShort (p @ q) u | c \<Rightarrow> PShort p c) \<and>
    plookup (case c of PShort q u \<Rightarrow> PShort (p @ q) u | c \<Rightarrow> PShort p c) = plookup (PShort p c)"
proof (cases c)
  case (PShort q u)
  have "plookup (PShort (p @ q) u) = plookup (PShort p (PShort q u))"
    by (rule map_eqI) (auto simp: plookup_Short_Some)
  with PShort assms canon_ShortD [of q u] show ?thesis
    by (auto simp: termkey_append_nibbles intro!: canon.intros)
qed (use assms in \<open>auto intro: canon.ext\<close>)

lemma pdelete_Short_correct:
  assumes k: "termkey k" and p: "canon (PShort p t)"
    and IH: "\<not> prefixLen k p < length p \<Longrightarrow> prefixLen k p \<noteq> length k \<Longrightarrow> fits t (drop (length p) k) \<Longrightarrow>
      fits (pdelete t (drop (length p) k)) (drop (length p) k) \<and>
      plookup (pdelete t (drop (length p) k)) = (plookup t)(drop (length p) k := None)"
  shows "wf_root (pdelete (PShort p t) k) \<and> plookup (pdelete (PShort p t) k) = (plookup (PShort p t))(k := None)"
proof (cases "prefixLen k p < length p")
  case True
  then have "plookup (PShort p t) k = None"
    using prefixLen_append_left by (metis less_irrefl not_Some_eq plookup_Short_Some)
  with True p show ?thesis by (simp add: wf_root_def fun_upd_idem)
next
  case False
  then have "prefixLen k p = length p" using prefixLen_props(2) [of k p] by simp
  then obtain r where r: "k = p @ r" using prefixLen_props(3) [of k p] by (metis append_take_drop_id take_all order_refl)
  show ?thesis
  proof (cases "r = []")
    case True
    then obtain v where v: "t = PVal v"
      using canon_ShortD [OF p] k r termkey_not_nibbles by auto
    then have "plookup PNil = (plookup (PShort p t))(k := None)"
      using r True by (intro map_eqI) (auto simp: plookup_Short_Some)
    with True r show ?thesis using prefixLen_append_left [of p "[]"] by (simp add: wf_root_def)
  next
    case r0: False
    then obtain ts where ts: "p \<noteq> []" "is_nibbles p" "t = PFull ts" "canon t"
      using canon_ShortD [OF p] k r by (auto simp: termkey_append_term)
    have "fits t r" using fits_Short [OF p] k r by simp
    then have c: "wf_root (pdelete t r)" "plookup (pdelete t r) = (plookup t)(r := None)"
      using IH False r r0 by (auto simp: prefixLen_append_left fits_def)
    obtain q w where "q \<noteq> r" "plookup t q = Some w"
      using canon_Full_keys [of ts] ts by (metis list.inject)
    then have "pdelete t r \<noteq> PNil" using c(2) by (metis fun_upd_apply option.distinct(1) plookup.simps(1))
    then have "canon (pdelete t r)" using c(1) by (simp add: wf_root_def)
    with canon_append [OF ts(2) this ts(1)] plookup_Short_upd [OF c(2), of p] r0 r show ?thesis
      by (simp add: wf_root_def prefixLen_append_left)
  qed
qed

lemma pdelete_correct:
  assumes "fits t k"
  shows "fits (pdelete t k) k \<and> plookup (pdelete t k) = (plookup t)(k := None)"
  using assms
proof (induction t k rule: pdelete.induct)
  case (1 k)
  then show ?case by (auto simp: fun_eq_iff)
next
  case (2 v k)
  then show ?case by (cases k) (auto simp: fits_def wf_root_def fun_eq_iff plookup.simps(2))
next
  case (3 p t k)
  show ?case
  proof (cases "k = []")
    case True
    with "3.prems" show ?thesis by (simp add: fits_def)
  next
    case False
    with "3.prems" have k: "termkey k" and p: "canon (PShort p t)" by (auto simp: fits_def wf_root_def)
    have "wf_root (pdelete (PShort p t) k) \<and> plookup (pdelete (PShort p t) k) = (plookup (PShort p t))(k := None)"
      by (rule pdelete_Short_correct [OF k p]) (rule "3.IH" [OF refl])
    with False k show ?thesis by (simp add: fits_def)
  qed
next
  case (4 ts)
  then show ?case by (simp add: fits_def)
next
  case (5 ts x k)
  have k: "termkey (x # k)" and f: "canon (PFull ts)" using fitsD [OF "5.prems"] by (auto simp: wf_root_def)
  have "canon (pdelete (PFull ts) (x # k)) \<and>
    plookup (pdelete (PFull ts) (x # k)) = (plookup (PFull ts))(x # k := None)"
    using "5.IH" fits_Full [OF f k] by (intro pdelete_Full_correct [OF f k]) blast+
  with k show ?case by (simp add: fits_def wf_root_def del: pdelete.simps)
qed

text \<open>Deleting a key that is not there changes nothing, since the canonical form is unique.\<close>

lemma pdelete_absent:
  assumes "fits t k" "plookup t k = None" "k \<noteq> []"
  shows "pdelete t k = t"
proof (cases "t = PNil")
  case False
  with assms have "canon t" by (auto simp: fits_def wf_root_def)
  moreover have "wf_root (pdelete t k)" "plookup t = plookup (pdelete t k)"
    using pdelete_correct [OF assms(1)] assms by (auto simp: fits_def fun_upd_idem)
  ultimately show ?thesis using canon_unique by metis
qed simp

end
