(* ===== verification/Trie.thy ===== *)
theory Trie
  imports Trie_Spec
begin

section \<open>Package trie: nodes and the operations of a trie\<close>

text \<open>
  \<^verbatim>\<open>src/trie/node.go\<close> and \<^verbatim>\<open>src/trie/trie.go\<close>. Nodes have the constructors of the code, with the cache flags and with hash
  nodes that stand for subtries that are not loaded; \<open>NilNode\<close> is the nil interface. The database is
  a function from hashes to nodes, an argument of the operations (\<^verbatim>\<open>t.db.node\<close>). The recursion through
  loaded nodes is bounded by fuel; \<open>Err TriePanic\<close> is a run-time panic. The relation \<open>expands\<close> relates a node
  to the abstract trie it stands for when hash nodes are resolved, and the simulation lemmas show that
  the operations refine those of \<open>Trie_Spec\<close>, never panic and end within twice the length of the key.
\<close>

record nodeFlag =
  fl_hash :: "bytes option"
  fl_dirty :: bool

datatype node =
    NilNode
  | ValueNode bytes
  | HashNode bytes
  | ShortNode bytes node nodeFlag
  | FullNode "node list" nodeFlag

datatype trie_error = MissingNodeError bytes bytes | TriePanic

type_synonym node_db = "bytes \<Rightarrow> node option"

definition BytesToHash :: "bytes \<Rightarrow> bytes" where
  "BytesToHash b =
     (let b = (if length b > 32 then drop (length b - 32) b else b) in replicate (32 - length b) 0 @ b)"

definition newFlag :: nodeFlag where
  "newFlag = \<lparr>fl_hash = None, fl_dirty = True\<rparr>"

definition resolveHash :: "node_db \<Rightarrow> bytes \<Rightarrow> bytes \<Rightarrow> (trie_error, node) run" where
  "resolveHash db n pre =
     (let hash = BytesToHash n in
      case db hash of Some node \<Rightarrow> Ok node | None \<Rightarrow> Err (MissingNodeError hash pre))"

definition resolve :: "node_db \<Rightarrow> node \<Rightarrow> bytes \<Rightarrow> (trie_error, node) run" where
  "resolve db n pre = (case n of HashNode h \<Rightarrow> resolveHash db h pre | _ \<Rightarrow> Ok n)"

subsection \<open>Reading\<close>

fun tryGet :: "node_db \<Rightarrow> nat \<Rightarrow> node \<Rightarrow> bytes \<Rightarrow> nat \<Rightarrow> (trie_error, bytes option \<times> node \<times> bool) run" where
  "tryGet db 0 n key pos = OutOfFuel"
| "tryGet db (Suc fuel) n key pos =
     (case n of
        NilNode \<Rightarrow> Ok (None, NilNode, False)
      | ValueNode v \<Rightarrow> Ok (Some v, n, False)
      | ShortNode k val fl \<Rightarrow>
          if length key < pos + length k \<or> k \<noteq> take (length k) (drop pos key) then Ok (None, n, False)
          else
            bindr (tryGet db fuel val key (pos + length k)) (\<lambda>(v, newnode, didResolve).
              Ok (v, if didResolve then ShortNode k newnode fl else n, didResolve))
      | FullNode children fl \<Rightarrow>
          if pos < length key \<and> unat (key ! pos) < length children then
            bindr (tryGet db fuel (children ! unat (key ! pos)) key (pos + 1)) (\<lambda>(v, newnode, didResolve).
              Ok (v, if didResolve then FullNode (children[unat (key ! pos) := newnode]) fl else n, didResolve))
          else Err TriePanic
      | HashNode h \<Rightarrow>
          bindr (resolveHash db h (take pos key)) (\<lambda>child.
            bindr (tryGet db fuel child key pos) (\<lambda>(v, newnode, _). Ok (v, newnode, True))))"

subsection \<open>Writing\<close>

fun insert_node ::
  "node_db \<Rightarrow> nat \<Rightarrow> node \<Rightarrow> bytes \<Rightarrow> bytes \<Rightarrow> node \<Rightarrow> (trie_error, bool \<times> node) run" where
  "insert_node db 0 n pre key val = OutOfFuel"
| "insert_node db (Suc fuel) n pre key val =
     (if length key = 0 then
        (case n of
           ValueNode v \<Rightarrow> (case val of ValueNode w \<Rightarrow> Ok (v \<noteq> w, val) | _ \<Rightarrow> Err TriePanic)
         | _ \<Rightarrow> Ok (True, val))
      else
        (case n of
           ShortNode k v fl \<Rightarrow>
             (let matchlen = prefixLen key k in
              if matchlen = length k then
                bindr (insert_node db fuel v (pre @ take matchlen key) (drop matchlen key) val) (\<lambda>(dirty, nn).
                  if \<not> dirty then Ok (False, n) else Ok (True, ShortNode k nn newFlag))
              else if matchlen < length key \<and> unat (k ! matchlen) < 17 \<and> unat (key ! matchlen) < 17 then
                bindr (insert_node db fuel NilNode (pre @ take (matchlen + 1) k) (drop (matchlen + 1) k) v) (\<lambda>(_, c1).
                bindr (insert_node db fuel NilNode (pre @ take (matchlen + 1) key) (drop (matchlen + 1) key) val) (\<lambda>(_, c2).
                  let branch = FullNode ((replicate 17 NilNode)
                        [unat (k ! matchlen) := c1, unat (key ! matchlen) := c2]) newFlag in
                  if matchlen = 0 then Ok (True, branch)
                  else Ok (True, ShortNode (take matchlen key) branch newFlag)))
              else Err TriePanic)
         | FullNode children fl \<Rightarrow>
             if unat (key ! 0) < length children then
               bindr (insert_node db fuel (children ! unat (key ! 0)) (pre @ [key ! 0]) (drop 1 key) val) (\<lambda>(dirty, nn).
                 if \<not> dirty then Ok (False, n)
                 else Ok (True, FullNode (children[unat (key ! 0) := nn]) newFlag))
             else Err TriePanic
         | NilNode \<Rightarrow> Ok (True, ShortNode key val newFlag)
         | HashNode h \<Rightarrow>
             bindr (resolveHash db h pre) (\<lambda>rn.
               bindr (insert_node db fuel rn pre key val) (\<lambda>(dirty, nn).
                 if \<not> dirty then Ok (False, rn) else Ok (True, nn)))
         | ValueNode v \<Rightarrow> Err TriePanic))"

fun delete_node :: "node_db \<Rightarrow> nat \<Rightarrow> node \<Rightarrow> bytes \<Rightarrow> bytes \<Rightarrow> (trie_error, bool \<times> node) run" where
  "delete_node db 0 n pre key = OutOfFuel"
| "delete_node db (Suc fuel) n pre key =
     (case n of
        ShortNode k v fl \<Rightarrow>
          (let matchlen = prefixLen key k in
           if matchlen < length k then Ok (False, n)
           else if matchlen = length key then Ok (True, NilNode)
           else
             bindr (delete_node db fuel v (pre @ take (length k) key) (drop (length k) key)) (\<lambda>(dirty, child).
               if \<not> dirty then Ok (False, n)
               else
                 (case child of
                    ShortNode ck cv cfl \<Rightarrow> Ok (True, ShortNode (k @ ck) cv newFlag)
                  | _ \<Rightarrow> Ok (True, ShortNode k child newFlag))))
      | FullNode children fl \<Rightarrow>
          if 0 < length key \<and> unat (key ! 0) < length children then
            bindr (delete_node db fuel (children ! unat (key ! 0)) (pre @ [key ! 0]) (drop 1 key)) (\<lambda>(dirty, nn).
              if \<not> dirty then Ok (False, n)
              else
                (let children = children[unat (key ! 0) := nn] in
                 if nn \<noteq> NilNode then Ok (True, FullNode children newFlag)
                 else
                   (let pos = only_loop 0 (map (\<lambda>cld. cld \<noteq> NilNode) children) (-1) in
                    if pos \<ge> 0 then
                      (if pos \<noteq> 16 then
                         bindr (resolve db (children ! nat pos) pre) (\<lambda>cnode.
                           case cnode of
                             ShortNode ck cv cfl \<Rightarrow> Ok (True, ShortNode (word_of_int pos # ck) cv newFlag)
                           | _ \<Rightarrow> Ok (True, ShortNode [word_of_int pos] (children ! nat pos) newFlag))
                       else Ok (True, ShortNode [word_of_int pos] (children ! nat pos) newFlag))
                    else Ok (True, FullNode children newFlag))))
          else Err TriePanic
      | ValueNode v \<Rightarrow> Ok (True, NilNode)
      | NilNode \<Rightarrow> Ok (False, NilNode)
      | HashNode h \<Rightarrow>
          bindr (resolveHash db h pre) (\<lambda>rn.
            bindr (delete_node db fuel rn pre key) (\<lambda>(dirty, nn).
              if \<not> dirty then Ok (False, rn) else Ok (True, nn))))"

subsection \<open>The trie\<close>

record trie =
  t_root :: node
  t_unhashed :: nat

definition TryGet :: "node_db \<Rightarrow> nat \<Rightarrow> trie \<Rightarrow> bytes \<Rightarrow> (trie_error, bytes option) run \<times> trie" where
  "TryGet db fuel t key =
     (case tryGet db fuel (t_root t) (keybytesToHex key) 0 of
        Ok (v, newroot, didResolve) \<Rightarrow> (Ok v, if didResolve then t\<lparr>t_root := newroot\<rparr> else t)
      | Err e \<Rightarrow> (Err e, t)
      | OutOfFuel \<Rightarrow> (OutOfFuel, t))"

text \<open>The end of \<^verbatim>\<open>TryUpdate\<close> and \<^verbatim>\<open>TryDelete\<close>: the new root is kept unless there was an error.\<close>

definition set_root :: "trie \<Rightarrow> (trie_error, bool \<times> node) run \<Rightarrow> (trie_error, unit) run \<times> trie" where
  "set_root t r =
     (case r of Ok (_, n) \<Rightarrow> (Ok (), t\<lparr>t_root := n\<rparr>) | Err e \<Rightarrow> (Err e, t) | OutOfFuel \<Rightarrow> (OutOfFuel, t))"

definition TryUpdate :: "node_db \<Rightarrow> nat \<Rightarrow> trie \<Rightarrow> bytes \<Rightarrow> bytes \<Rightarrow> (trie_error, unit) run \<times> trie" where
  "TryUpdate db fuel t key val =
     (let t = t\<lparr>t_unhashed := t_unhashed t + 1\<rparr>; k = keybytesToHex key in
      if length val \<noteq> 0 then set_root t (insert_node db fuel (t_root t) [] k (ValueNode val))
      else set_root t (delete_node db fuel (t_root t) [] k))"

definition TryDelete :: "node_db \<Rightarrow> nat \<Rightarrow> trie \<Rightarrow> bytes \<Rightarrow> (trie_error, unit) run \<times> trie" where
  "TryDelete db fuel t key =
     (let t = t\<lparr>t_unhashed := t_unhashed t + 1\<rparr>; k = keybytesToHex key in
      set_root t (delete_node db fuel (t_root t) [] k))"

definition trie_Reset :: "trie \<Rightarrow> trie" where
  "trie_Reset t = t\<lparr>t_root := NilNode, t_unhashed := 0\<rparr>"

subsection \<open>The abstract trie of a node\<close>

text \<open>
  \<open>expands ok db P n t\<close>: the node \<open>n\<close> stands for the abstract trie \<open>t\<close>, with hash nodes resolved in \<open>db\<close>.
  A hash, cached in a node or in the place of one, satisfies \<open>ok\<close> with respect to the subtrie; the one at the
  root of \<open>n\<close> satisfies \<open>P\<close>.
\<close>

definition flag_ok :: "(ptree \<Rightarrow> bytes \<Rightarrow> bool) \<Rightarrow> ptree \<Rightarrow> nodeFlag \<Rightarrow> bool" where
  "flag_ok P t fl \<longleftrightarrow> (\<forall>h. fl_hash fl = Some h \<longrightarrow> P t h)"

fun inner :: "node \<Rightarrow> bool" where
  "inner (ShortNode k n fl) = True"
| "inner (FullNode cs fl) = True"
| "inner _ = False"

inductive expands :: "(ptree \<Rightarrow> bytes \<Rightarrow> bool) \<Rightarrow> node_db \<Rightarrow> (ptree \<Rightarrow> bytes \<Rightarrow> bool) \<Rightarrow> node \<Rightarrow> ptree \<Rightarrow> bool"
  for ok db where
  nil: "expands ok db P NilNode PNil"
| val: "expands ok db P (ValueNode v) (PVal v)"
| short: "expands ok db ok n t \<Longrightarrow> flag_ok P (PShort k t) fl \<Longrightarrow> expands ok db P (ShortNode k n fl) (PShort k t)"
| full: "list_all2 (expands ok db ok) cs ts \<Longrightarrow> flag_ok P (PFull ts) fl \<Longrightarrow> expands ok db P (FullNode cs fl) (PFull ts)"
| hash: "db (BytesToHash h) = Some n \<Longrightarrow> inner n \<Longrightarrow> P t h \<Longrightarrow> expands ok db P n t \<Longrightarrow> expands ok db P (HashNode h) t"

inductive_cases expands_NilE: "expands ok db P NilNode t"

inductive_cases expands_ValE: "expands ok db P (ValueNode v) t"

inductive_cases expands_ShortE: "expands ok db P (ShortNode k n fl) t"

inductive_cases expands_FullE: "expands ok db P (FullNode cs fl) t"

inductive_cases expands_HashE: "expands ok db P (HashNode h) t"

lemma flag_ok_new [simp]: "flag_ok P t newFlag"
  by (simp add: flag_ok_def newFlag_def)

lemma expands_inner: "expands ok db P n t \<Longrightarrow> inner n \<Longrightarrow> (\<exists>p u. t = PShort p u) \<or> (\<exists>ts. t = PFull ts)"
  by (induction rule: expands.induct) auto

lemma expands_Hash_inner: "expands ok db P (HashNode h) t \<Longrightarrow> (\<exists>p u. t = PShort p u) \<or> (\<exists>ts. t = PFull ts)"
  by (auto elim!: expands_HashE dest: expands_inner)

lemma expands_PNil_iff: "expands ok db P n t \<Longrightarrow> t = PNil \<longleftrightarrow> n = NilNode"
  by (erule expands.cases) (auto dest: expands_inner)

text \<open>The fuel an operation needs at a node when \<open>l\<close> nibbles of the key are left.\<close>

definition fuel_for :: "node \<Rightarrow> nat \<Rightarrow> nat" where
  "fuel_for n l = 2 * l + (case n of HashNode _ \<Rightarrow> 2 | _ \<Rightarrow> 1)"

lemma fuel_for_le: "fuel_for n l \<le> 2 * l + 2"
  by (cases n) (auto simp: fuel_for_def)

lemma fuel_for_pos: "fuel_for n l \<le> fuel \<Longrightarrow> \<exists>f. fuel = Suc f \<and> 2 * l \<le> f"
  by (cases fuel; cases n) (auto simp: fuel_for_def)

lemma fuel_for_child: "m < l \<Longrightarrow> 2 * l \<le> f \<Longrightarrow> fuel_for n m \<le> f"
  using fuel_for_le [of n m] by simp

lemma fuel_for_resolved: "inner n \<Longrightarrow> fuel_for (HashNode h) l \<le> Suc f \<Longrightarrow> fuel_for n l \<le> f"
  by (cases n) (auto simp: fuel_for_def)

subsection \<open>Simulation: reading\<close>

lemma expands_child:
  "list_all2 (expands ok db ok) cs ts \<Longrightarrow> i < length ts \<Longrightarrow> expands ok db ok (cs ! i) (ts ! i)"
  by (simp add: list_all2_conv_all_nth)

lemma tryGet_sim:
  assumes "expands ok db P n t" "fits t (drop pos key)" "pos \<le> length key"
    "fuel_for n (length key - pos) \<le> fuel"
  shows "\<exists>n' d. tryGet db fuel n key pos = Ok (plookup t (drop pos key), n', d) \<and> expands ok db P n' t"
  using assms
proof (induction fuel arbitrary: n t pos P)
  case 0
  then show ?case using fuel_for_pos by fastforce
next
  case (Suc f)
  have f: "2 * (length key - pos) \<le> f" using fuel_for_pos [OF Suc.prems(4)] by simp
  show ?case
    using Suc.prems(1)
  proof (cases rule: expands.cases)
    case nil
    then show ?thesis by (auto intro: expands.nil)
  next
    case (val v)
    then have "drop pos key = []" using Suc.prems(2) by (auto simp: fits_def wf_root_def split: if_splits)
    with val show ?thesis by (auto simp: plookup.simps intro: expands.val)
  next
    case (short m u k fl)
    have "drop pos key \<noteq> []" using Suc.prems(2) short by (auto simp: fits_def split: if_splits)
    then have c: "canon (PShort k u)" and tk: "termkey (drop pos key)"
      using fitsD [OF Suc.prems(2)] short by (auto simp: wf_root_def)
    show ?thesis
    proof (cases "\<exists>r. drop pos key = k @ r")
      case False
      then have "length key < pos + length k \<or> k \<noteq> take (length k) (drop pos key)"
        by (metis append_take_drop_id)
      moreover have "plookup t (drop pos key) = None"
        using False short by (metis not_Some_eq plookup_Short_Some)
      ultimately show ?thesis using short Suc.prems(1) by auto
    next
      case True
      then obtain r where r: "drop pos key = k @ r" by blast
      have "length key - pos = length k + length r" using arg_cong [OF r, of length] by simp
      with r have len: "pos + length k \<le> length key" "take (length k) (drop pos key) = k"
        using Suc.prems(3) by auto
      have dr: "drop (pos + length k) key = r" using r by (metis add.commute append_eq_conv_conj drop_drop)
      have "fits u r" using fits_Short [OF c] tk r by simp
      moreover have "length key - (pos + length k) < length key - pos"
        using len canon_Short_nonempty [OF c] by (cases k) auto
      ultimately obtain n' d where "tryGet db f m key (pos + length k) = Ok (plookup u r, n', d)" "expands ok db ok n' u"
        using Suc.IH [of ok m u "pos + length k"] short fuel_for_child [OF _ f] len dr by metis
      with short len r show ?thesis by (auto intro: expands.short)
    qed
  next
    case (full cs ts fl)
    have "drop pos key \<noteq> []" using Suc.prems(2) full by (auto simp: fits_def split: if_splits)
    then have lt: "pos < length key" by simp
    then have dr: "drop pos key = key ! pos # drop (pos + 1) key" by (simp add: Cons_nth_drop_Suc)
    have c: "canon (PFull ts)" and tk: "termkey (key ! pos # drop (pos + 1) key)"
      using fitsD [OF Suc.prems(2)] full dr by (auto simp: wf_root_def)
    note x = fits_Full [OF c tk]
    have ex: "expands ok db ok (cs ! unat (key ! pos)) (ts ! unat (key ! pos))"
      using expands_child full x(2) by blast
    have "length key - (pos + 1) < length key - pos" using lt by simp
    then obtain n' d where g: "tryGet db f (cs ! unat (key ! pos)) key (pos + 1) =
        Ok (plookup (ts ! unat (key ! pos)) (drop (pos + 1) key), n', d)" "expands ok db ok n' (ts ! unat (key ! pos))"
      using Suc.IH [OF ex, of "pos + 1"] x(1) fuel_for_child [OF _ f] lt by auto
    have l: "length cs = length ts" using full(3) by (rule list_all2_lengthD)
    have "list_all2 (expands ok db ok) (cs[unat (key ! pos) := n']) ts"
      using list_all2_update_cong [OF full(3) g(2), of "unat (key ! pos)"] by simp
    with g full lt x(2) dr l show ?thesis by (auto intro: expands.full)
  next
    case (hash h m)
    obtain n' d where "tryGet db f m key pos = Ok (plookup t (drop pos key), n', d)" "expands ok db P n' t"
      using Suc.IH [OF hash(5) Suc.prems(2,3)] Suc.prems(4) hash fuel_for_resolved by blast
    with hash show ?thesis by (auto simp: resolveHash_def)
  qed
qed

subsection \<open>Simulation: insertion\<close>

lemma insert_node_Nil:
  assumes "0 < fuel"
  shows "insert_node db fuel NilNode pre k v = Ok (True, if k = [] then v else ShortNode k v newFlag)"
  using assms by (cases fuel) auto

lemma expands_pcons:
  "expands ok db ok n t \<Longrightarrow> expands ok db ok (if k = [] then n else ShortNode k n newFlag) (pcons k t)"
  by (auto simp: pcons_def intro: expands.short)

lemma expands_branch:
  assumes "expands ok db ok a t" "expands ok db ok b u"
  shows "list_all2 (expands ok db ok) ((replicate 17 NilNode)[i := a, j := b]) ((replicate 17 PNil)[i := t, j := u])"
proof -
  have "list_all2 (expands ok db ok) (replicate 17 NilNode) (replicate 17 PNil)"
    by (simp add: list_all2_conv_all_nth expands.nil)
  with assms show ?thesis by (intro list_all2_update_cong)
qed

lemma insert_short_split:
  assumes "expands ok db ok m u" "canon (PShort k u)" "termkey key" "prefixLen key k \<noteq> length k"
    and f: "2 * length key \<le> f" and v: "v \<noteq> []"
  shows "\<exists>n'. insert_node db (Suc f) (ShortNode k m fl) pre key (ValueNode v) = Ok (True, n') \<and>
    expands ok db P n' (pinsert (PShort k u) key (PVal v))"
proof -
  obtain c y r z s where s: "k = c @ y # r" "key = c @ z # s" "y \<noteq> z" "length c = prefixLen key k"
    using split_common [OF assms(3,2,4)] .
  have "key \<noteq> []" using s(2) by simp
  then obtain x ks where key: "key = x # ks" by (cases key) auto
  have f0: "0 < f" using f key by simp
  have lt: "unat y < 17" "unat z < 17"
    using pcons_child [of c y r u] pcons_child [of c z s "PVal v"] assms(2) canon.leaf [OF assms(3) v] s by auto
  let ?a = "if r = [] then m else ShortNode r m newFlag"
  let ?b = "if s = [] then ValueNode v else ShortNode s (ValueNode v) newFlag"
  let ?br = "FullNode ((replicate 17 NilNode)[unat y := ?a, unat z := ?b]) newFlag"
  have br: "expands ok db Q ?br (pbranch (length c) k u key (PVal v))" for Q
    unfolding pbranch_def s(1,2)
    using expands_branch [OF expands_pcons [OF assms(1), where k = r] expands_pcons [OF expands.val, where k = s]]
    by (auto simp: nth_append intro: expands.full)
  have pin: "pinsert (PShort k u) key (PVal v) = pcons c (pbranch (length c) k u key (PVal v))"
    using assms(4) s(4) arg_cong [OF s(2), of "take (length c)"] by (simp add: key Let_def)
  have ins: "insert_node db (Suc f) (ShortNode k m fl) pre key (ValueNode v) =
      Ok (True, if c = [] then ?br else ShortNode c ?br newFlag)"
  proof -
    have m: "prefixLen key k = length c" "length c \<noteq> length k" "length c < length key" "length key \<noteq> 0"
      "k ! length c = y" "key ! length c = z" "drop (length c + 1) k = r" "drop (length c + 1) key = s"
      "take (length c) key = c"
      using s by (auto simp: nth_append)
    show ?thesis
      using \<open>key \<noteq> []\<close> by (simp add: m(2-4,6-) m(1,5) lt insert_node_Nil [OF f0] Let_def del: One_nat_def)
  qed
  show ?thesis
    unfolding pin ins using br by (auto simp: pcons_def intro: expands.short)
qed

lemma insert_sim:
  assumes "expands ok db P n t" "fits t key" "v \<noteq> []" "fuel_for n (length key) \<le> fuel"
  shows "\<exists>d n'. insert_node db fuel n pre key (ValueNode v) = Ok (d, n') \<and>
    expands ok db P n' (pinsert t key (PVal v)) \<and> (\<not> d \<longrightarrow> pinsert t key (PVal v) = t)"
  using assms
proof (induction fuel arbitrary: n t key P pre)
  case 0
  then show ?case using fuel_for_pos by fastforce
next
  case (Suc f)
  have f: "2 * length key \<le> f" using fuel_for_pos [OF Suc.prems(4)] by simp
  show ?case
  proof (cases "key = []")
    case True
    with Suc.prems(1,2) show ?thesis
      by (cases rule: expands.cases) (auto simp: fits_def dest: expands_inner intro: expands.val)
  next
    case False
    then have tk: "termkey key" and wf: "wf_root t" using fitsD [OF Suc.prems(2)] by auto
    obtain x ks where key: "key = x # ks" using False by (cases key) auto
    show ?thesis
      using Suc.prems(1)
    proof (cases rule: expands.cases)
      case nil
      have "insert_node db (Suc f) n pre key (ValueNode v) = Ok (True, ShortNode key (ValueNode v) newFlag)"
        using nil key by simp
      moreover have "expands ok db P (ShortNode key (ValueNode v) newFlag) (pinsert t key (PVal v))"
        unfolding nil key pinsert.simps by (rule expands.short [OF expands.val]) simp
      ultimately show ?thesis by blast
    next
      case (val w)
      with wf show ?thesis by (simp add: wf_root_def)
    next
      case (short m u k fl)
      then have c: "canon (PShort k u)" using wf by (simp add: wf_root_def)
      show ?thesis
      proof (cases "prefixLen key k = length k")
        case False
        with insert_short_split [OF short(3) c tk False f Suc.prems(3), of fl pre P] short show ?thesis by blast
      next
        case True
        then have "take (length k) key = k" using prefixLen_props(3) [of key k] by simp
        then obtain r where r: "key = k @ r" by (metis append_take_drop_id)
        have "fits u r" using fits_Short [OF c] tk r by simp
        moreover have "length r < length key" using r canon_Short_nonempty [OF c] by simp
        ultimately obtain d n' where ih: "insert_node db f m (pre @ k) r (ValueNode v) = Ok (d, n')"
          "expands ok db ok n' (pinsert u r (PVal v))" "\<not> d \<longrightarrow> pinsert u r (PVal v) = u"
          using Suc.IH [OF short(3) _ Suc.prems(3) fuel_for_child [OF _ f]] by blast
        have "pinsert (PShort k u) key (PVal v) = PShort k (pinsert u r (PVal v))"
          using True key by (simp add: Let_def, simp add: r flip: key)
        moreover have "insert_node db (Suc f) n pre key (ValueNode v) = (if d then Ok (True, ShortNode k n' newFlag) else Ok (False, n))"
          using short True r False ih(1) by simp
        moreover have "expands ok db P (ShortNode k n' newFlag) (PShort k (pinsert u r (PVal v)))"
          using ih(2) by (rule expands.short) simp
        ultimately show ?thesis
          using ih(3) short Suc.prems(1) by (cases d) (auto simp del: insert_node.simps pinsert.simps)
      qed
    next
      case (full cs ts fl)
      have c: "canon (PFull ts)" using wf full by (simp add: wf_root_def)
      note x = fits_Full [OF c tk [unfolded key]]
      have l: "length cs = length ts" using full(3) by (rule list_all2_lengthD)
      obtain d n' where ih: "insert_node db f (cs ! unat x) (pre @ [x]) ks (ValueNode v) = Ok (d, n')"
        "expands ok db ok n' (pinsert (ts ! unat x) ks (PVal v))"
        "\<not> d \<longrightarrow> pinsert (ts ! unat x) ks (PVal v) = ts ! unat x"
        using Suc.IH [OF expands_child [OF full(3) x(2)] x(1) Suc.prems(3) fuel_for_child [OF _ f]]
        unfolding key by fastforce
      have "list_all2 (expands ok db ok) (cs[unat x := n']) (ts[unat x := pinsert (ts ! unat x) ks (PVal v)])"
        using full(3) ih(2) by (rule list_all2_update_cong)
      then have "expands ok db P (FullNode (cs[unat x := n']) newFlag) (pinsert t key (PVal v))"
        unfolding full key using x(2) by (simp add: expands.full)
      moreover have "insert_node db (Suc f) n pre key (ValueNode v) =
          (if d then Ok (True, FullNode (cs[unat x := n']) newFlag) else Ok (False, n))"
        using full key x(2) ih(1) l by simp
      moreover have "pinsert t key (PVal v) = t" if "\<not> d"
        using that ih(3) x(2) by (simp add: full key)
      ultimately show ?thesis
        using Suc.prems(1) by (cases d) (auto simp del: insert_node.simps pinsert.simps)
    next
      case (hash h m)
      obtain d n' where "insert_node db f m pre key (ValueNode v) = Ok (d, n')"
        "expands ok db P n' (pinsert t key (PVal v))" "\<not> d \<longrightarrow> pinsert t key (PVal v) = t"
        using Suc.IH [OF hash(5) Suc.prems(2,3)] Suc.prems(4) hash fuel_for_resolved by blast
      moreover then have "insert_node db (Suc f) n pre key (ValueNode v) = (if d then Ok (True, n') else Ok (False, m))"
        using hash key by (simp add: resolveHash_def)
      ultimately show ?thesis using hash by (cases d) auto
    qed
  qed
qed

subsection \<open>Simulation: deletion\<close>

text \<open>The reduction of a full node with the single entry \<open>pos\<close>; the entry is loaded only to look at it.\<close>

definition reduce_full :: "node_db \<Rightarrow> node list \<Rightarrow> nat \<Rightarrow> bytes \<Rightarrow> (trie_error, bool \<times> node) run" where
  "reduce_full db cs pos pre =
     (if pos \<noteq> 16 then
        bindr (resolve db (cs ! pos) pre) (\<lambda>cnode.
          case cnode of
            ShortNode ck cv cfl \<Rightarrow> Ok (True, ShortNode (word_of_nat pos # ck) cv newFlag)
          | _ \<Rightarrow> Ok (True, ShortNode [word_of_nat pos] (cs ! pos) newFlag))
      else Ok (True, ShortNode [word_of_nat pos] (cs ! pos) newFlag))"

lemma reduce_full_sim:
  assumes e: "expands ok db ok (cs ! pos) (ts ! pos)"
  shows "\<exists>n'. reduce_full db cs pos pre = Ok (True, n') \<and> expands ok db P n' (preduce ts pos) \<and> inner n'"
proof -
  have keep: "expands ok db P (ShortNode [word_of_nat pos] (cs ! pos) newFlag) (PShort [word_of_nat pos] (ts ! pos))"
    using e by (auto intro: expands.short)
  show ?thesis
  proof (cases "pos = 16")
    case True
    with keep show ?thesis by (cases "ts ! pos") (auto simp: reduce_full_def preduce_def)
  next
    case False
    obtain c where c: "resolve db (cs ! pos) pre = Ok c" "expands ok db ok c (ts ! pos)" "\<nexists>h. c = HashNode h"
    proof (cases "cs ! pos")
      case (HashNode h)
      with e obtain n where "db (BytesToHash h) = Some n" "inner n" "expands ok db ok n (ts ! pos)"
        by (auto elim: expands_HashE)
      with HashNode that [of n] show ?thesis by (cases n) (auto simp: resolve_def resolveHash_def)
    qed (use e that [of "cs ! pos"] in \<open>auto simp: resolve_def\<close>)
    show ?thesis
      using c(2)
    proof (cases rule: expands.cases)
      case (short m u k fl)
      then have "expands ok db P (ShortNode (word_of_nat pos # k) m newFlag) (PShort (word_of_nat pos # k) u)"
        by (auto intro: expands.short)
      with short False c(1) show ?thesis by (simp add: reduce_full_def preduce_def)
    qed (use keep False c in \<open>auto simp: reduce_full_def preduce_def\<close>)
  qed
qed

lemma delete_node_Full:
  assumes "key = x # ks" "unat x < length cs" "delete_node db f (cs ! unat x) (pre @ [x]) ks = Ok (d, nn)"
  shows "delete_node db (Suc f) (FullNode cs fl) pre key =
    (let cs' = cs[unat x := nn]; pos = only_loop 0 (map (\<lambda>cld. cld \<noteq> NilNode) cs') (-1) in
     if \<not> d then Ok (False, FullNode cs fl)
     else if nn \<noteq> NilNode \<or> pos < 0 then Ok (True, FullNode cs' newFlag)
     else reduce_full db cs' (nat pos) pre)"
  using assms by (auto simp: Let_def reduce_full_def of_nat_nat)

lemma delete_full_sim:
  assumes e: "expands ok db P (FullNode cs fl) (PFull ts)" and c: "canon (PFull ts)" and tk: "termkey (x # ks)"
    and ih: "delete_node db f (cs ! unat x) (pre @ [x]) ks = Ok (d, nn)"
      "expands ok db ok nn (pdelete (ts ! unat x) ks)" "\<not> d \<longrightarrow> pdelete (ts ! unat x) ks = ts ! unat x"
  shows "\<exists>d n'. delete_node db (Suc f) (FullNode cs fl) pre (x # ks) = Ok (d, n') \<and>
    expands ok db P n' (pdelete (PFull ts) (x # ks)) \<and> (\<not> d \<longrightarrow> pdelete (PFull ts) (x # ks) = PFull ts) \<and>
    (d \<longrightarrow> inner n' \<or> n' = NilNode)"
proof -
  note x = fits_Full [OF c tk]
  have all: "list_all2 (expands ok db ok) cs ts" using e by (auto elim: expands_FullE)
  have l: "length cs = length ts" "length ts = 17" using all c by (auto dest: list_all2_lengthD elim: canon_FullE)
  let ?cs = "cs[unat x := nn]" and ?ts = "ts[unat x := pdelete (ts ! unat x) ks]"
  have all': "list_all2 (expands ok db ok) ?cs ?ts" using all ih(2) by (rule list_all2_update_cong)
  have ef: "expands ok db P (FullNode ?cs newFlag) (PFull ?ts)" using all' by (rule expands.full) simp
  have nils: "map (\<lambda>c. c \<noteq> NilNode) ?cs = map (\<lambda>t. t \<noteq> PNil) ?ts"
    using all' expands_PNil_iff by (intro nth_equalityI) (auto simp: list_all2_conv_all_nth)
  have nn: "nn = NilNode \<longleftrightarrow> pdelete (ts ! unat x) ks = PNil" using expands_PNil_iff [OF ih(2)] by simp
  let ?pos = "only_loop 0 (map (\<lambda>t. t \<noteq> PNil) ?ts) (-1)"
  have del: "delete_node db (Suc f) (FullNode cs fl) pre (x # ks) =
      (if \<not> d then Ok (False, FullNode cs fl)
       else if nn \<noteq> NilNode \<or> ?pos < 0 then Ok (True, FullNode ?cs newFlag) else reduce_full db ?cs (nat ?pos) pre)"
    using delete_node_Full [OF refl x(2) [folded l(1)] ih(1), of fl] unfolding Let_def nils .
  have spec: "pdelete (PFull ts) (x # ks) = (if nn \<noteq> NilNode \<or> ?pos < 0 then PFull ?ts else preduce ?ts (nat ?pos))"
    using pdelete_Full [OF x(2), of ks] nn by (simp add: Let_def del: pdelete.simps)
  show ?thesis
  proof (cases d)
    case False
    then have "plookup (ts ! unat x) ks = None"
      using ih(3) pdelete_correct [OF x(1)] by (metis fun_upd_same)
    then have "pdelete (PFull ts) (x # ks) = PFull ts"
      using pdelete_absent [of "PFull ts" "x # ks"] c tk x(2) by (simp add: fits_def wf_root_def del: pdelete.simps)
    with False e del show ?thesis by (auto simp del: pdelete.simps delete_node.simps)
  next
    case d: True
    show ?thesis
    proof (cases "nn = NilNode")
      case False
      with d del spec ef show ?thesis by (auto simp del: pdelete.simps delete_node.simps)
    next
      case True
      then have ts: "?ts = ts[unat x := PNil]" using nn by simp
      show ?thesis
      proof (cases rule: remaining_children [OF c x(2) [unfolded l]])
        case (1 p)
        have "expands ok db ok (?cs ! p) (?ts ! p)" using all' 1(1) l by (intro expands_child) auto
        from reduce_full_sim [OF this, of pre P] obtain n' where
          "reduce_full db ?cs p pre = Ok (True, n')" "expands ok db P n' (preduce ?ts p)" "inner n'" by blast
        with d True 1(5) del spec ts show ?thesis by (auto simp del: pdelete.simps delete_node.simps)
      next
        case 2
        with d True del spec ts ef show ?thesis by (auto simp del: pdelete.simps delete_node.simps)
      qed
    qed
  qed
qed

lemma delete_sim:
  assumes "expands ok db P n t" "fits t key" "fuel_for n (length key) \<le> fuel"
  shows "\<exists>d n'. delete_node db fuel n pre key = Ok (d, n') \<and> expands ok db P n' (pdelete t key) \<and>
    (\<not> d \<longrightarrow> pdelete t key = t) \<and> (d \<longrightarrow> inner n' \<or> n' = NilNode)"
  using assms
proof (induction fuel arbitrary: n t key P pre)
  case 0
  then show ?case using fuel_for_pos by fastforce
next
  case (Suc f)
  have f: "2 * length key \<le> f" using fuel_for_pos [OF Suc.prems(3)] by simp
  show ?case
    using Suc.prems(1)
  proof (cases rule: expands.cases)
    case nil
    then show ?thesis using expands.nil [of ok db P] by auto
  next
    case (val v)
    then show ?thesis using expands.nil [of ok db P] by auto
  next
    case (short m u k fl)
    have "key \<noteq> []" using Suc.prems(2) short by (auto simp: fits_def split: if_splits)
    then have tk: "termkey key" and c: "canon (PShort k u)"
      using fitsD [OF Suc.prems(2)] short by (auto simp: wf_root_def)
    show ?thesis
    proof (cases "prefixLen key k < length k \<or> prefixLen key k = length key")
      case True
      then show ?thesis using short Suc.prems(1) expands.nil [of ok db P] by (cases "prefixLen key k < length k") auto
    next
      case False
      then have "prefixLen key k = length k" using prefixLen_props(2) [of key k] by simp
      then have "take (length k) key = k" using prefixLen_props(3) [of key k] by simp
      then obtain r where r: "key = k @ r" by (metis append_take_drop_id)
      have "fits u r" using fits_Short [OF c] tk r by simp
      moreover have "length r < length key" using r canon_Short_nonempty [OF c] by simp
      ultimately obtain d n' where ih: "delete_node db f m (pre @ k) r = Ok (d, n')"
        "expands ok db ok n' (pdelete u r)" "\<not> d \<longrightarrow> pdelete u r = u" "d \<longrightarrow> inner n' \<or> n' = NilNode"
        using Suc.IH [OF short(3) _ fuel_for_child [OF _ f]] by blast
      have u: "\<exists>us. u = PFull us" using canon_ShortD [OF c] tk r False \<open>prefixLen key k = length k\<close>
        by (auto simp: termkey_append_term)
      let ?spec = "case pdelete u r of PShort q w \<Rightarrow> PShort (k @ q) w | c \<Rightarrow> PShort k c"
      have spec: "pdelete t key = ?spec" using False r short by simp
      have del: "delete_node db (Suc f) n pre key =
          (if \<not> d then Ok (False, n)
           else case n' of ShortNode ck cv cfl \<Rightarrow> Ok (True, ShortNode (k @ ck) cv newFlag)
                 | _ \<Rightarrow> Ok (True, ShortNode k n' newFlag))"
        using False r short ih(1) by (simp add: split: node.split)
      have new: "d \<Longrightarrow> \<exists>n''. delete_node db (Suc f) n pre key = Ok (True, n'') \<and> expands ok db P n'' ?spec \<and> inner n''"
        using ih(2)
      proof (cases rule: expands.cases)
        case (short m' u' k' fl')
        then show "d \<Longrightarrow> ?thesis" using expands.short [of ok db m' u' P "k @ k'" newFlag]
          by (simp add: del del: delete_node.simps)
      next
        case (hash h m')
        then show "d \<Longrightarrow> ?thesis" using ih(4) by simp
      qed (use expands.short [OF ih(2), of P k newFlag] in \<open>simp_all add: del del: delete_node.simps\<close>)
      show ?thesis
      proof (cases d)
        case True
        with new spec show ?thesis by (auto simp del: delete_node.simps pdelete.simps)
      next
        case False
        with u ih(3) short have "pdelete t key = t" unfolding spec by auto
        with False del Suc.prems(1) show ?thesis by (auto simp del: delete_node.simps)
      qed
    qed
  next
    case (full cs ts fl)
    have "key \<noteq> []" using Suc.prems(2) full by (auto simp: fits_def split: if_splits)
    then obtain x ks where key: "key = x # ks" by (cases key) auto
    have tk: "termkey (x # ks)" and c: "canon (PFull ts)"
      using fitsD [OF Suc.prems(2)] full key by (auto simp: wf_root_def)
    note x = fits_Full [OF c tk]
    obtain d nn where "delete_node db f (cs ! unat x) (pre @ [x]) ks = Ok (d, nn)"
        "expands ok db ok nn (pdelete (ts ! unat x) ks)" "\<not> d \<longrightarrow> pdelete (ts ! unat x) ks = ts ! unat x"
      using Suc.IH [OF expands_child [OF full(3) x(2)] x(1) fuel_for_child [OF _ f]] unfolding key by fastforce
    with delete_full_sim [OF Suc.prems(1) [unfolded full] c tk] show ?thesis unfolding full key by blast
  next
    case (hash h m)
    obtain d n' where ih: "delete_node db f m pre key = Ok (d, n')" "expands ok db P n' (pdelete t key)"
      "\<not> d \<longrightarrow> pdelete t key = t" "d \<longrightarrow> inner n' \<or> n' = NilNode"
      using Suc.IH [OF hash(5) Suc.prems(2)] Suc.prems(3) hash fuel_for_resolved by blast
    then have "delete_node db (Suc f) n pre key = (if d then Ok (True, n') else Ok (False, m))"
      using hash by (simp add: resolveHash_def)
    with ih hash show ?thesis by (cases d) (auto simp del: delete_node.simps)
  qed
qed

end
