(* ===== verification/Trie_Hash.thy ===== *)
theory Trie_Hash
  imports Trie Rlp_Codec
begin

section \<open>Package trie: encoding, hashing, storing and proving\<close>

text \<open>
  \<^verbatim>\<open>src/trie/node.go\<close> (encoding and decoding of nodes), \<^verbatim>\<open>src/trie/hasher.go\<close>, \<^verbatim>\<open>src/trie/proof.go\<close> (\<^verbatim>\<open>Prove\<close> and
  \<^verbatim>\<open>VerifyProof\<close>). The hash function is an argument \<open>H\<close>; all that is used of Keccak-256 is that a hash
  has 32 bytes. A node is encoded through the model of package rlp; \<open>None\<close> is the panic on an encoding error.
  The reference is \<open>rlp_node\<close>, the encoding of an abstract trie with large subtries replaced by their hash.
\<close>

subsection \<open>Encoding of nodes\<close>

text \<open>The Go value that \<^verbatim>\<open>rlp.Encode\<close> sees: the exported fields of a short node, and for a full node the
  array of \<^verbatim>\<open>EncodeRLP\<close>, in which unset children are empty values.\<close>

fun node_goval :: "node \<Rightarrow> goval" where
  "node_goval NilNode = VInterface None"
| "node_goval (ValueNode v) = VBytes v"
| "node_goval (HashNode h) = VBytes h"
| "node_goval (ShortNode k v fl) =
     VPtr (VStruct [(VBytes k, False, False), (VInterface (Some (node_goval v)), False, False)])"
| "node_goval (FullNode children fl) =
     VPtr (VSlice False (map (\<lambda>child. VInterface (Some
       (if child \<noteq> NilNode then node_goval child else VBytes []))) children))"

definition encode_node :: "node \<Rightarrow> bytes option" where
  "encode_node n = (case EncodeToBytes (node_goval n) of Inr b \<Rightarrow> Some b | Inl _ \<Rightarrow> None)"

subsection \<open>Hashing\<close>

fun node_cache :: "node \<Rightarrow> bytes option \<times> bool" where
  "node_cache (FullNode children fl) = (fl_hash fl, fl_dirty fl)"
| "node_cache (ShortNode k v fl) = (fl_hash fl, fl_dirty fl)"
| "node_cache n = (None, True)"

text \<open>\<^verbatim>\<open>shortnodeToHash\<close> and \<^verbatim>\<open>fullnodeToHash\<close> have the same body.\<close>

definition nodeToHash :: "(bytes \<Rightarrow> bytes) \<Rightarrow> node \<Rightarrow> bool \<Rightarrow> node option" where
  "nodeToHash H n force =
     (case encode_node n of
        None \<Rightarrow> None
      | Some tmp \<Rightarrow> if length tmp < 32 \<and> \<not> force then Some n else Some (HashNode (H tmp)))"

definition set_hash :: "nodeFlag \<Rightarrow> node \<Rightarrow> nodeFlag" where
  "set_hash fl hashed = fl\<lparr>fl_hash := (case hashed of HashNode hn \<Rightarrow> Some hn | _ \<Rightarrow> None)\<rparr>"

lemma size_list_take [termination_simp]: "size_list f (take n xs) < Suc (size_list f xs)"
  by (induction xs arbitrary: n) (auto simp: take_Cons' less_Suc_eq_le add_mono)

fun hash_node :: "(bytes \<Rightarrow> bytes) \<Rightarrow> node \<Rightarrow> bool \<Rightarrow> (node \<times> node) option"
  and hash_children :: "(bytes \<Rightarrow> bytes) \<Rightarrow> node list \<Rightarrow> (node list \<times> node list) option" where
  "hash_node H (ShortNode k v fl) force =
     (case fl_hash fl of
        Some h \<Rightarrow> Some (HashNode h, ShortNode k v fl)
      | None \<Rightarrow>
          (case (if inner v then hash_node H v False else Some (v, v)) of
             None \<Rightarrow> None
           | Some (collapsed_v, cached_v) \<Rightarrow>
               (case hexToCompact k of
                  None \<Rightarrow> None
                | Some ck \<Rightarrow>
                    (case nodeToHash H (ShortNode ck collapsed_v fl) force of
                       None \<Rightarrow> None
                     | Some hashed \<Rightarrow> Some (hashed, ShortNode k cached_v (set_hash fl hashed))))))"
| "hash_node H (FullNode children fl) force =
     (case fl_hash fl of
        Some h \<Rightarrow> Some (HashNode h, FullNode children fl)
      | None \<Rightarrow>
          (case hash_children H (take 16 children) of
             None \<Rightarrow> None
           | Some (collapsed, cached) \<Rightarrow>
               (case nodeToHash H (FullNode (collapsed @ drop 16 children) fl) force of
                  None \<Rightarrow> None
                | Some hashed \<Rightarrow> Some (hashed, FullNode (cached @ drop 16 children) (set_hash fl hashed)))))"
| "hash_node H n force = Some (n, n)"
| "hash_children H [] = Some ([], [])"
| "hash_children H (child # children) =
     (case (if child \<noteq> NilNode then hash_node H child False else Some (ValueNode [], NilNode)) of
        None \<Rightarrow> None
      | Some (collapsed, cached) \<Rightarrow>
          map_option (\<lambda>(cs, ds). (collapsed # cs, cached # ds)) (hash_children H children))"

definition emptyRoot :: bytes where
  "emptyRoot =
     [0x56, 0xe8, 0x1f, 0x17, 0x1b, 0xcc, 0x55, 0xa6, 0xff, 0x83, 0x45, 0xe6, 0x92, 0xc0, 0xf8, 0x6e,
      0x5b, 0x48, 0xe0, 0x1b, 0x99, 0x6c, 0xad, 0xc0, 0x01, 0x62, 0x2f, 0xb5, 0xe3, 0x63, 0xb4, 0x21]"

text \<open>\<^verbatim>\<open>New\<close> opens the trie with a root hash; \<open>None\<close> is the nil database.\<close>

definition New :: "bytes \<Rightarrow> node_db option \<Rightarrow> (trie_error, trie) run" where
  "New root db =
     (case db of
        None \<Rightarrow> Err TriePanic
      | Some db \<Rightarrow>
          if root \<noteq> replicate 32 0 \<and> root \<noteq> emptyRoot then
            bindr (resolveHash db root []) (\<lambda>rootnode. Ok \<lparr>t_root = rootnode, t_unhashed = 0\<rparr>)
          else Ok \<lparr>t_root = NilNode, t_unhashed = 0\<rparr>)"

definition hashRoot :: "(bytes \<Rightarrow> bytes) \<Rightarrow> trie \<Rightarrow> (node \<times> node \<times> trie) option" where
  "hashRoot H t =
     (if t_root t = NilNode then Some (HashNode emptyRoot, NilNode, t)
      else map_option (\<lambda>(hashed, cached). (hashed, cached, t\<lparr>t_unhashed := 0\<rparr>)) (hash_node H (t_root t) True))"

definition Hash :: "(bytes \<Rightarrow> bytes) \<Rightarrow> trie \<Rightarrow> (bytes \<times> trie) option" where
  "Hash H t =
     (case hashRoot H t of
        Some (HashNode h, cached, t) \<Rightarrow> Some (BytesToHash h, t\<lparr>t_root := cached\<rparr>)
      | _ \<Rightarrow> None)"

subsection \<open>Decoding of nodes\<close>

datatype node_error =
    NodeEOF | NodeRlp rlp_error | NodeElements nat | NodeOversized nat | NodeRefSize nat

type_synonym node_result = "(node_error, node) run"

definition decodeRef :: "(bytes \<Rightarrow> node_result) \<Rightarrow> bytes \<Rightarrow> (node_error, node \<times> bytes) run" where
  "decodeRef dec buf =
     (case Split buf of
        Inl err \<Rightarrow> Err (NodeRlp err)
      | Inr (kind, val, rest) \<Rightarrow>
          if kind = List then
            (let sz = length buf - length rest in
             if sz > 32 then Err (NodeOversized sz)
             else bindr (dec buf) (\<lambda>n. Ok (n, rest)))
          else if kind = String \<and> length val = 0 then Ok (NilNode, rest)
          else if kind = String \<and> length val = 32 then Ok (HashNode val, rest)
          else Err (NodeRefSize (length val)))"

definition decodeShort :: "(bytes \<Rightarrow> node_result) \<Rightarrow> bytes option \<Rightarrow> bytes \<Rightarrow> node_result" where
  "decodeShort dec hash elems =
     (case SplitString elems of
        Inl err \<Rightarrow> Err (NodeRlp err)
      | Inr (kbuf, rest) \<Rightarrow>
          (let flag = \<lparr>fl_hash = hash, fl_dirty = False\<rparr>; key = compactToHex kbuf in
           if hasTerm key then
             (case SplitString rest of
                Inl err \<Rightarrow> Err (NodeRlp err)
              | Inr (val, _) \<Rightarrow> Ok (ShortNode key (ValueNode val) flag))
           else bindr (decodeRef dec rest) (\<lambda>(r, _). Ok (ShortNode key r flag))))"

fun decodeFull_loop :: "(bytes \<Rightarrow> node_result) \<Rightarrow> nat \<Rightarrow> bytes \<Rightarrow> (node_error, node list \<times> bytes) run" where
  "decodeFull_loop dec 0 elems = Ok ([], elems)"
| "decodeFull_loop dec (Suc n) elems =
     bindr (decodeRef dec elems) (\<lambda>(cld, rest).
       bindr (decodeFull_loop dec n rest) (\<lambda>(clds, rest). Ok (cld # clds, rest)))"

definition decodeFull :: "(bytes \<Rightarrow> node_result) \<Rightarrow> bytes option \<Rightarrow> bytes \<Rightarrow> node_result" where
  "decodeFull dec hash elems =
     bindr (decodeFull_loop dec 16 elems) (\<lambda>(children, elems).
       case SplitString elems of
         Inl err \<Rightarrow> Err (NodeRlp err)
       | Inr (val, _) \<Rightarrow>
           Ok (FullNode (children @ [if length val > 0 then ValueNode val else NilNode])
                 \<lparr>fl_hash = hash, fl_dirty = False\<rparr>))"

fun decodeNode :: "nat \<Rightarrow> bytes option \<Rightarrow> bytes \<Rightarrow> node_result" where
  "decodeNode 0 hash buf = OutOfFuel"
| "decodeNode (Suc fuel) hash buf =
     (if length buf = 0 then Err NodeEOF
      else
        (case SplitList buf of
           Inl err \<Rightarrow> Err (NodeRlp err)
         | Inr (elems, _) \<Rightarrow>
             (let c = (case CountValues elems of Inr n \<Rightarrow> n | Inl _ \<Rightarrow> 0) in
              if c = 2 then decodeShort (decodeNode fuel None) hash elems
              else if c = 17 then decodeFull (decodeNode fuel None) hash elems
              else Err (NodeElements c))))"

subsection \<open>The encoding of an abstract trie\<close>

definition compactKey :: "bytes \<Rightarrow> bytes" where
  "compactKey k = (case hexToCompact k of Some c \<Rightarrow> c | None \<Rightarrow> [])"

fun pinner :: "ptree \<Rightarrow> bool" where
  "pinner (PShort k t) = True"
| "pinner (PFull ts) = True"
| "pinner _ = False"

definition embed_ref :: "(bytes \<Rightarrow> bytes) \<Rightarrow> ptree \<Rightarrow> bytes \<Rightarrow> bytes" where
  "embed_ref H t b = (if pinner t \<and> 32 \<le> length b then rlp_string (H b) else b)"

fun rlp_node :: "(bytes \<Rightarrow> bytes) \<Rightarrow> ptree \<Rightarrow> bytes" where
  "rlp_node H PNil = rlp_string []"
| "rlp_node H (PVal v) = rlp_string v"
| "rlp_node H (PShort k t) = rlp_list (rlp_string (compactKey k) @ embed_ref H t (rlp_node H t))"
| "rlp_node H (PFull ts) = rlp_list (concat (map (\<lambda>t. embed_ref H t (rlp_node H t)) ts))"

abbreviation rlp_ref :: "(bytes \<Rightarrow> bytes) \<Rightarrow> ptree \<Rightarrow> bytes" where
  "rlp_ref H t \<equiv> embed_ref H t (rlp_node H t)"

definition root_hash :: "(bytes \<Rightarrow> bytes) \<Rightarrow> ptree \<Rightarrow> bytes" where
  "root_hash H t = (if t = PNil then emptyRoot else H (rlp_node H t))"

text \<open>What a decoder makes of an encoded trie: subtries that are embedded are nodes, the others hashes.\<close>

fun view :: "(bytes \<Rightarrow> bytes) \<Rightarrow> bytes option \<Rightarrow> ptree \<Rightarrow> node" where
  "view H hash PNil = NilNode"
| "view H hash (PVal v) = ValueNode v"
| "view H hash (PShort k t) =
     ShortNode k (if pinner t \<and> 32 \<le> length (rlp_node H t) then HashNode (H (rlp_node H t)) else view H None t)
       \<lparr>fl_hash = hash, fl_dirty = False\<rparr>"
| "view H hash (PFull ts) =
     FullNode (map (\<lambda>t. if pinner t \<and> 32 \<le> length (rlp_node H t) then HashNode (H (rlp_node H t)) else view H None t) ts)
       \<lparr>fl_hash = hash, fl_dirty = False\<rparr>"

definition hash32 :: "(bytes \<Rightarrow> bytes) \<Rightarrow> bool" where
  "hash32 H \<longleftrightarrow> (\<forall>b. length (H b) = 32)"

text \<open>Keys and values short enough that no encoding reaches \<open>2 ^ 63\<close> bytes.\<close>

fun bounded :: "ptree \<Rightarrow> bool" where
  "bounded PNil = True"
| "bounded (PVal v) = (length v < 2 ^ 56)"
| "bounded (PShort k t) = (length k < 2 ^ 56 \<and> bounded t)"
| "bounded (PFull ts) = (length ts = 17 \<and> (\<forall>t \<in> set ts. bounded t))"

subsection \<open>Sizes\<close>

lemma length_rlp_string: "length (rlp_string b) \<le> length b + 9" if "length b < 2 ^ 64"
proof -
  have "length (be_min (length b)) \<le> 8"
    using that by (intro length_be_min_le) simp
  then show ?thesis by (auto simp: rlp_string_def rlp_head_def)
qed

lemma length_rlp_list: "length (rlp_list b) \<le> length b + 9" if "length b < 2 ^ 64"
proof -
  have "length (be_min (length b)) \<le> 8"
    using that by (intro length_be_min_le) simp
  then show ?thesis by (auto simp: rlp_list_def rlp_head_def)
qed

lemma length_rlp_string_32: "length b = 32 \<Longrightarrow> length (rlp_string b) = 33"
  by (simp add: rlp_string_def rlp_head_def)

lemma length_embed_ref_inner:
  assumes "hash32 H"
  shows "length (embed_ref H t b) \<le> (if pinner t then 33 else length b)"
  using assms by (auto simp: embed_ref_def hash32_def length_rlp_string_32)

lemma length_concat_le: "(\<And>x. x \<in> set xs \<Longrightarrow> length (f x) \<le> n) \<Longrightarrow> length (concat (map f xs)) \<le> length xs * n"
  by (induction xs) (auto intro: add_mono)

lemma compactKey_length: "length (compactKey k) \<le> length k + 1"
proof (cases "hasTerm k")
  case True
  then obtain p where "k = p @ [16]" by (auto simp: hasTerm_snoc)
  then show ?thesis by (simp add: compactKey_def hexToCompact_spec length_compact_spec)
next
  case False
  then show ?thesis by (simp add: compactKey_def hexToCompact_spec length_compact_spec)
qed

lemma hexToCompact_compactKey: "hexToCompact k = Some (compactKey k)"
proof (cases "hasTerm k")
  case True
  then obtain p where "k = p @ [16]" by (auto simp: hasTerm_snoc)
  then show ?thesis by (simp add: compactKey_def hexToCompact_spec)
qed (simp add: compactKey_def hexToCompact_spec)

lemma length_rlp_ref:
  assumes "hash32 H" "bounded t"
  shows "length (rlp_ref H t) < 2 ^ 57"
proof (cases "pinner t")
  case True
  then show ?thesis using length_embed_ref_inner [OF assms(1), of t "rlp_node H t"] by simp
next
  case False
  with assms(2) show ?thesis
    using length_rlp_string [of "case t of PVal v \<Rightarrow> v | _ \<Rightarrow> []"] by (cases t) (auto simp: embed_ref_def)
qed

lemma length_rlp_node:
  assumes "hash32 H" "bounded t"
  shows "length (rlp_node H t) < 2 ^ 62"
proof (cases t)
  case PNil
  then show ?thesis using length_rlp_string [of "[]"] by simp
next
  case (PVal v)
  then show ?thesis using assms(2) length_rlp_string [of v] by simp
next
  case (PShort k u)
  let ?c = "rlp_string (compactKey k) @ rlp_ref H u"
  have "length (rlp_string (compactKey k)) \<le> 2 ^ 56 + 10"
    using PShort assms(2) compactKey_length [of k] length_rlp_string [of "compactKey k"] by simp
  moreover have "length (rlp_ref H u) < 2 ^ 57" using length_rlp_ref [OF assms(1), of u] PShort assms(2) by simp
  ultimately have "length ?c < 2 ^ 58" by simp
  with length_rlp_list [of ?c] show ?thesis by (simp add: PShort)
next
  case (PFull ts)
  have "length (concat (map (\<lambda>t. rlp_ref H t) ts)) \<le> length ts * 2 ^ 57"
    using length_rlp_ref [OF assms(1)] PFull assms(2) by (intro length_concat_le) (auto intro: less_imp_le)
  moreover have "length ts = 17" using PFull assms(2) by simp
  ultimately show ?thesis using length_rlp_list [of "concat (map (\<lambda>t. rlp_ref H t) ts)"] by (simp add: PFull)
qed

subsection \<open>Encoding a node\<close>

lemma rlp_spec_Short: "rlp_spec (node_goval (ShortNode k v fl)) = rlp_list (rlp_string k @ rlp_spec (node_goval v))"
  by (simp add: struct_count_def numeral_2_eq_2)

definition child_rlp :: "node \<Rightarrow> bytes" where
  "child_rlp c = (if c \<noteq> NilNode then rlp_spec (node_goval c) else rlp_string [])"

lemma rlp_spec_elems_map: "rlp_spec_elems (map f xs) = concat (map (\<lambda>x. rlp_spec (f x)) xs)"
  by (induction xs) auto

lemma rlp_spec_Full: "rlp_spec (node_goval (FullNode cs fl)) = rlp_list (concat (map child_rlp cs))"
  by (simp add: rlp_spec_elems_map child_rlp_def [abs_def] if_distrib cong: if_cong)

lemma rlp_negative_node: "\<not> rlp_negative (node_goval n)"
proof (induction n)
  case (FullNode cs fl)
  then have "\<not> rlp_negative_elems (map (\<lambda>c. VInterface (Some (if c \<noteq> NilNode then node_goval c else VBytes []))) cs)"
    by (induction cs) auto
  then show ?case by simp
qed (auto simp: struct_count_def numeral_2_eq_2)

lemma encode_node_spec: "length (rlp_spec (node_goval n)) < 2 ^ 63 \<Longrightarrow> encode_node n = Some (rlp_spec (node_goval n))"
  using EncodeToBytes_spec [of "node_goval n"] rlp_negative_node [of n] by (simp add: encode_node_def)

subsection \<open>Hashing computes the reference hash\<close>

text \<open>A hash in a trie is that of the encoding of the subtrie; below the root only large nodes have one.\<close>

definition hash_ok :: "(bytes \<Rightarrow> bytes) \<Rightarrow> ptree \<Rightarrow> bytes \<Rightarrow> bool" where
  "hash_ok H t h \<longleftrightarrow> h = H (rlp_node H t) \<and> 32 \<le> length (rlp_node H t)"

definition root_ok :: "(bytes \<Rightarrow> bytes) \<Rightarrow> ptree \<Rightarrow> bytes \<Rightarrow> bool" where
  "root_ok H t h \<longleftrightarrow> h = H (rlp_node H t)"

text \<open>A collapsed node: encoded, it is the reference to the subtrie.\<close>

definition collapsed :: "(bytes \<Rightarrow> bytes) \<Rightarrow> ptree \<Rightarrow> node \<Rightarrow> bool" where
  "collapsed H t c \<longleftrightarrow> c \<noteq> NilNode \<and> rlp_spec (node_goval c) = rlp_ref H t"

lemma nodeToHash_spec:
  assumes "rlp_spec (node_goval c) = rlp_node H t" "length (rlp_node H t) < 2 ^ 63"
  shows "nodeToHash H c force =
    Some (if length (rlp_node H t) < 32 \<and> \<not> force then c else HashNode (H (rlp_node H t)))"
  using assms encode_node_spec [of c] by (simp add: nodeToHash_def)

lemma collapsed_hash:
  assumes "rlp_spec (node_goval c) = rlp_node H t" "pinner t" "c \<noteq> NilNode"
  shows "collapsed H t (if length (rlp_node H t) < 32 then c else HashNode (H (rlp_node H t)))"
  using assms by (auto simp: collapsed_def embed_ref_def)

lemma child_rlp_outer:
  assumes "expands (hash_ok H) db (hash_ok H) c t" "\<not> inner c"
  shows "child_rlp c = rlp_ref H t \<and> (t \<noteq> PNil \<longrightarrow> collapsed H t c)"
  using assms(1)
proof (cases rule: expands.cases)
  case (hash h n)
  then have "pinner t" using expands_inner [OF hash(5,3)] by auto
  with hash show ?thesis by (auto simp: child_rlp_def collapsed_def embed_ref_def hash_ok_def)
qed (use assms(2) in \<open>auto simp: child_rlp_def collapsed_def embed_ref_def\<close>)

lemma flag_ok_set_hash:
  assumes "hashed = (if length (rlp_node H t) < 32 \<and> \<not> force then c else HashNode (H (rlp_node H t)))"
    "(force \<and> P = root_ok H) \<or> (\<not> force \<and> P = hash_ok H)" "\<nexists>h. c = HashNode h"
  shows "flag_ok P t (set_hash fl hashed)"
  using assms by (auto simp: flag_ok_def set_hash_def root_ok_def hash_ok_def split: node.splits if_splits)

definition hash_result :: "(bytes \<Rightarrow> bytes) \<Rightarrow> node_db \<Rightarrow> (ptree \<Rightarrow> bytes \<Rightarrow> bool) \<Rightarrow> bool \<Rightarrow> node \<Rightarrow> ptree \<Rightarrow> bool" where
  "hash_result H db P force n t \<longleftrightarrow>
     (\<exists>hashed cached. hash_node H n force = Some (hashed, cached) \<and>
       (if force then hashed = HashNode (H (rlp_node H t)) else collapsed H t hashed) \<and>
       expands (hash_ok H) db P cached t)"

lemma hash_cached:
  assumes "fl_hash fl = Some h" "flag_ok P t fl" "pinner t" "(force \<and> P = root_ok H) \<or> (\<not> force \<and> P = hash_ok H)"
  shows "if force then HashNode h = HashNode (H (rlp_node H t)) else collapsed H t (HashNode h)"
  using assms by (auto simp: flag_ok_def root_ok_def hash_ok_def collapsed_def embed_ref_def)

lemma hash_short:
  assumes e: "expands (hash_ok H) db P (ShortNode k v fl) (PShort k u)" and H: "hash32 H" "bounded (PShort k u)"
    and c: "canon (PShort k u)" and f: "(force \<and> P = root_ok H) \<or> (\<not> force \<and> P = hash_ok H)"
    and IH: "inner v \<Longrightarrow> fl_hash fl = None \<Longrightarrow> hash_result H db (hash_ok H) False v u"
  shows "hash_result H db P force (ShortNode k v fl) (PShort k u)"
proof (cases "fl_hash fl")
  case (Some h)
  then show ?thesis
    using hash_cached [OF Some _ _ f, of "PShort k u"] e by (auto simp: hash_result_def elim!: expands_ShortE)
next
  case None
  have v: "expands (hash_ok H) db (hash_ok H) v u" using e by (auto elim: expands_ShortE)
  have "u \<noteq> PNil" using canon_Short_nonempty [OF c] by simp
  then obtain cv dv where cv: "(if inner v then hash_node H v False else Some (v, v)) = Some (cv, dv)"
    "collapsed H u cv" "expands (hash_ok H) db (hash_ok H) dv u"
    using IH None child_rlp_outer [OF v] v by (cases "inner v") (auto simp: hash_result_def)
  let ?c = "ShortNode (compactKey k) cv fl" and ?t = "PShort k u"
  have rc: "rlp_spec (node_goval ?c) = rlp_node H ?t"
    unfolding rlp_spec_Short using cv(2) by (simp add: collapsed_def)
  have lt: "length (rlp_node H ?t) < 2 ^ 63" using length_rlp_node [OF H] by simp
  define hashed where "hashed = (if length (rlp_node H ?t) < 32 \<and> \<not> force then ?c else HashNode (H (rlp_node H ?t)))"
  have "hash_node H (ShortNode k v fl) force = Some (hashed, ShortNode k dv (set_hash fl hashed))"
    using None cv(1) nodeToHash_spec [OF rc lt, of force] by (simp add: hexToCompact_compactKey hashed_def del: rlp_node.simps)
  moreover have "expands (hash_ok H) db P (ShortNode k dv (set_hash fl hashed)) ?t"
    using cv(3) flag_ok_set_hash [OF hashed_def f] by (intro expands.short) auto
  moreover have "if force then hashed = HashNode (H (rlp_node H ?t)) else collapsed H ?t hashed"
    using collapsed_hash [OF rc] by (auto simp: hashed_def simp del: rlp_node.simps)
  ultimately show ?thesis unfolding hash_result_def by blast
qed

lemma hash_full:
  assumes e: "expands (hash_ok H) db P (FullNode cs fl) (PFull ts)" and H: "hash32 H" "bounded (PFull ts)"
    and c: "canon (PFull ts)" and f: "(force \<and> P = root_ok H) \<or> (\<not> force \<and> P = hash_ok H)"
    and IH: "fl_hash fl = None \<Longrightarrow> \<exists>col cach. hash_children H (take 16 cs) = Some (col, cach) \<and>
      map child_rlp col = map (\<lambda>t. rlp_ref H t) (take 16 ts) \<and> list_all2 (expands (hash_ok H) db (hash_ok H)) cach (take 16 ts)"
  shows "hash_result H db P force (FullNode cs fl) (PFull ts)"
proof (cases "fl_hash fl")
  case (Some h)
  then show ?thesis
    using hash_cached [OF Some _ _ f, of "PFull ts"] e by (auto simp: hash_result_def elim!: expands_FullE)
next
  case None
  have all: "list_all2 (expands (hash_ok H) db (hash_ok H)) cs ts" using e by (auto elim: expands_FullE)
  have len: "length ts = 17" "length cs = 17" using c all by (auto elim!: canon_FullE dest: list_all2_lengthD)
  have dr: "drop 16 ts = [ts ! 16]" "drop 16 cs = [cs ! 16]"
    using len by (auto simp: Cons_nth_drop_Suc [symmetric])
  have e16: "expands (hash_ok H) db (hash_ok H) (cs ! 16) (ts ! 16)" using all len by (intro expands_child) auto
  have "ts ! 16 = PNil \<or> (\<exists>v. ts ! 16 = PVal v)" using c by (auto elim!: canon_FullE)
  then have "\<not> inner (cs ! 16)" using expands_inner [OF e16] by auto
  then have c16: "child_rlp (cs ! 16) = rlp_ref H (ts ! 16)" using child_rlp_outer [OF e16] by simp
  obtain col cach where ih: "hash_children H (take 16 cs) = Some (col, cach)"
    "map child_rlp col = map (\<lambda>t. rlp_ref H t) (take 16 ts)"
    "list_all2 (expands (hash_ok H) db (hash_ok H)) cach (take 16 ts)" using IH [OF None] by blast
  have ts: "ts = take 16 ts @ [ts ! 16]" using dr(1) by (metis append_take_drop_id)
  let ?c = "FullNode (col @ drop 16 cs) fl" and ?t = "PFull ts"
  have rc: "rlp_spec (node_goval ?c) = rlp_node H ?t"
    unfolding rlp_spec_Full by (subst ts) (simp add: ih(2) dr c16)
  have lt: "length (rlp_node H ?t) < 2 ^ 63" using length_rlp_node [OF H] by simp
  define hashed where "hashed = (if length (rlp_node H ?t) < 32 \<and> \<not> force then ?c else HashNode (H (rlp_node H ?t)))"
  have "hash_node H (FullNode cs fl) force = Some (hashed, FullNode (cach @ drop 16 cs) (set_hash fl hashed))"
    using None ih(1) nodeToHash_spec [OF rc lt, of force] by (simp add: hashed_def del: rlp_node.simps)
  moreover have "list_all2 (expands (hash_ok H) db (hash_ok H)) (cach @ drop 16 cs) ts"
    using list_all2_appendI [OF ih(3), of "[cs ! 16]" "[ts ! 16]"] e16 dr ts by simp
  then have "expands (hash_ok H) db P (FullNode (cach @ drop 16 cs) (set_hash fl hashed)) ?t"
    using flag_ok_set_hash [OF hashed_def f] by (intro expands.full) auto
  moreover have "if force then hashed = HashNode (H (rlp_node H ?t)) else collapsed H ?t hashed"
    using collapsed_hash [OF rc] by (auto simp: hashed_def simp del: rlp_node.simps)
  ultimately show ?thesis unfolding hash_result_def by blast
qed

lemma canon_pinner: "canon t \<Longrightarrow> pinner t"
  by (cases t) auto

definition hash_children_result :: "(bytes \<Rightarrow> bytes) \<Rightarrow> node_db \<Rightarrow> node list \<Rightarrow> ptree list \<Rightarrow> bool" where
  "hash_children_result H db cs ts \<longleftrightarrow>
     (\<exists>col cach. hash_children H cs = Some (col, cach) \<and> map child_rlp col = map (\<lambda>t. rlp_ref H t) ts \<and>
       list_all2 (expands (hash_ok H) db (hash_ok H)) cach ts)"

lemma hash_children_Cons:
  assumes e: "expands (hash_ok H) db (hash_ok H) c t" and t: "t = PNil \<or> canon t"
    and IH: "c \<noteq> NilNode \<Longrightarrow> hash_result H db (hash_ok H) False c t" "hash_children_result H db cs ts"
  shows "hash_children_result H db (c # cs) (t # ts)"
proof -
  obtain col cach where tl: "hash_children H cs = Some (col, cach)" "map child_rlp col = map (\<lambda>t. rlp_ref H t) ts"
    "list_all2 (expands (hash_ok H) db (hash_ok H)) cach ts"
    using IH(2) by (auto simp: hash_children_result_def)
  show ?thesis
  proof (cases "c = NilNode")
    case True
    then have "t = PNil" using expands_PNil_iff [OF e] by simp
    with True tl e show ?thesis
      by (auto simp: hash_children_result_def child_rlp_def embed_ref_def)
  next
    case False
    obtain hashed cached where "hash_node H c False = Some (hashed, cached)" "collapsed H t hashed"
      "expands (hash_ok H) db (hash_ok H) cached t"
      using IH(1) [OF False] by (auto simp: hash_result_def)
    with False tl show ?thesis by (auto simp: hash_children_result_def child_rlp_def collapsed_def)
  qed
qed

lemma hash_HashNode:
  assumes "expands (hash_ok H) db P (HashNode h) t" "canon t" "(force \<and> P = root_ok H) \<or> (\<not> force \<and> P = hash_ok H)"
  shows "hash_result H db P force (HashNode h) t"
proof -
  have "P t h" using assms(1) by (auto elim: expands_HashE)
  then have "if force then HashNode h = HashNode (H (rlp_node H t)) else collapsed H t (HashNode h)"
    using assms(3) canon_pinner [OF assms(2)] by (auto simp: root_ok_def hash_ok_def collapsed_def embed_ref_def)
  with assms(1) show ?thesis by (auto simp: hash_result_def)
qed

lemma hash_node_correct:
  "expands (hash_ok H) db P n t \<Longrightarrow> hash32 H \<Longrightarrow> bounded t \<Longrightarrow> canon t \<Longrightarrow>
     (force \<and> P = root_ok H) \<or> (\<not> force \<and> P = hash_ok H) \<Longrightarrow> hash_result H db P force n t"
  "list_all2 (expands (hash_ok H) db (hash_ok H)) cs ts \<Longrightarrow> hash32 H \<Longrightarrow>
     \<forall>t \<in> set ts. bounded t \<and> (t = PNil \<or> canon t) \<Longrightarrow> hash_children_result H db cs ts"
proof (induction H n force and H cs arbitrary: P t and ts rule: hash_node_hash_children.induct)
  case (1 H k v fl force)
  then obtain u where t: "t = PShort k u" and v: "expands (hash_ok H) db (hash_ok H) v u"
    by (auto elim: expands_ShortE)
  have IH: "hash_result H db (hash_ok H) False v u" if "inner v" "fl_hash fl = None"
  proof -
    have "canon u" using canon_ShortD [of k u] 1 t expands_inner [OF v that(1)] by auto
    with 1 that v t show ?thesis by auto
  qed
  show ?case unfolding t using 1 t IH by (intro hash_short) auto
next
  case (2 H cs fl force)
  then obtain ts where t: "t = PFull ts" and all: "list_all2 (expands (hash_ok H) db (hash_ok H)) cs ts"
    by (auto elim: expands_FullE)
  have c: "canon (PFull ts)" using 2 t by simp
  have "hash_children_result H db (take 16 cs) (take 16 ts)" if "fl_hash fl = None"
  proof (rule "2.IH" [OF that])
    show "list_all2 (expands (hash_ok H) db (hash_ok H)) (take 16 cs) (take 16 ts)"
      using all by (rule list_all2_takeI)
    show "\<forall>t \<in> set (take 16 ts). bounded t \<and> (t = PNil \<or> canon t)"
    proof
      fix u assume u: "u \<in> set (take 16 ts)"
      then obtain i where "i < 16" "u = ts ! i" by (auto simp: set_conv_nth)
      then have "u = PNil \<or> canon u" using c by (auto elim: canon_FullE)
      moreover have "bounded u" using u "2.prems"(3) t in_set_takeD [OF u] by simp
      ultimately show "bounded u \<and> (u = PNil \<or> canon u)" by blast
    qed
  qed (use 2 in simp)
  then show ?case
    unfolding t using 2 t by (intro hash_full) (auto simp: hash_children_result_def)
next
  case hn: "3_3"
  show ?case by (rule hash_HashNode [OF hn(1,4,5)])
next
  case (5 H c cs)
  then obtain t us where ts: "ts = t # us" and e: "expands (hash_ok H) db (hash_ok H) c t"
    and es: "list_all2 (expands (hash_ok H) db (hash_ok H)) cs us"
    by (auto simp: list_all2_Cons1)
  have t: "t = PNil \<or> canon t" "bounded t" using 5 ts by auto
  have c: "hash_result H db (hash_ok H) False c t" if "c \<noteq> NilNode"
  proof -
    have "canon t" using t(1) that expands_PNil_iff [OF e] by auto
    with "5.IH"(1) that e t(2) "5.prems"(2) show ?thesis by blast
  qed
  obtain col cach where "(if c \<noteq> NilNode then hash_node H c False else Some (ValueNode [], NilNode)) = Some (col, cach)"
    using c by (cases "c = NilNode") (auto simp: hash_result_def)
  then have "hash_children_result H db cs us"
    using "5.IH"(2) es "5.prems"(2,3) ts by auto
  with c e t(1) show ?case unfolding ts by (intro hash_children_Cons) auto
qed (auto elim: expands_NilE expands_ValE simp: hash_children_result_def)

subsection \<open>Decoding an encoded trie\<close>

lemma Split_rlp_list: "length (rlp_list c @ r) < 2 ^ 63 \<Longrightarrow> Split (rlp_list c @ r) = Inr (List, c, r)"
  using Split_iff_value [of "rlp_list c @ r" List c r] by (simp add: rlp_value_def rlp_list_def)

lemma Split_rlp_string:
  assumes "length (rlp_string s @ r) < 2 ^ 63"
  shows "Split (rlp_string s @ r) = Inr (if length s = 1 \<and> hd s < 0x80 then Byte else String, s, r)"
proof -
  let ?k = "if length s = 1 \<and> hd s < 0x80 then Byte else String"
  have "\<exists>h. rlp_value ?k s = Some h \<and> rlp_string s @ r = h @ r" using rlp_value_string [of s] by blast
  with Split_iff_value [OF assms, of ?k s r] show ?thesis by blast
qed

lemma SplitList_rlp_list: "length (rlp_list c @ r) < 2 ^ 63 \<Longrightarrow> SplitList (rlp_list c @ r) = Inr (c, r)"
  by (simp add: SplitList_def Split_rlp_list)

lemma rlp_node_inner: "pinner t \<Longrightarrow> \<exists>c. rlp_node H t = rlp_list c"
  by (cases t) auto

lemma rlp_ref_value: "\<exists>k c. rlp_value k c = Some (rlp_ref H t)"
proof -
  have "\<exists>k c. rlp_value k c = Some (rlp_string s)" for s using rlp_value_string [of s] by blast
  moreover have "\<exists>k c. rlp_value k c = Some (rlp_list c')" for c'
    by (intro exI [of _ List] exI [of _ c']) (simp add: rlp_value_def rlp_list_def)
  moreover have "(\<exists>s. rlp_ref H t = rlp_string s) \<or> (\<exists>c'. rlp_ref H t = rlp_list c')"
  proof (cases "pinner t")
    case True
    then show ?thesis using rlp_node_inner [OF True, of H] by (auto simp: embed_ref_def)
  next
    case False
    then show ?thesis by (cases t) (auto simp: embed_ref_def)
  qed
  ultimately show ?thesis by metis
qed

lemma CountValues_concat:
  assumes "length (concat vs) < 2 ^ 63" "\<forall>v \<in> set vs. \<exists>k c. rlp_value k c = Some v"
  shows "CountValues (concat vs) = Inr (length vs)"
  using CountValues_loop_iff [OF assms(1), of 0 "length vs"] assms(2) by (auto simp: CountValues_def)

definition vref :: "(bytes \<Rightarrow> bytes) \<Rightarrow> ptree \<Rightarrow> node" where
  "vref H t = (if pinner t \<and> 32 \<le> length (rlp_node H t) then HashNode (H (rlp_node H t)) else view H None t)"

text \<open>The decoder passed down decodes the encodings that are embedded.\<close>

definition decodes_small :: "(bytes \<Rightarrow> bytes) \<Rightarrow> (bytes \<Rightarrow> node_result) \<Rightarrow> nat \<Rightarrow> bool" where
  "decodes_small H dec n \<longleftrightarrow>
     (\<forall>t r. canon t \<longrightarrow> bounded t \<longrightarrow> length (rlp_node H t) < n \<longrightarrow> length (rlp_node H t @ r) < 2 ^ 63 \<longrightarrow>
       dec (rlp_node H t @ r) = Ok (view H None t))"

lemma decodeRef_rlp_ref:
  assumes H: "hash32 H" and t: "t = PNil \<or> canon t" "bounded t"
    and dec: "decodes_small H dec n" and n: "length (rlp_ref H t) < n" and len: "length (rlp_ref H t @ r) < 2 ^ 63"
  shows "decodeRef dec (rlp_ref H t @ r) = Ok (vref H t, r)"
proof (cases "t = PNil")
  case True
  with len show ?thesis
    using Split_rlp_string [of "[]" r] by (simp add: decodeRef_def embed_ref_def vref_def)
next
  case False
  then have c: "canon t" using t by blast
  note p = canon_pinner [OF c]
  show ?thesis
  proof (cases "32 \<le> length (rlp_node H t)")
    case True
    have "length (H (rlp_node H t)) = 32" using H by (simp add: hash32_def)
    then have "length (H (rlp_node H t)) = 32" "H (rlp_node H t) \<noteq> []" by auto
    with True p len Split_rlp_string [of "H (rlp_node H t)" r] show ?thesis
      by (simp add: decodeRef_def embed_ref_def vref_def)
  next
    case False
    then have ref: "rlp_ref H t = rlp_node H t" by (simp add: embed_ref_def)
    obtain cs where cs: "rlp_node H t = rlp_list cs" using rlp_node_inner [OF p] by blast
    have "Split (rlp_ref H t @ r) = Inr (List, cs, r)" using Split_rlp_list [of cs r] len ref cs by simp
    moreover have "dec (rlp_ref H t @ r) = Ok (view H None t)"
      using dec c t(2) n len unfolding ref decodes_small_def by blast
    ultimately show ?thesis using False p unfolding ref by (simp add: decodeRef_def vref_def)
  qed
qed

lemma decodeFull_loop_rlp:
  assumes H: "hash32 H" and dec: "decodes_small H dec n"
  shows "\<forall>t \<in> set ts. (t = PNil \<or> canon t) \<and> bounded t \<and> length (rlp_ref H t) < n \<Longrightarrow>
    length (concat (map (\<lambda>t. rlp_ref H t) ts) @ r) < 2 ^ 63 \<Longrightarrow>
    decodeFull_loop dec (length ts) (concat (map (\<lambda>t. rlp_ref H t) ts) @ r) = Ok (map (vref H) ts, r)"
proof (induction ts)
  case (Cons t ts)
  have "decodeRef dec (rlp_ref H t @ concat (map (\<lambda>t. rlp_ref H t) ts) @ r) =
      Ok (vref H t, concat (map (\<lambda>t. rlp_ref H t) ts) @ r)"
    using Cons.prems by (intro decodeRef_rlp_ref [OF H _ _ dec]) auto
  with Cons show ?case by simp
qed simp

lemma length_member_concat: "t \<in> set ts \<Longrightarrow> length (f t) \<le> length (concat (map f ts))"
  by (induction ts) auto

lemma compactToHex_compactKey:
  assumes "canon (PShort k u)"
  shows "compactToHex (compactKey k) = k" "hasTerm k \<longleftrightarrow> (\<exists>v. u = PVal v)"
proof -
  show "compactToHex (compactKey k) = k"
    using canon_ShortD [OF assms]
    by (auto simp: compactKey_def termkey_def hexToCompact_spec compactToHex_spec)
  show "hasTerm k \<longleftrightarrow> (\<exists>v. u = PVal v)"
    using canon_ShortD [OF assms] by (auto simp: termkey_def hasTerm_snoc)
qed

lemma vref_outer: "\<not> pinner t \<Longrightarrow> vref H t = view H None t"
  by (simp add: vref_def)

lemma view_Full: "view H h (PFull ts) = FullNode (map (vref H) ts) \<lparr>fl_hash = h, fl_dirty = False\<rparr>"
  by (simp add: vref_def [abs_def])

lemma view_Short: "view H h (PShort k t) = ShortNode k (vref H t) \<lparr>fl_hash = h, fl_dirty = False\<rparr>"
  by (simp add: vref_def)

lemma length_rlp_list_gt: "length c < length (rlp_list c)"
  by (simp add: rlp_list_khead)

lemma decodeShort_rlp:
  assumes H: "hash32 H" and c: "canon (PShort k u)" and b: "bounded (PShort k u)"
    and dec: "decodes_small H dec n" and n: "length (rlp_string (compactKey k) @ rlp_ref H u) < n"
  shows "decodeShort dec h (rlp_string (compactKey k) @ rlp_ref H u) = Ok (view H h (PShort k u))"
proof -
  have len: "length (rlp_string (compactKey k) @ rlp_ref H u) < 2 ^ 63"
    using length_rlp_node [OF H b] length_rlp_list_gt [of "rlp_string (compactKey k) @ rlp_ref H u"] by simp
  note k = compactToHex_compactKey [OF c] and sp = SplitString_rlp_string [OF len]
  from canon_ShortD [OF c] show ?thesis
  proof (elim disjE exE conjE)
    fix v assume v: "u = PVal v"
    then have "SplitString (rlp_ref H u) = Inr (v, [])"
      using SplitString_rlp_string [of v "[]"] len by (simp add: embed_ref_def)
    with v k sp show ?thesis by (simp add: decodeShort_def Let_def view_Short vref_outer)
  next
    fix ts assume u: "u = PFull ts" "canon u"
    have "decodeRef dec (rlp_ref H u @ []) = Ok (vref H u, [])"
      using u b n len by (intro decodeRef_rlp_ref [OF H _ _ dec]) auto
    with u k sp show ?thesis by (simp add: decodeShort_def Let_def view_Short del: view.simps rlp_node.simps)
  qed
qed

lemma decodeFull_rlp:
  assumes H: "hash32 H" and c: "canon (PFull ts)" and b: "bounded (PFull ts)"
    and dec: "decodes_small H dec n" and n: "length (concat (map (\<lambda>t. rlp_ref H t) ts)) < n"
  shows "decodeFull dec h (concat (map (\<lambda>t. rlp_ref H t) ts)) = Ok (view H h (PFull ts))"
proof -
  let ?enc = "\<lambda>ts. concat (map (\<lambda>t. rlp_ref H t) ts)"
  have len: "length (?enc ts) < 2 ^ 63"
    using length_rlp_node [OF H b] length_rlp_list_gt [of "?enc ts"] by simp
  have l: "length ts = 17" using c by (auto elim: canon_FullE)
  have "drop 16 ts = [ts ! 16]" using l by (auto simp: Cons_nth_drop_Suc [symmetric])
  then have ts: "ts = take 16 ts @ [ts ! 16]" by (metis append_take_drop_id)
  from c have "ts ! 16 = PNil \<or> (\<exists>v. v \<noteq> [] \<and> ts ! 16 = PVal v)" by (auto elim: canon_FullE)
  then obtain v where v: "ts ! 16 = (if v = [] then PNil else PVal v)" by metis
  have e16: "rlp_ref H (ts ! 16) = rlp_string v" by (simp add: v embed_ref_def)
  have enc: "?enc ts = ?enc (take 16 ts) @ rlp_string v" by (subst ts) (simp add: e16)
  have "\<forall>t \<in> set (take 16 ts). (t = PNil \<or> canon t) \<and> bounded t \<and> length (rlp_ref H t) < n"
  proof
    fix t assume t: "t \<in> set (take 16 ts)"
    then obtain i where "i < 16" "t = ts ! i" by (auto simp: set_conv_nth)
    then have "t = PNil \<or> canon t" using c by (auto elim: canon_FullE)
    moreover have "bounded t" "length (rlp_ref H t) \<le> length (?enc ts)"
      using b in_set_takeD [OF t] length_member_concat [of t ts "\<lambda>t. rlp_ref H t"] by auto
    ultimately show "(t = PNil \<or> canon t) \<and> bounded t \<and> length (rlp_ref H t) < n" using n by auto
  qed
  then have "decodeFull_loop dec 16 (?enc ts) = Ok (map (vref H) (take 16 ts), rlp_string v)"
    using decodeFull_loop_rlp [OF H dec, of "take 16 ts" "rlp_string v"] len l unfolding enc by simp
  moreover have "SplitString (rlp_string v) = Inr (v, [])"
    using SplitString_rlp_string [of v "[]"] len unfolding enc by simp
  moreover have "map (vref H) ts = map (vref H) (take 16 ts) @ [if v = [] then NilNode else ValueNode v]"
    by (subst ts) (simp add: v vref_outer)
  ultimately show ?thesis by (auto simp: decodeFull_def view_Full simp del: view.simps)
qed

lemma decodeNode_rlp_node:
  assumes H: "hash32 H"
  shows "canon t \<Longrightarrow> bounded t \<Longrightarrow> length (rlp_node H t) < fuel \<Longrightarrow> length (rlp_node H t @ r) < 2 ^ 63 \<Longrightarrow>
    decodeNode fuel h (rlp_node H t @ r) = Ok (view H h t)"
proof (induction fuel arbitrary: t h r)
  case (Suc f)
  have dec: "decodes_small H (decodeNode f None) f"
    using Suc.IH by (auto simp: decodes_small_def)
  show ?case
  proof (cases t)
    case (PShort k u)
    let ?e = "rlp_string (compactKey k) @ rlp_ref H u"
    have t: "rlp_node H t = rlp_list ?e" by (simp add: PShort)
    have "CountValues (concat [rlp_string (compactKey k), rlp_ref H u]) = Inr (length [rlp_string (compactKey k), rlp_ref H u])"
      using rlp_ref_value [of H u] rlp_value_string [of "compactKey k"] Suc.prems(4) length_rlp_list_gt [of ?e] t
      by (intro CountValues_concat) auto
    moreover have "decodeShort (decodeNode f None) h ?e = Ok (view H h t)"
      unfolding PShort using Suc.prems PShort length_rlp_list_gt [of ?e] t by (intro decodeShort_rlp [OF H _ _ dec]) auto
    ultimately show ?thesis
      using SplitList_rlp_list [of ?e r] Suc.prems(4) length_rlp_list_gt [of ?e] unfolding t by auto
  next
    case (PFull ts)
    let ?e = "concat (map (\<lambda>t. rlp_ref H t) ts)"
    have t: "rlp_node H t = rlp_list ?e" by (simp add: PFull)
    have l: "length ts = 17" using Suc.prems(1) PFull by (auto elim: canon_FullE)
    have "CountValues ?e = Inr (length (map (\<lambda>t. rlp_ref H t) ts))"
      using rlp_ref_value [of H] Suc.prems(4) length_rlp_list_gt [of ?e] t by (intro CountValues_concat) auto
    moreover have "decodeFull (decodeNode f None) h ?e = Ok (view H h t)"
      unfolding PFull using Suc.prems PFull length_rlp_list_gt [of ?e] t by (intro decodeFull_rlp [OF H _ _ dec]) auto
    ultimately show ?thesis
      using SplitList_rlp_list [of ?e r] Suc.prems(4) length_rlp_list_gt [of ?e] l unfolding t by auto
  qed (use Suc.prems in auto)
qed simp

end
