(* ===== verification/Trie_Map.thy ===== *)
theory Trie_Map
  imports Trie_Hash
begin

section \<open>Package trie: a trie is a map with a root hash\<close>

text \<open>
  The contract that the users of a trie rely on, as a locale: reading and writing behave like a map,
  and the root hash is a function of the contents. The interpretation shows that \<^verbatim>\<open>TryGet\<close>, \<^verbatim>\<open>TryUpdate\<close>
  and \<^verbatim>\<open>Hash\<close> fulfil it on every trie that expands to a canonical one, with enough fuel for the key, and the
  client lemma that the order of updates does not matter is then a property of the code.
\<close>

subsection \<open>The contract\<close>

text \<open>Writing the empty value deletes the key.\<close>

definition kv_upd :: "(bytes \<rightharpoonup> bytes) \<Rightarrow> bytes \<Rightarrow> bytes \<Rightarrow> (bytes \<rightharpoonup> bytes)" where
  "kv_upd m k v = m(k := if v = [] then None else Some v)"

lemma kv_upd_apply: "kv_upd m k v x = (if x = k then if v = [] then None else Some v else m x)"
  by (simp add: kv_upd_def)

locale kv_store =
  fixes rep :: "'s \<Rightarrow> (bytes \<rightharpoonup> bytes) \<Rightarrow> bool"
    and get :: "'s \<Rightarrow> bytes \<Rightarrow> bytes option \<times> 's"
    and put :: "'s \<Rightarrow> bytes \<Rightarrow> bytes \<Rightarrow> 's"
    and root :: "'s \<Rightarrow> bytes option \<times> 's"
    and small :: "bytes \<Rightarrow> bool"
  assumes get_rep: "rep s m \<Longrightarrow> fst (get s k) = m k \<and> rep (snd (get s k)) m"
    and put_rep: "rep s m \<Longrightarrow> small k \<Longrightarrow> small v \<Longrightarrow> rep (put s k v) (kv_upd m k v)"
    and root_rep: "rep s m \<Longrightarrow> rep (snd (root s)) m"
    and root_det: "rep s m \<Longrightarrow> rep s' m \<Longrightarrow> fst (root s) = fst (root s')"
begin

definition put_all :: "'s \<Rightarrow> (bytes \<times> bytes) list \<Rightarrow> 's" where
  "put_all s kvs = foldl (\<lambda>s (k, v). put s k v) s kvs"

definition upd_all :: "(bytes \<rightharpoonup> bytes) \<Rightarrow> (bytes \<times> bytes) list \<Rightarrow> (bytes \<rightharpoonup> bytes)" where
  "upd_all m kvs = foldl (\<lambda>m (k, v). kv_upd m k v) m kvs"

lemma put_all_rep:
  "rep s m \<Longrightarrow> \<forall>(k, v) \<in> set kvs. small k \<and> small v \<Longrightarrow> rep (put_all s kvs) (upd_all m kvs)"
proof (induction kvs arbitrary: s m)
  case (Cons kv kvs)
  obtain k v where "kv = (k, v)" by (cases kv)
  with Cons.prems have "rep (put s k v) (kv_upd m k v)" by (intro put_rep) auto
  from Cons.IH [OF this] Cons.prems \<open>kv = (k, v)\<close> show ?case
    by (simp add: put_all_def upd_all_def)
qed (simp add: put_all_def upd_all_def)

lemma upd_all_notin: "k \<notin> fst ` set kvs \<Longrightarrow> upd_all m kvs k = m k"
  by (induction kvs arbitrary: m) (auto simp: upd_all_def kv_upd_apply)

lemma upd_all_in:
  "distinct (map fst kvs) \<Longrightarrow> (k, v) \<in> set kvs \<Longrightarrow> upd_all m kvs k = (if v = [] then None else Some v)"
proof (induction kvs arbitrary: m)
  case (Cons kv kvs)
  obtain k' v' where kv: "kv = (k', v')" by (cases kv)
  show ?case
  proof (cases "(k, v) \<in> set kvs")
    case True
    with Cons kv show ?thesis by (simp add: upd_all_def)
  next
    case False
    then have "k = k'" "v = v'" using Cons.prems kv by auto
    then have "k \<notin> fst ` set kvs" using Cons.prems kv by auto
    with upd_all_notin [of k kvs "kv_upd m k' v'"] \<open>k = k'\<close> \<open>v = v'\<close> kv
    show ?thesis by (simp add: upd_all_def kv_upd_apply)
  qed
qed simp

lemma upd_all_cong:
  assumes "distinct (map fst kvs)" "distinct (map fst kvs')" "set kvs = set kvs'"
  shows "upd_all m kvs = upd_all m kvs'"
proof
  fix k
  show "upd_all m kvs k = upd_all m kvs' k"
  proof (cases "k \<in> fst ` set kvs")
    case True
    then obtain v where "(k, v) \<in> set kvs" by auto
    with assms upd_all_in show ?thesis by metis
  next
    case False
    with assms(3) upd_all_notin show ?thesis by metis
  qed
qed

text \<open>The order in which distinct keys are written does not matter for the root.\<close>

lemma root_order:
  assumes "rep s m" "rep s' m" "distinct (map fst kvs)" "distinct (map fst kvs')" "set kvs = set kvs'"
    "\<forall>(k, v) \<in> set kvs. small k \<and> small v"
  shows "fst (root (put_all s kvs)) = fst (root (put_all s' kvs'))"
  using put_all_rep [OF assms(1), of kvs] put_all_rep [OF assms(2), of kvs'] upd_all_cong [OF assms(3-5), of m] assms(5,6)
  by (intro root_det [of _ "upd_all m kvs"]) auto

end

subsection \<open>Hex keys and key bytes\<close>

definition hexmap :: "(bytes \<rightharpoonup> bytes) \<Rightarrow> (bytes \<rightharpoonup> bytes)" where
  "hexmap m h = (case hexToKeybytes h of Some k \<Rightarrow> if keybytesToHex k = h then m k else None | None \<Rightarrow> None)"

lemma hexmap_key [simp]: "hexmap m (keybytesToHex k) = m k"
  by (simp add: hexmap_def hexToKeybytes_keybytesToHex)

lemma hexmap_Some: "hexmap m h = Some v \<longleftrightarrow> (\<exists>k. h = keybytesToHex k \<and> m k = Some v)"
  by (auto simp: hexmap_def hexToKeybytes_keybytesToHex split: option.splits if_splits)

lemma hexmap_upd: "hexmap (m(k := v)) = (hexmap m)(keybytesToHex k := v)"
proof
  fix h
  show "hexmap (m(k := v)) h = ((hexmap m)(keybytesToHex k := v)) h"
    by (cases "h = keybytesToHex k") (auto simp: hexmap_def hexToKeybytes_keybytesToHex split: option.splits)
qed

lemma hexmap_inj: "hexmap m = hexmap m' \<Longrightarrow> m = m'"
proof
  fix k assume "hexmap m = hexmap m'"
  then show "m k = m' k" by (metis hexmap_key)
qed

lemma length_keybytesToHex: "length (keybytesToHex k) = 2 * length k + 1"
  by (simp add: keybytesToHex_nibbles)

subsection \<open>A trie represents a map\<close>

definition small_bytes :: "bytes \<Rightarrow> bool" where
  "small_bytes b \<longleftrightarrow> length b < 2 ^ 54"

lemma bounded_keys:
  assumes "canon t" "\<And>k v. plookup t k = Some v \<Longrightarrow> length k < 2 ^ 56 \<and> length v < 2 ^ 56"
  shows "bounded t"
  using assms
proof (induction t rule: canon.induct)
  case (leaf p v)
  then show ?case using leaf.prems [of p v] by (simp add: plookup_Short_Some)
next
  case (ext p ts)
  obtain k v where "plookup (PFull ts) k = Some v" using canon_key_ex [OF ext(3)] by blast
  then have "length p < 2 ^ 56" using ext.prems [of "p @ k" v] by (simp add: plookup_Short_Some)
  moreover have "bounded (PFull ts)"
  proof (rule ext.IH)
    fix k v assume "plookup (PFull ts) k = Some v"
    then show "length k < 2 ^ 56 \<and> length v < 2 ^ 56" using ext.prems [of "p @ k" v] by (simp add: plookup_Short_Some)
  qed
  ultimately show ?case by simp
next
  case (full ts)
  have "bounded (ts ! i)" if "i < 17" for i
  proof -
    have pre: "length k < 2 ^ 56 \<and> length v < 2 ^ 56" if "plookup (ts ! i) k = Some v" for k v
    proof -
      have "plookup (PFull ts) (word_of_nat i # k) = Some v"
        using that \<open>i < 17\<close> full.hyps(1) by (simp add: unat_of_nat)
      from full.prems [OF this] show ?thesis by simp
    qed
    have "i < 16 \<or> i = 16" using that by linarith
    then consider "ts ! i = PNil" | "i < 16" "canon (ts ! i)" "bounded (ts ! i)" | "i = 16" using full.IH pre by blast
    then show ?thesis
    proof cases
      case 3
      with full.hyps(2) pre [of "[]"] show ?thesis by auto
    qed simp_all
  qed
  with full.hyps(1) show ?case by (auto simp: set_conv_nth)
qed

definition trie_rep :: "(bytes \<Rightarrow> bytes) \<Rightarrow> node_db \<Rightarrow> trie \<Rightarrow> (bytes \<rightharpoonup> bytes) \<Rightarrow> bool" where
  "trie_rep H db s m \<longleftrightarrow> hash32 H \<and>
     (\<exists>t. expands (hash_ok H) db (root_ok H) (t_root s) t \<and> wf_root t \<and> plookup t = hexmap m) \<and>
     (\<forall>k v. m k = Some v \<longrightarrow> small_bytes k \<and> small_bytes v)"

text \<open>The operations with fuel for the key, as the trie's users call them.\<close>

definition key_fuel :: "bytes \<Rightarrow> nat" where
  "key_fuel k = 4 * length k + 4"

definition trie_get :: "node_db \<Rightarrow> trie \<Rightarrow> bytes \<Rightarrow> bytes option \<times> trie" where
  "trie_get db s k = (case TryGet db (key_fuel k) s k of (Ok v, s') \<Rightarrow> (v, s') | (_, s') \<Rightarrow> (None, s'))"

definition trie_put :: "node_db \<Rightarrow> trie \<Rightarrow> bytes \<Rightarrow> bytes \<Rightarrow> trie" where
  "trie_put db s k v = snd (TryUpdate db (key_fuel k) s k v)"

definition trie_hash :: "(bytes \<Rightarrow> bytes) \<Rightarrow> trie \<Rightarrow> bytes option \<times> trie" where
  "trie_hash H s = (case Hash H s of Some (h, s') \<Rightarrow> (Some h, s') | None \<Rightarrow> (None, s))"

lemma fits_key: "wf_root t \<Longrightarrow> fits t (keybytesToHex k)"
  using termkey_keybytes [of k] by (auto simp: fits_def)

lemma fuel_for_key: "2 * length (keybytesToHex k) + 2 \<le> fuel \<Longrightarrow> fuel_for n (length (keybytesToHex k)) \<le> fuel"
  using fuel_for_le [of n "length (keybytesToHex k)"] by simp

lemma trie_rep_empty: "hash32 H \<Longrightarrow> trie_rep H db \<lparr>t_root = NilNode, t_unhashed = u\<rparr> Map.empty"
  by (auto simp: trie_rep_def wf_root_def hexmap_def fun_eq_iff split: option.splits intro!: exI [of _ PNil] expands.nil)

lemma TryGet_rep:
  assumes "trie_rep H db s m" "4 * length k + 4 \<le> fuel"
  shows "\<exists>s'. TryGet db fuel s k = (Ok (m k), s') \<and> trie_rep H db s' m"
proof -
  obtain t where t: "expands (hash_ok H) db (root_ok H) (t_root s) t" "wf_root t" "plookup t = hexmap m"
    using assms(1) by (auto simp: trie_rep_def)
  obtain n' d where "tryGet db fuel (t_root s) (keybytesToHex k) 0 = Ok (plookup t (keybytesToHex k), n', d)"
    "expands (hash_ok H) db (root_ok H) n' t"
    using tryGet_sim [OF t(1), of 0 "keybytesToHex k" fuel] fits_key [OF t(2)] fuel_for_key assms(2)
    by (auto simp: length_keybytesToHex)
  with t assms(1) show ?thesis by (auto simp: TryGet_def trie_rep_def)
qed

lemma TryUpdate_rep:
  assumes "trie_rep H db s m" "4 * length k + 4 \<le> fuel" "small_bytes k" "small_bytes v"
  shows "\<exists>s'. TryUpdate db fuel s k v = (Ok (), s') \<and> trie_rep H db s' (kv_upd m k v)"
proof -
  obtain t where t: "expands (hash_ok H) db (root_ok H) (t_root s) t" "wf_root t" "plookup t = hexmap m"
    using assms(1) by (auto simp: trie_rep_def)
  let ?k = "keybytesToHex k"
  have f: "fuel_for (t_root s) (length ?k) \<le> fuel" using fuel_for_key assms(2) by (simp add: length_keybytesToHex)
  have k: "fits t ?k" "?k \<noteq> []" using fits_key [OF t(2)] by (auto simp: keybytesToHex_nibbles)
  show ?thesis
  proof (cases "v = []")
    case True
    obtain d n' where "delete_node db fuel (t_root s) [] ?k = Ok (d, n')"
      "expands (hash_ok H) db (root_ok H) n' (pdelete t ?k)"
      using delete_sim [OF t(1) k(1) f] by blast
    moreover have "wf_root (pdelete t ?k)" "plookup (pdelete t ?k) = hexmap (m(k := None))"
      using pdelete_correct [OF k(1)] k(2) t(3) by (auto simp: fits_def hexmap_upd)
    ultimately show ?thesis
      using True assms(1) by (auto simp: TryUpdate_def set_root_def trie_rep_def kv_upd_def)
  next
    case False
    obtain d n' where "insert_node db fuel (t_root s) [] ?k (ValueNode v) = Ok (d, n')"
      "expands (hash_ok H) db (root_ok H) n' (pinsert t ?k (PVal v))"
      using insert_sim [OF t(1) k(1) False f] by blast
    moreover have "wf_root (pinsert t ?k (PVal v))" "plookup (pinsert t ?k (PVal v)) = hexmap (m(k \<mapsto> v))"
      using pinsert_correct [OF k(1) False] k(2) t(3) by (auto simp: fits_def hexmap_upd)
    ultimately show ?thesis
      using False assms by (auto simp: TryUpdate_def set_root_def trie_rep_def kv_upd_def)
  qed
qed

lemma TryDelete_TryUpdate: "TryDelete db fuel s k = TryUpdate db fuel s k []"
  by (simp add: TryDelete_def TryUpdate_def)

subsection \<open>The root hash\<close>

lemma BytesToHash_32: "length h = 32 \<Longrightarrow> BytesToHash h = h"
  by (simp add: BytesToHash_def)

lemma trie_rep_bounded:
  assumes "plookup t = hexmap m" "canon t" "\<forall>k v. m k = Some v \<longrightarrow> small_bytes k \<and> small_bytes v"
  shows "bounded t"
proof (rule bounded_keys [OF assms(2)])
  fix h v assume "plookup t h = Some v"
  then obtain k where "h = keybytesToHex k" "m k = Some v" using assms(1) by (auto simp: hexmap_Some)
  with assms(3) show "length h < 2 ^ 56 \<and> length v < 2 ^ 56"
    by (fastforce simp: length_keybytesToHex small_bytes_def)
qed

lemma wf_root_unique: "wf_root t \<Longrightarrow> wf_root t' \<Longrightarrow> plookup t = plookup t' \<Longrightarrow> t = t'"
  using canon_unique [of t t'] canon_unique [of t' t] by (auto simp: wf_root_def)

lemma Hash_root_hash:
  assumes "trie_rep H db s m" "wf_root t" "plookup t = hexmap m"
  shows "\<exists>s'. Hash H s = Some (root_hash H t, s') \<and> trie_rep H db s' m"
proof -
  obtain u where u: "expands (hash_ok H) db (root_ok H) (t_root s) u" "wf_root u" "plookup u = hexmap m"
    and H: "hash32 H" and m: "\<forall>k v. m k = Some v \<longrightarrow> small_bytes k \<and> small_bytes v"
    using assms(1) by (auto simp: trie_rep_def)
  have tu: "u = t" using u(2,3) assms(2,3) by (auto intro: wf_root_unique)
  show ?thesis
  proof (cases "t = PNil")
    case True
    then have "t_root s = NilNode" using u(1) tu expands_PNil_iff by blast
    with True assms(1) show ?thesis
      by (auto simp: Hash_def hashRoot_def root_hash_def BytesToHash_def emptyRoot_def trie_rep_def)
  next
    case False
    then have c: "canon t" using assms(2) by (simp add: wf_root_def)
    have "t_root s \<noteq> NilNode" using u(1) tu False expands_PNil_iff by blast
    moreover have "hash_result H db (root_ok H) True (t_root s) t"
      using u(1) tu H c trie_rep_bounded [OF assms(3) c m] by (intro hash_node_correct(1)) auto
    moreover have "BytesToHash (H b) = H b" for b using H by (simp add: BytesToHash_32 hash32_def)
    ultimately show ?thesis
      using False assms(1,2,3) H by (auto simp: hash_result_def Hash_def hashRoot_def root_hash_def trie_rep_def)
  qed
qed

lemma Hash_rep:
  assumes "trie_rep H db s m"
  obtains t s' where "wf_root t" "plookup t = hexmap m" "Hash H s = Some (root_hash H t, s')" "trie_rep H db s' m"
proof -
  obtain t where "wf_root t" "plookup t = hexmap m" using assms by (auto simp: trie_rep_def)
  with Hash_root_hash [OF assms] that show ?thesis by blast
qed

interpretation tm: kv_store "trie_rep H db" "trie_get db" "trie_put db" "trie_hash H" small_bytes for H db
proof
  fix s m k
  assume "trie_rep H db s m"
  from TryGet_rep [OF this, of k "key_fuel k"]
  show "fst (trie_get db s k) = m k \<and> trie_rep H db (snd (trie_get db s k)) m"
    by (auto simp: trie_get_def key_fuel_def)
next
  fix s m k v
  assume "trie_rep H db s m" "small_bytes k" "small_bytes v"
  from TryUpdate_rep [OF this(1) _ this(2,3), of "key_fuel k"]
  show "trie_rep H db (trie_put db s k v) (kv_upd m k v)"
    by (auto simp: trie_put_def key_fuel_def)
next
  fix s m
  assume "trie_rep H db s m"
  then show "trie_rep H db (snd (trie_hash H s)) m" by (rule Hash_rep) (simp add: trie_hash_def)
next
  fix s s' m
  assume a: "trie_rep H db s m" and b: "trie_rep H db s' m"
  from a obtain t where t: "wf_root t" "plookup t = hexmap m" by (rule Hash_rep)
  from Hash_root_hash [OF a t] Hash_root_hash [OF b t]
  show "fst (trie_hash H s) = fst (trie_hash H s')" by (auto simp: trie_hash_def)
qed

subsection \<open>Properties\<close>

text \<open>C1: A trie is a map. On a trie whose loaded and unloaded nodes make up a canonical trie with the contents \<open>m\<close>,
  \<^verbatim>\<open>TryUpdate\<close> ends without an error or a panic and \<^verbatim>\<open>TryGet\<close> afterwards returns the written value for the written key (none
  when the value was empty), the old value for every other key, and leaves the contents as they are. Fuel linear in the
  length of the key is enough.\<close>

theorem TryGet_TryUpdate:
  assumes "trie_rep H db s m" "small_bytes k" "small_bytes v"
    "4 * length k + 4 \<le> fuel" "4 * length k' + 4 \<le> fuel'"
  shows "\<exists>s1 s2. TryUpdate db fuel s k v = (Ok (), s1) \<and>
    TryGet db fuel' s1 k' = (Ok (if k' = k then if v = [] then None else Some v else m k'), s2) \<and>
    trie_rep H db s2 (m(k := if v = [] then None else Some v))"
proof -
  obtain s1 where s1: "TryUpdate db fuel s k v = (Ok (), s1)" "trie_rep H db s1 (kv_upd m k v)"
    using TryUpdate_rep [OF assms(1,4,2,3)] by blast
  from TryGet_rep [OF s1(2) assms(5)] s1(1) show ?thesis by (auto simp: kv_upd_def)
qed

theorem TryGet_TryUpdate_witness:
  "\<exists>s1 s2. TryUpdate (\<lambda>_. None) 12 \<lparr>t_root = NilNode, t_unhashed = 0\<rparr> [1, 2] [7] = (Ok (), s1) \<and>
    TryGet (\<lambda>_. None) 12 s1 [1, 2] = (Ok (Some [7]), s2) \<and>
    trie_rep (\<lambda>_. replicate 32 0) (\<lambda>_. None) s2 [[1, 2] \<mapsto> [7]]"
  using TryGet_TryUpdate [OF trie_rep_empty [of "\<lambda>_. replicate 32 0" "\<lambda>_. None" 0], of "[1, 2]" "[7]" 12 "[1, 2]" 12]
  by (simp add: hash32_def small_bytes_def)

text \<open>C2: The root hash depends on the contents only. Two tries with the same contents, whatever their history, their
  cached hashes and the state of loading of their nodes, have the same root hash, and hashing changes no contents.\<close>

theorem Hash_contents:
  assumes "trie_rep H db s m" "trie_rep H db' s' m"
  shows "\<exists>h t t'. Hash H s = Some (h, t) \<and> Hash H s' = Some (h, t') \<and> trie_rep H db t m \<and> trie_rep H db' t' m"
proof -
  from assms(1) obtain t where t: "wf_root t" "plookup t = hexmap m" by (rule Hash_rep)
  from Hash_root_hash [OF assms(1) t] Hash_root_hash [OF assms(2) t] show ?thesis by auto
qed

theorem Hash_contents_witness:
  "\<exists>h t t'. Hash (\<lambda>_. replicate 32 0) (trie_put (\<lambda>_. None) (trie_put (\<lambda>_. None) \<lparr>t_root = NilNode, t_unhashed = 0\<rparr> [1] [7]) [1] []) = Some (h, t) \<and>
    Hash (\<lambda>_. replicate 32 0) \<lparr>t_root = NilNode, t_unhashed = 5\<rparr> = Some (h, t') \<and>
    trie_rep (\<lambda>_. replicate 32 0) (\<lambda>_. None) t Map.empty \<and> trie_rep (\<lambda>_. replicate 32 0) (\<lambda>_. None) t' Map.empty"
proof -
  let ?H = "\<lambda>_ :: bytes. replicate 32 (0 :: byte)" and ?db = "\<lambda>_. None"
  have e: "trie_rep ?H ?db \<lparr>t_root = NilNode, t_unhashed = u\<rparr> Map.empty" for u
    by (rule trie_rep_empty) (simp add: hash32_def)
  have "trie_rep ?H ?db (trie_put ?db \<lparr>t_root = NilNode, t_unhashed = 0\<rparr> [1] [7]) (kv_upd Map.empty [1] [7])"
    by (rule tm.put_rep [OF e]) (simp_all add: small_bytes_def)
  then have "trie_rep ?H ?db (trie_put ?db (trie_put ?db \<lparr>t_root = NilNode, t_unhashed = 0\<rparr> [1] [7]) [1] [])
      (kv_upd (kv_upd Map.empty [1] [7]) [1] [])"
    by (rule tm.put_rep) (simp_all add: small_bytes_def)
  moreover have "kv_upd (kv_upd Map.empty [1] [7]) [1] [] = Map.empty" by (simp add: kv_upd_def)
  ultimately show ?thesis by (intro Hash_contents [OF _ e]) simp
qed

text \<open>C19: The order of updates does not matter. Writing the same values to distinct keys in two orders gives the same root
  hash.\<close>

theorem Hash_order:
  assumes "trie_rep H db s m" "distinct (map fst kvs)" "distinct (map fst kvs')" "set kvs = set kvs'"
    "\<forall>(k, v) \<in> set kvs. small_bytes k \<and> small_bytes v"
  shows "fst (trie_hash H (foldl (\<lambda>s (k, v). trie_put db s k v) s kvs)) =
    fst (trie_hash H (foldl (\<lambda>s (k, v). trie_put db s k v) s kvs'))"
  using tm.root_order [OF assms(1,1,2-5)] by (simp add: tm.put_all_def)

theorem Hash_order_witness:
  "fst (trie_hash (\<lambda>_. replicate 32 0) (foldl (\<lambda>s (k, v). trie_put (\<lambda>_. None) s k v) \<lparr>t_root = NilNode, t_unhashed = 0\<rparr> [([1], [7]), ([2], [8])])) =
    fst (trie_hash (\<lambda>_. replicate 32 0) (foldl (\<lambda>s (k, v). trie_put (\<lambda>_. None) s k v) \<lparr>t_root = NilNode, t_unhashed = 0\<rparr> [([2], [8]), ([1], [7])]))"
  using Hash_order [OF trie_rep_empty [of "\<lambda>_. replicate 32 0" "\<lambda>_. None" 0], of "[([1], [7]), ([2], [8])]" "[([2], [8]), ([1], [7])]"]
  by (simp add: hash32_def small_bytes_def insert_commute)

end
