(* ===== verification/Trie_Proof.thy ===== *)
theory Trie_Proof
  imports Trie_Map
begin

section \<open>Package trie: Merkle proofs\<close>

text \<open>
  \<^verbatim>\<open>Prove\<close>, \<^verbatim>\<open>get\<close> and \<^verbatim>\<open>VerifyProof\<close> of \<^verbatim>\<open>src/trie/proof.go\<close> and \<^verbatim>\<open>proofHash\<close> of \<^verbatim>\<open>src/trie/hasher.go\<close>. A proof database is a map from
  hashes to byte strings; \<^verbatim>\<open>Prove\<close> returns the list of its \<^verbatim>\<open>Put\<close> calls. The loop of \<^verbatim>\<open>VerifyProof\<close> has no bound of its own
  and is fuelled; one nibble of the key per round is consumed on an honest proof. The properties are that an
  accepted proof gives the value the trie has (when no two encodings collide), that the proofs of \<^verbatim>\<open>Prove\<close> are
  accepted, and that no proof database, however malformed, makes the verifier panic.
\<close>

subsection \<open>The code\<close>

fun get_path :: "node \<Rightarrow> bytes \<Rightarrow> bool \<Rightarrow> (trie_error, bytes \<times> node) run" where
  "get_path (ShortNode k v fl) key skipResolved =
     (if length key < length k \<or> k \<noteq> take (length k) key then Ok ([], NilNode)
      else if \<not> skipResolved then Ok (drop (length k) key, v)
      else get_path v (drop (length k) key) skipResolved)"
| "get_path (FullNode children fl) key skipResolved =
     (if 0 < length key \<and> unat (key ! 0) < length children then
        if \<not> skipResolved then Ok (drop 1 key, children ! unat (key ! 0))
        else get_path (children ! unat (key ! 0)) (drop 1 key) skipResolved
      else Err TriePanic)"
| "get_path (HashNode h) key skipResolved = Ok (key, HashNode h)"
| "get_path NilNode key skipResolved = Ok (key, NilNode)"
| "get_path (ValueNode v) key skipResolved = Ok ([], ValueNode v)"

datatype proof_error = ProofMissing nat bytes | BadProofNode nat node_error | ProofPanic

type_synonym proof_db = "bytes \<rightharpoonup> bytes"

text \<open>\<^verbatim>\<open>copy(wantHash[:], cld)\<close>: the array keeps its length.\<close>

definition copy_hash :: "bytes \<Rightarrow> bytes \<Rightarrow> bytes" where
  "copy_hash wantHash cld = take (length wantHash) cld @ drop (length cld) wantHash"

fun VerifyProof_loop :: "nat \<Rightarrow> nat \<Rightarrow> bytes \<Rightarrow> bytes \<Rightarrow> proof_db \<Rightarrow> (proof_error, bytes option) run" where
  "VerifyProof_loop 0 i wantHash key proofDb = OutOfFuel"
| "VerifyProof_loop (Suc fuel) i wantHash key proofDb =
     (case proofDb wantHash of
        None \<Rightarrow> Err (ProofMissing i wantHash)
      | Some buf \<Rightarrow>
          (case decodeNode (Suc (length buf)) (Some wantHash) buf of
             OutOfFuel \<Rightarrow> OutOfFuel
           | Err e \<Rightarrow> Err (BadProofNode i e)
           | Ok n \<Rightarrow>
               (case get_path n key True of
                  Ok (keyrest, cld) \<Rightarrow>
                    (case cld of
                       NilNode \<Rightarrow> Ok None
                     | HashNode h \<Rightarrow> VerifyProof_loop fuel (i + 1) (copy_hash wantHash h) keyrest proofDb
                     | ValueNode v \<Rightarrow> Ok (Some v)
                     | _ \<Rightarrow> VerifyProof_loop fuel (i + 1) wantHash key proofDb)
                | Err _ \<Rightarrow> Err ProofPanic
                | OutOfFuel \<Rightarrow> OutOfFuel)))"

definition VerifyProof :: "nat \<Rightarrow> bytes \<Rightarrow> bytes \<Rightarrow> proof_db \<Rightarrow> (proof_error, bytes option) run" where
  "VerifyProof fuel rootHash key proofDb = VerifyProof_loop fuel 0 rootHash (keybytesToHex key) proofDb"

definition proofHash :: "(bytes \<Rightarrow> bytes) \<Rightarrow> node \<Rightarrow> (node \<times> node) option" where
  "proofHash H original =
     (case original of
        ShortNode k v fl \<Rightarrow>
          (case (if inner v then hash_node H v False else Some (v, v)) of
             None \<Rightarrow> None
           | Some (collapsed_v, _) \<Rightarrow>
               (case hexToCompact k of
                  None \<Rightarrow> None
                | Some ck \<Rightarrow>
                    (let sn = ShortNode ck collapsed_v fl in map_option (Pair sn) (nodeToHash H sn False))))
      | FullNode children fl \<Rightarrow>
          (case hash_children H (take 16 children) of
             None \<Rightarrow> None
           | Some (children_c, _) \<Rightarrow>
               (let fn = FullNode (children_c @ drop 16 children) fl in map_option (Pair fn) (nodeToHash H fn False)))
      | n \<Rightarrow> Some (n, n))"

fun Prove_path :: "node_db \<Rightarrow> nat \<Rightarrow> node \<Rightarrow> bytes \<Rightarrow> (trie_error, node list) run" where
  "Prove_path db 0 tn key = OutOfFuel"
| "Prove_path db (Suc fuel) tn key =
     (if length key > 0 \<and> tn \<noteq> NilNode then
        (case tn of
           ShortNode k v fl \<Rightarrow>
             if length key < length k \<or> k \<noteq> take (length k) key then
               bindr (Prove_path db fuel NilNode key) (\<lambda>nodes. Ok (tn # nodes))
             else bindr (Prove_path db fuel v (drop (length k) key)) (\<lambda>nodes. Ok (tn # nodes))
         | FullNode children fl \<Rightarrow>
             if unat (key ! 0) < length children then
               bindr (Prove_path db fuel (children ! unat (key ! 0)) (drop 1 key)) (\<lambda>nodes. Ok (tn # nodes))
             else Err TriePanic
         | HashNode h \<Rightarrow> bindr (resolveHash db h []) (\<lambda>rn. Prove_path db fuel rn key)
         | _ \<Rightarrow> Err TriePanic)
      else Ok [])"

text \<open>An error of \<^verbatim>\<open>rlp.EncodeToBytes\<close> is ignored by the code and leaves no bytes.\<close>

fun Prove_puts :: "(bytes \<Rightarrow> bytes) \<Rightarrow> nat \<Rightarrow> nat \<Rightarrow> node list \<Rightarrow> (trie_error, (bytes \<times> bytes) list) run" where
  "Prove_puts H i fromLevel [] = Ok []"
| "Prove_puts H i fromLevel (n # nodes) =
     (if fromLevel > 0 then Prove_puts H (i + 1) (fromLevel - 1) nodes
      else
        (case proofHash H n of
           None \<Rightarrow> Err TriePanic
         | Some (n, hn) \<Rightarrow>
             (let enc = (case encode_node n of Some enc \<Rightarrow> enc | None \<Rightarrow> []) in
              case hn of
                HashNode h \<Rightarrow> bindr (Prove_puts H (i + 1) fromLevel nodes) (\<lambda>puts. Ok ((h, enc) # puts))
              | _ \<Rightarrow>
                  if i = 0 then bindr (Prove_puts H (i + 1) fromLevel nodes) (\<lambda>puts. Ok ((H enc, enc) # puts))
                  else Prove_puts H (i + 1) fromLevel nodes)))"

definition Prove ::
  "(bytes \<Rightarrow> bytes) \<Rightarrow> node_db \<Rightarrow> nat \<Rightarrow> trie \<Rightarrow> bytes \<Rightarrow> nat \<Rightarrow> (trie_error, (bytes \<times> bytes) list) run" where
  "Prove H db fuel t key fromLevel =
     bindr (Prove_path db fuel (t_root t) (keybytesToHex key)) (Prove_puts H 0 fromLevel)"

definition put_db :: "(bytes \<times> bytes) list \<Rightarrow> proof_db" where
  "put_db puts = foldl (\<lambda>m (k, v). m(k \<mapsto> v)) Map.empty puts"

subsection \<open>The path of a key\<close>

fun ppath :: "ptree \<Rightarrow> bytes \<Rightarrow> ptree list" where
  "ppath (PShort p t) k =
     PShort p t # (if take (length p) k = p then ppath t (drop (length p) k) else [])"
| "ppath (PFull ts) [] = [PFull ts]"
| "ppath (PFull ts) (x # k) = PFull ts # (if unat x < length ts then ppath (ts ! unat x) k else [])"
| "ppath _ k = []"

lemma ppath_sub: "u \<in> set (ppath t k) \<Longrightarrow> bounded t \<Longrightarrow> bounded u \<and> pinner u"
  by (induction t k rule: ppath.induct) (auto split: if_splits)

lemma ppath_self: "pinner t \<Longrightarrow> t \<in> set (ppath t k)"
  by (cases t; cases k) auto

subsection \<open>Walking down a decoded node\<close>

text \<open>What \<^verbatim>\<open>get\<close> finds: nothing or a value, which the trie has for the key, or the hash of a subtrie on the path of the
  key, in which the rest of the key has the value of the key.\<close>

definition get_ok :: "(bytes \<Rightarrow> bytes) \<Rightarrow> nat \<Rightarrow> ptree \<Rightarrow> bytes \<Rightarrow> (trie_error, bytes \<times> node) run \<Rightarrow> bool" where
  "get_ok H l t key r \<longleftrightarrow> (\<exists>kr c. r = Ok (kr, c) \<and>
     (c = NilNode \<and> plookup t key = None \<or>
      (\<exists>v. c = ValueNode v \<and> plookup t key = Some v) \<or>
      (\<exists>u. c = HashNode (H (rlp_node H u)) \<and> 32 \<le> length (rlp_node H u) \<and> canon u \<and> u \<in> set (ppath t key) \<and>
        termkey kr \<and> plookup u kr = plookup t key \<and> set (ppath u kr) \<subseteq> set (ppath t key) \<and> length kr \<le> l)))"

lemma get_ok_step:
  assumes "get_ok H l t k r" "plookup t k = plookup t' k'" "set (ppath t k) \<subseteq> set (ppath t' k')" "l \<le> l'"
  shows "get_ok H l' t' k' r"
  using assms(1) unfolding get_ok_def
proof (elim exE conjE disjE, goal_cases)
  case (3 kr c u)
  then have "u \<in> set (ppath t' k')" "set (ppath u kr) \<subseteq> set (ppath t' k')" "length kr \<le> l'"
    using assms(3,4) by auto
  with 3 assms(2) show ?case by auto
qed (use assms(2) in auto)

lemma get_vref:
  assumes "fits t key" "canon t \<Longrightarrow> termkey key \<Longrightarrow> get_ok H (length key) t key (get_path (view H None t) key True)"
  shows "get_ok H (length key) t key (get_path (vref H t) key True)"
proof (cases "pinner t")
  case True
  then have c: "canon t" "termkey key" using assms(1) by (auto simp: fits_def wf_root_def split: if_splits)
  show ?thesis
  proof (cases "32 \<le> length (rlp_node H t)")
    case True
    with \<open>pinner t\<close> c ppath_self [OF \<open>pinner t\<close>, of key] show ?thesis by (auto simp: get_ok_def vref_def)
  next
    case False
    with assms(2) c show ?thesis by (simp add: vref_def)
  qed
next
  case False
  with assms(1) show ?thesis
    by (cases t) (auto simp: vref_def get_ok_def fits_def wf_root_def split: if_splits)
qed

lemma get_view:
  "canon t \<Longrightarrow> termkey key \<Longrightarrow> get_ok H (length key - 1) t key (get_path (view H h t) key True)"
proof (induction "size t" arbitrary: t key h rule: less_induct)
  case less
  have sub: "get_ok H (length k) u k (get_path (vref H u) k True)" if "size u < size t" "fits u k" for u k
  proof (rule get_vref [OF that(2)])
    assume "canon u" "termkey k"
    from less.hyps [OF that(1) this, of None]
    show "get_ok H (length k) u k (get_path (view H None u) k True)" by (rule get_ok_step) auto
  qed
  show ?case
  proof (cases t)
    case (PShort p u)
    show ?thesis
    proof (cases "\<exists>k. key = p @ k")
      case True
      then obtain k where k: "key = p @ k" by blast
      have "fits u k" using fits_Short [of p u k] less.prems k PShort by simp
      then have "get_ok H (length k) u k (get_path (vref H u) k True)" by (intro sub) (simp add: PShort)
      moreover have "p \<noteq> []" using canon_Short_nonempty less.prems PShort by blast
      moreover have "length k \<le> length key - 1" using \<open>p \<noteq> []\<close> k by (cases p) auto
      ultimately have "get_ok H (length key - 1) t key (get_path (vref H u) k True)"
        by (elim get_ok_step) (auto simp: PShort k)
      then show ?thesis unfolding PShort view_Short using k by simp
    next
      case False
      then have "take (length p) key \<noteq> p" by (metis append_take_drop_id)
      then show ?thesis by (auto simp: PShort get_ok_def plookup.simps)
    qed
  next
    case (PFull ts)
    obtain x k where k: "key = x # k" using less.prems(2) by (cases key) auto
    have x: "fits (ts ! unat x) k" "unat x < length ts" using fits_Full [of ts x k] less.prems k PFull by auto
    have "size (ts ! unat x) < size t" using x(2) size_nth_ptree by (simp add: PFull)
    from sub [OF this x(1)] have "get_ok H (length key - 1) t key (get_path (vref H (ts ! unat x)) k True)"
      by (rule get_ok_step) (use x in \<open>auto simp: PFull k\<close>)
    then show ?thesis unfolding PFull view_Full using k x(2) by (simp del: view.simps)
  qed (use less.prems in auto)
qed

subsection \<open>Verification of honest proofs\<close>

text \<open>The encodings that a verifier asks for: the root and the large nodes on the path.\<close>

definition proof_nodes :: "(bytes \<Rightarrow> bytes) \<Rightarrow> ptree \<Rightarrow> bytes \<Rightarrow> ptree set" where
  "proof_nodes H t key = insert t {u \<in> set (ppath t key). 32 \<le> length (rlp_node H u)}"

lemma copy_hash_32: "length a = 32 \<Longrightarrow> length b = 32 \<Longrightarrow> copy_hash a b = b"
  by (simp add: copy_hash_def)

lemma VerifyProof_loop_honest:
  assumes H: "hash32 H" and "canon t" "bounded t" "termkey key" "length key < fuel"
    "\<forall>u \<in> proof_nodes H t key. \<forall>b. db (H (rlp_node H u)) = Some b \<longrightarrow> b = rlp_node H u"
  shows "VerifyProof_loop fuel i (H (rlp_node H t)) key db = Ok (plookup t key) \<or>
    (\<exists>j u. VerifyProof_loop fuel i (H (rlp_node H t)) key db = Err (ProofMissing j (H (rlp_node H u))) \<and>
      u \<in> proof_nodes H t key \<and> db (H (rlp_node H u)) = None)"
  using assms(2-)
proof (induction fuel arbitrary: i t key)
  case (Suc f)
  show ?case
  proof (cases "db (H (rlp_node H t))")
    case None
    then show ?thesis by (auto simp: proof_nodes_def)
  next
    case (Some b)
    then have b: "b = rlp_node H t" using Suc.prems(5) by (auto simp: proof_nodes_def)
    have dec: "decodeNode (Suc (length b)) (Some (H b)) b = Ok (view H (Some (H b)) t)"
      using decodeNode_rlp_node [OF H Suc.prems(1,2), of "Suc (length b)" "[]" "Some (H b)"]
        length_rlp_node [OF H Suc.prems(2)] b by simp
    have "get_ok H (length key - 1) t key (get_path (view H (Some (H b)) t) key True)"
      by (rule get_view [OF Suc.prems(1,3)])
    then obtain kr c where r: "get_path (view H (Some (H b)) t) key True = Ok (kr, c)"
      and c: "c = NilNode \<and> plookup t key = None \<or> (\<exists>v. c = ValueNode v \<and> plookup t key = Some v) \<or>
        (\<exists>u. c = HashNode (H (rlp_node H u)) \<and> 32 \<le> length (rlp_node H u) \<and> canon u \<and> u \<in> set (ppath t key) \<and>
          termkey kr \<and> plookup u kr = plookup t key \<and> set (ppath u kr) \<subseteq> set (ppath t key) \<and> length kr \<le> length key - 1)"
      unfolding get_ok_def by blast
    from c consider (leaf) "c = NilNode \<and> plookup t key = None \<or> (\<exists>v. c = ValueNode v \<and> plookup t key = Some v)"
      | (node) u where "c = HashNode (H (rlp_node H u))" "32 \<le> length (rlp_node H u)" "canon u" "u \<in> set (ppath t key)"
          "termkey kr" "plookup u kr = plookup t key" "set (ppath u kr) \<subseteq> set (ppath t key)" "length kr \<le> length key - 1"
      by blast
    then show ?thesis
    proof cases
      case leaf
      with Some b dec r show ?thesis by (auto simp del: decodeNode.simps)
    next
      case node
      have "length kr < f" using node(8) Suc.prems(3,4) by (cases key) auto
      moreover have sub: "proof_nodes H u kr \<subseteq> proof_nodes H t key" using node(2,4,7) by (auto simp: proof_nodes_def)
      moreover have "bounded u" using ppath_sub [OF node(4) Suc.prems(2)] by simp
      moreover have "copy_hash (H b) (H (rlp_node H u)) = H (rlp_node H u)"
        using H by (simp add: hash32_def copy_hash_32)
      ultimately have eq: "VerifyProof_loop (Suc f) i (H (rlp_node H t)) key db = VerifyProof_loop f (i + 1) (H (rlp_node H u)) kr db"
        using Some b dec r node(1) by (simp del: decodeNode.simps)
      have "\<forall>u \<in> proof_nodes H u kr. \<forall>b. db (H (rlp_node H u)) = Some b \<longrightarrow> b = rlp_node H u"
        using Suc.prems(5) sub by blast
      from Suc.IH [OF node(3) \<open>bounded u\<close> node(5) \<open>length kr < f\<close> this, of "i + 1"]
      show ?thesis unfolding eq node(6) [symmetric] using sub by blast
    qed
  qed
qed simp

subsection \<open>Construction of proofs\<close>

lemma collapsed_short:
  assumes e: "expands (hash_ok H) db P (ShortNode k v fl) (PShort k u)" and H: "hash32 H" "bounded (PShort k u)"
    and c: "canon (PShort k u)"
  obtains cv dv where "(if inner v then hash_node H v False else Some (v, v)) = Some (cv, dv)" "collapsed H u cv"
proof -
  have v: "expands (hash_ok H) db (hash_ok H) v u" using e by (auto elim: expands_ShortE)
  show ?thesis
  proof (cases "inner v")
    case True
    then have "canon u" using canon_ShortD [OF c] expands_inner [OF v] by auto
    then have "hash_result H db (hash_ok H) False v u" using v H by (intro hash_node_correct(1)) auto
    with True that show ?thesis by (auto simp: hash_result_def)
  next
    case False
    with that child_rlp_outer [OF v False] canon_Short_nonempty [OF c] show ?thesis by auto
  qed
qed

lemma collapsed_full:
  assumes e: "expands (hash_ok H) db P (FullNode cs fl) (PFull ts)" and H: "hash32 H" "bounded (PFull ts)"
    and c: "canon (PFull ts)"
  obtains col cach where "hash_children H (take 16 cs) = Some (col, cach)"
    "rlp_spec (node_goval (FullNode (col @ drop 16 cs) fl)) = rlp_node H (PFull ts)"
proof -
  have all: "list_all2 (expands (hash_ok H) db (hash_ok H)) cs ts" using e by (auto elim: expands_FullE)
  have len: "length ts = 17" "length cs = 17" using c all by (auto elim!: canon_FullE dest: list_all2_lengthD)
  have dr: "drop 16 ts = [ts ! 16]" "drop 16 cs = [cs ! 16]" using len by (auto simp: Cons_nth_drop_Suc [symmetric])
  have e16: "expands (hash_ok H) db (hash_ok H) (cs ! 16) (ts ! 16)" using all len by (intro expands_child) auto
  have "ts ! 16 = PNil \<or> (\<exists>v. ts ! 16 = PVal v)" using c by (auto elim!: canon_FullE)
  then have "\<not> inner (cs ! 16)" using expands_inner [OF e16] by auto
  then have c16: "child_rlp (cs ! 16) = rlp_ref H (ts ! 16)" using child_rlp_outer [OF e16] by simp
  have kids: "\<forall>i < 16. ts ! i = PNil \<or> canon (ts ! i)" using c by (rule canon_FullE)
  have "bounded t \<and> (t = PNil \<or> canon t)" if "t \<in> set (take 16 ts)" for t
  proof -
    from that obtain i where "i < 16" "t = ts ! i" using len by (auto simp: in_set_conv_nth)
    with kids H(2) len show ?thesis by simp
  qed
  then have "hash_children_result H db (take 16 cs) (take 16 ts)"
    using all H(1) by (intro hash_node_correct(2)) (auto intro: list_all2_takeI)
  then obtain col cach where col: "hash_children H (take 16 cs) = Some (col, cach)"
    "map child_rlp col = map (\<lambda>t. rlp_ref H t) (take 16 ts)"
    by (auto simp: hash_children_result_def)
  have "map child_rlp (col @ drop 16 cs) = map (\<lambda>t. rlp_ref H t) (take 16 ts @ drop 16 ts)"
    using col(2) c16 by (simp add: dr)
  then have "rlp_spec (node_goval (FullNode (col @ drop 16 cs) fl)) = rlp_node H (PFull ts)"
    unfolding rlp_spec_Full by simp
  with col(1) that show ?thesis by blast
qed

lemma proofHash_correct:
  assumes e: "expands (hash_ok H) db P n t" "inner n" and H: "hash32 H" "bounded t" and c: "canon t"
  shows "\<exists>c. proofHash H n = Some (c, if length (rlp_node H t) < 32 then c else HashNode (H (rlp_node H t))) \<and>
    encode_node c = Some (rlp_node H t) \<and> inner c"
proof -
  have lt: "length (rlp_node H t) < 2 ^ 63" using length_rlp_node [OF H] by simp
  have fin: "nodeToHash H c False = Some (if length (rlp_node H t) < 32 then c else HashNode (H (rlp_node H t)))"
    "encode_node c = Some (rlp_node H t)" if "rlp_spec (node_goval c) = rlp_node H t" for c
    using nodeToHash_spec [OF that lt, of False] encode_node_spec [of c] lt that by auto
  show ?thesis
  proof (cases n)
    case (ShortNode k v fl)
    then obtain u where t: "t = PShort k u" using e(1) by (auto elim: expands_ShortE)
    obtain cv dv where cv: "(if inner v then hash_node H v False else Some (v, v)) = Some (cv, dv)" "collapsed H u cv"
      using collapsed_short [of H db P k v fl u] e(1) H c unfolding ShortNode t by blast
    have "rlp_spec (node_goval (ShortNode (compactKey k) cv fl)) = rlp_node H t"
      unfolding rlp_spec_Short using cv(2) by (simp add: collapsed_def t)
    from fin [OF this] cv(1) show ?thesis
      by (intro exI [of _ "ShortNode (compactKey k) cv fl"])
        (simp add: ShortNode proofHash_def hexToCompact_compactKey Let_def del: rlp_node.simps)
  next
    case (FullNode cs fl)
    then obtain ts where t: "t = PFull ts" using e(1) by (auto elim: expands_FullE)
    obtain col cach where col: "hash_children H (take 16 cs) = Some (col, cach)"
      "rlp_spec (node_goval (FullNode (col @ drop 16 cs) fl)) = rlp_node H t"
      using collapsed_full [of H db P cs fl ts] e(1) H c unfolding FullNode t by blast
    from fin [OF col(2)] col(1) show ?thesis
      by (intro exI [of _ "FullNode (col @ drop 16 cs) fl"]) (simp add: FullNode proofHash_def Let_def del: rlp_node.simps)
  qed (use e(2) in auto)
qed

definition on_path :: "(ptree \<Rightarrow> bytes \<Rightarrow> bool) \<Rightarrow> node_db \<Rightarrow> node \<Rightarrow> ptree \<Rightarrow> bool" where
  "on_path ok db n u \<longleftrightarrow> inner n \<and> canon u \<and> (\<exists>P. expands ok db P n u)"

lemma Prove_path_sim:
  assumes "expands ok db P n t" "fits t key" "fuel_for n (length key) \<le> fuel"
  shows "\<exists>ns. Prove_path db fuel n key = Ok ns \<and>
    list_all2 (on_path ok db) ns (ppath t key)"
  using assms
proof (induction fuel arbitrary: n t key P)
  case 0
  then show ?case using fuel_for_pos by fastforce
next
  case (Suc f)
  have f: "2 * length key \<le> f" using fuel_for_pos [OF Suc.prems(3)] by simp
  show ?case
    using Suc.prems(1)
  proof (cases rule: expands.cases)
    case (val v)
    then have "key = []" using Suc.prems(2) by (auto simp: fits_def wf_root_def split: if_splits)
    with val show ?thesis by auto
  next
    case (short m u k fl)
    have ne: "key \<noteq> []" using Suc.prems(2) short by (auto simp: fits_def split: if_splits)
    then have c: "canon (PShort k u)" and tk: "termkey key" using fitsD [OF Suc.prems(2)] short by (auto simp: wf_root_def)
    show ?thesis
    proof (cases "\<exists>r. key = k @ r")
      case False
      then have "length key < length k \<or> k \<noteq> take (length k) key" "take (length k) key \<noteq> k"
        by (metis append_take_drop_id)+
      moreover have "Prove_path db f NilNode key = Ok []" using f ne by (cases f) auto
      ultimately have "Prove_path db (Suc f) n key = Ok [n]" "ppath t key = [t]" using short ne by auto
      moreover have "on_path ok db n t" using short Suc.prems(1) c unfolding on_path_def by auto
      ultimately show ?thesis by simp
    next
      case True
      then obtain r where r: "key = k @ r" by blast
      have "fits u r" using fits_Short [OF c] tk r by simp
      moreover have "length r < length key" using canon_Short_nonempty [OF c] r by (cases k) auto
      ultimately obtain ns where ns: "Prove_path db f m r = Ok ns" "list_all2 (on_path ok db) ns (ppath u r)"
        using Suc.IH [of ok m u r] short(3) fuel_for_child [OF _ f] by blast
      then have "Prove_path db (Suc f) n key = Ok (n # ns)" "ppath t key = t # ppath u r" using short r ne by auto
      moreover have "on_path ok db n t" using short Suc.prems(1) c unfolding on_path_def by auto
      ultimately show ?thesis using ns(2) by simp
    qed
  next
    case (full cs ts fl)
    have "key \<noteq> []" using Suc.prems(2) full by (auto simp: fits_def split: if_splits)
    then obtain x r where r: "key = x # r" by (cases key) auto
    have c: "canon (PFull ts)" and tk: "termkey (x # r)" using fitsD [OF Suc.prems(2)] full r by (auto simp: wf_root_def)
    note x = fits_Full [OF c tk]
    have ex: "expands ok db ok (cs ! unat x) (ts ! unat x)" using expands_child full x(2) by blast
    have "fuel_for (cs ! unat x) (length r) \<le> f" using r by (intro fuel_for_child [OF _ f]) simp
    from Suc.IH [OF ex x(1) this]
    obtain ns where ns: "Prove_path db f (cs ! unat x) r = Ok ns" "list_all2 (on_path ok db) ns (ppath (ts ! unat x) r)"
      by blast
    moreover have "length cs = length ts" using full(3) by (rule list_all2_lengthD)
    ultimately have "Prove_path db (Suc f) n key = Ok (n # ns)" "ppath t key = t # ppath (ts ! unat x) r"
      using full(1,2) r x(2) by simp_all
    moreover have "on_path ok db n t" using full(1,2) Suc.prems(1) c unfolding on_path_def by auto
    ultimately show ?thesis using ns(2) by simp
  next
    case (hash h m)
    have "fuel_for m (length key) \<le> f" using fuel_for_resolved [OF hash(3)] Suc.prems(3) hash(1) by blast
    from Suc.IH [OF hash(5) Suc.prems(2) this]
    obtain ns where "Prove_path db f m key = Ok ns" "list_all2 (on_path ok db) ns (ppath t key)" by blast
    moreover have "key \<noteq> []"
      using Suc.prems(2) expands_inner [OF hash(5) hash(3)] by (auto simp: fits_def split: if_splits)
    ultimately show ?thesis using hash(1,2) by (simp add: resolveHash_def)
  qed simp
qed

definition proof_puts :: "(bytes \<Rightarrow> bytes) \<Rightarrow> nat \<Rightarrow> ptree list \<Rightarrow> (bytes \<times> bytes) list" where
  "proof_puts H i us = map (\<lambda>(j, u). (H (rlp_node H u), rlp_node H u))
     (filter (\<lambda>(j, u). 32 \<le> length (rlp_node H u) \<or> j = 0) (zip [i..<i + length us] us))"

lemma proof_puts_simps:
  "proof_puts H i [] = []"
  "proof_puts H i (u # us) = (if 32 \<le> length (rlp_node H u) \<or> i = 0 then [(H (rlp_node H u), rlp_node H u)] else [])
     @ proof_puts H (i + 1) us"
proof -
  have "[i..<i + length (u # us)] = i # [i + 1..<(i + 1) + length us]" by (simp add: upt_rec)
  then show "proof_puts H i (u # us) = (if 32 \<le> length (rlp_node H u) \<or> i = 0 then [(H (rlp_node H u), rlp_node H u)] else [])
     @ proof_puts H (i + 1) us" by (simp add: proof_puts_def)
qed (simp add: proof_puts_def)

lemma Prove_puts_correct:
  assumes "list_all2 (on_path (hash_ok H) db) ns us" "hash32 H" "\<forall>u \<in> set us. bounded u"
  shows "Prove_puts H i 0 ns = Ok (proof_puts H i us)"
  using assms
proof (induction ns us arbitrary: i rule: list_all2_induct)
  case (Cons n ns u us)
  then obtain P where "expands (hash_ok H) db P n u" "inner n" "canon u" by (auto simp: on_path_def)
  then obtain c where c: "proofHash H n = Some (c, if length (rlp_node H u) < 32 then c else HashNode (H (rlp_node H u)))"
    "encode_node c = Some (rlp_node H u)" "inner c"
    using proofHash_correct [of H db P n u] Cons.prems by auto
  have IH: "Prove_puts H (i + 1) 0 ns = Ok (proof_puts H (i + 1) us)" using Cons by simp
  show ?case
    using c IH by (cases "length (rlp_node H u) < 32"; cases c) (auto simp: proof_puts_simps Let_def)
qed (simp add: proof_puts_simps)

lemma put_db_Some: "put_db puts h = Some b \<Longrightarrow> (h, b) \<in> set puts"
proof (induction puts rule: rev_induct)
  case (snoc x puts)
  then show ?case by (cases x) (auto simp: put_db_def split: if_splits)
qed (simp add: put_db_def)

lemma put_db_dom: "h \<in> fst ` set puts \<Longrightarrow> put_db puts h \<noteq> None"
proof (induction puts rule: rev_induct)
  case (snoc x puts)
  then show ?case by (cases x) (auto simp: put_db_def)
qed simp

lemma set_proof_puts:
  "set (proof_puts H (Suc i) us) = (\<lambda>u. (H (rlp_node H u), rlp_node H u)) ` {u \<in> set us. 32 \<le> length (rlp_node H u)}"
  by (induction us arbitrary: i) (auto simp: proof_puts_simps)

lemma ppath_Cons: "pinner t \<Longrightarrow> \<exists>us. ppath t k = t # us"
  by (cases t; cases k) auto

lemma set_proof_puts_path:
  assumes "canon t"
  shows "set (proof_puts H 0 (ppath t k)) = (\<lambda>u. (H (rlp_node H u), rlp_node H u)) ` proof_nodes H t k"
proof -
  obtain us where "ppath t k = t # us" using ppath_Cons [OF canon_pinner [OF assms]] by blast
  then show ?thesis using set_proof_puts [of H 0 us] by (auto simp: proof_puts_simps proof_nodes_def)
qed

lemma proof_nodes_path: "canon t \<Longrightarrow> proof_nodes H t k \<subseteq> set (ppath t k)"
  using ppath_self [OF canon_pinner] by (auto simp: proof_nodes_def)

subsection \<open>Arbitrary proof databases\<close>

text \<open>The shape of every node the decoder returns: the terminator stands at the end of a key only, and
  values stand below the terminator only.\<close>

inductive dec_wf :: "node \<Rightarrow> bool" where
  nil: "dec_wf NilNode"
| hash: "length h = 32 \<Longrightarrow> dec_wf (HashNode h)"
| leaf: "termkey k \<Longrightarrow> dec_wf (ShortNode k (ValueNode v) fl)"
| ext: "is_nibbles k \<Longrightarrow> dec_wf n \<Longrightarrow> dec_wf (ShortNode k n fl)"
| full: "length cs = 17 \<Longrightarrow> (\<forall>i < 16. dec_wf (cs ! i)) \<Longrightarrow> cs ! 16 = NilNode \<or> (\<exists>v. cs ! 16 = ValueNode v) \<Longrightarrow>
    dec_wf (FullNode cs fl)"

lemma get_no_panic:
  "dec_wf n \<Longrightarrow> termkey key \<Longrightarrow>
    \<exists>kr c. get_path n key True = Ok (kr, c) \<and> (\<forall>h. c = HashNode h \<longrightarrow> termkey kr) \<and> \<not> inner c"
proof (induction n arbitrary: key rule: dec_wf.induct)
  case (ext k n fl)
  show ?case
  proof (cases "take (length k) key = k")
    case True
    then obtain r where r: "key = k @ r" by (metis append_take_drop_id)
    then have "termkey r" using ext termkey_append_nibbles by blast
    with ext.IH [of r] r show ?thesis by simp
  qed auto
next
  case (full cs fl)
  obtain x r where r: "key = x # r" using full.prems by (cases key) auto
  consider "x = 16" "r = []" | "unat x < 16" "termkey r" using full.prems r by (auto simp: termkey_Cons word_less_nat_alt)
  then show ?case
  proof cases
    case 1
    with full.hyps r show ?thesis by auto
  next
    case 2
    with full.IH full.hyps(1) r show ?thesis by auto
  qed
qed auto

lemma compactToHex_wf: "termkey (compactToHex c) \<or> is_nibbles (compactToHex c)"
proof (cases c)
  case (Cons b bs)
  let ?base = "keybytesToHex c" and ?n = "unat (2 - (keybytesToHex c ! 0 AND 1))"
  have n: "?n \<le> 2"
  proof -
    have "keybytesToHex c ! 0 AND 1 = 0 \<or> keybytesToHex c ! 0 AND 1 = (1 :: byte)"
      by (simp add: and_one_eq mod_2_eq_odd)
    then show ?thesis by auto
  qed
  have nib: "is_nibbles (drop ?n (nibbles c))"
    using is_nibbles_nibbles [of c] unfolding is_nibbles_def by (meson in_set_dropD)
  show ?thesis
  proof (cases "?base ! 0 < 2")
    case True
    have "take (length ?base - 1) ?base ! 0 = ?base ! 0" using Cons by (simp add: keybytesToHex_nibbles)
    then have "compactToHex c = drop ?n (nibbles c)"
      using True Cons by (simp add: compactToHex_def Let_def) (simp add: keybytesToHex_nibbles)
    with nib show ?thesis by simp
  next
    case False
    have "?n \<le> length (nibbles c)" using n Cons by simp
    moreover have "compactToHex c = drop ?n (nibbles c @ [16])"
      using False Cons by (simp add: compactToHex_def Let_def) (simp add: keybytesToHex_nibbles)
    ultimately have "compactToHex c = drop ?n (nibbles c) @ [16]" by (simp only: drop_append) simp
    with nib show ?thesis by (auto simp: termkey_def)
  qed
qed (simp add: compactToHex_def)

lemma decodeRef_wf:
  assumes "\<And>b n. dec b = Ok n \<Longrightarrow> dec_wf n" "decodeRef dec buf = Ok (n, r)"
  shows "dec_wf n"
  using assms by (auto simp: decodeRef_def bindr_Ok Let_def split: sum.splits prod.splits if_splits intro: dec_wf.intros)

lemma decodeFull_loop_wf:
  assumes "\<And>b n. dec b = Ok n \<Longrightarrow> dec_wf n"
  shows "decodeFull_loop dec k buf = Ok (cs, r) \<Longrightarrow> length cs = k \<and> (\<forall>c \<in> set cs. dec_wf c)"
proof (induction k arbitrary: buf cs)
  case (Suc k)
  then show ?case using decodeRef_wf [OF assms] by (fastforce simp: bindr_Ok)
qed simp

lemma decodeNode_wf: "decodeNode fuel h buf = Ok n \<Longrightarrow> dec_wf n"
proof (induction fuel arbitrary: h buf n)
  case (Suc f)
  have dec: "dec_wf n" if "decodeNode f None b = Ok n" for b n using Suc.IH that by blast
  obtain e r where e: "SplitList buf = Inr (e, r)" using Suc.prems by (auto split: if_splits sum.splits)
  consider "decodeShort (decodeNode f None) h e = Ok n" | "decodeFull (decodeNode f None) h e = Ok n"
    using Suc.prems e by (auto simp: Let_def split: if_splits)
  then show ?case
  proof cases
    case 1
    then obtain kb rest where "SplitString e = Inr (kb, rest)" by (auto simp: decodeShort_def split: sum.splits)
    with 1 have "if hasTerm (compactToHex kb) then \<exists>v fl. n = ShortNode (compactToHex kb) (ValueNode v) fl
      else \<exists>m fl r. n = ShortNode (compactToHex kb) m fl \<and> decodeRef (decodeNode f None) rest = Ok (m, r)"
      by (auto simp: decodeShort_def Let_def bindr_Ok split: sum.splits if_splits)
    moreover have "hasTerm (compactToHex kb) \<longleftrightarrow> termkey (compactToHex kb)"
      using compactToHex_wf [of kb] by (auto simp: hasTerm_snoc termkey_def)
    ultimately show ?thesis
      using compactToHex_wf [of kb] decodeRef_wf [of "decodeNode f None"] dec
      by (auto intro: dec_wf.leaf dec_wf.ext split: if_splits)
  next
    case 2
    then obtain cs rest where cs: "decodeFull_loop (decodeNode f None) 16 e = Ok (cs, rest)"
      by (auto simp: decodeFull_def bindr_Ok)
    with 2 obtain v r' where "SplitString rest = Inr (v, r')"
      by (cases "SplitString rest") (auto simp: decodeFull_def)
    with 2 cs have n: "n = FullNode (cs @ [if length v > 0 then ValueNode v else NilNode]) \<lparr>fl_hash = h, fl_dirty = False\<rparr>"
      by (simp add: decodeFull_def)
    have "length cs = 16" "\<forall>c \<in> set cs. dec_wf c" using decodeFull_loop_wf [OF dec cs] by auto
    then show ?thesis unfolding n by (intro dec_wf.full) (auto simp: nth_append)
  qed
qed simp

lemma VerifyProof_loop_no_panic: "termkey key \<Longrightarrow> VerifyProof_loop fuel i h key db \<noteq> Err ProofPanic"
proof (induction fuel arbitrary: i h key)
  case (Suc f)
  show ?case
  proof (cases "db h")
    case (Some b)
    show ?thesis
    proof (cases "decodeNode (Suc (length b)) (Some h) b")
      case (Ok n)
      obtain kr c where "get_path n key True = Ok (kr, c)" "\<forall>h. c = HashNode h \<longrightarrow> termkey kr" "\<not> inner c"
        using get_no_panic [OF decodeNode_wf [OF Ok] Suc.prems] by blast
      with Some Ok Suc.IH show ?thesis by (cases c) (auto simp del: decodeNode.simps)
    qed (use Some in \<open>simp_all del: decodeNode.simps\<close>)
  qed simp
qed simp

subsection \<open>Decoding ends\<close>

lemma Split_length:
  assumes "Split b = Inr (k, c, r)" "length b < 2 ^ 63"
  shows "length r \<le> length b" "length c \<le> length b" "k = List \<Longrightarrow> length c < length b"
proof -
  obtain h where h: "rlp_value k c = Some h" "b = h @ r" using Split_iff_value [OF assms(2)] assms(1) by blast
  then show "length r \<le> length b" "length c \<le> length b" "k = List \<Longrightarrow> length c < length b"
    by (auto simp: rlp_value_def rlp_head_def split: rlp_kind.splits if_splits)
qed

lemma SplitString_length: "SplitString b = Inr (c, r) \<Longrightarrow> length b < 2 ^ 63 \<Longrightarrow> length r \<le> length b"
  using Split_length(1) by (fastforce simp: SplitString_def split: sum.splits prod.splits if_splits)

lemma SplitList_length: "SplitList b = Inr (c, r) \<Longrightarrow> length b < 2 ^ 63 \<Longrightarrow> length c < length b"
  using Split_length(3) by (fastforce simp: SplitList_def split: sum.splits prod.splits if_splits)

definition total_to :: "nat \<Rightarrow> (bytes \<Rightarrow> node_result) \<Rightarrow> bool" where
  "total_to l dec \<longleftrightarrow> (\<forall>b. length b \<le> l \<longrightarrow> dec b \<noteq> OutOfFuel)"

lemma decodeRef_total:
  assumes "total_to l dec" "length b \<le> l" "length b < 2 ^ 63"
  shows "decodeRef dec b \<noteq> OutOfFuel" "decodeRef dec b = Ok (n, r) \<Longrightarrow> length r \<le> length b"
proof -
  have "dec b \<noteq> OutOfFuel" using assms by (simp add: total_to_def)
  then show "decodeRef dec b \<noteq> OutOfFuel" by (cases "dec b") (auto simp: decodeRef_def Let_def split: sum.splits prod.splits)
  show "length r \<le> length b" if "decodeRef dec b = Ok (n, r)"
    using that Split_length(1) [OF _ assms(3)]
    by (auto simp: decodeRef_def Let_def bindr_Ok split: sum.splits prod.splits if_splits)
qed

lemma decodeFull_loop_total:
  assumes "total_to l dec" "length b \<le> l" "length b < 2 ^ 63"
  shows "decodeFull_loop dec k b \<noteq> OutOfFuel"
  using assms(2,3)
proof (induction k arbitrary: b)
  case (Suc k)
  show ?case
  proof (cases "decodeRef dec b")
    case OutOfFuel
    then show ?thesis using decodeRef_total(1) [OF assms(1) Suc.prems] by blast
  next
    case (Ok x)
    obtain n r where x: "x = (n, r)" by (cases x)
    then have "length r \<le> length b" using decodeRef_total(2) [OF assms(1) Suc.prems] Ok by blast
    then have "decodeFull_loop dec k r \<noteq> OutOfFuel" using Suc by simp
    with Ok x show ?thesis by (cases "decodeFull_loop dec k r") auto
  qed simp
qed simp

lemma decodeNode_total: "length b < fuel \<Longrightarrow> length b < 2 ^ 63 \<Longrightarrow> decodeNode fuel h b \<noteq> OutOfFuel"
proof (induction fuel arbitrary: h b)
  case (Suc f)
  show ?case
  proof (cases "SplitList b")
    case (Inr er)
    obtain e r where er: "er = (e, r)" by (cases er)
    have l: "length e < length b" using SplitList_length Inr er Suc.prems by blast
    have tot: "total_to (length e) (decodeNode f None)" using Suc.IH l Suc.prems by (auto simp: total_to_def)
    have "decodeShort (decodeNode f None) h e \<noteq> OutOfFuel"
    proof (cases "SplitString e")
      case (Inr kr)
      obtain kb rest where kr: "kr = (kb, rest)" by (cases kr)
      have "length rest \<le> length e" using SplitString_length [of e kb rest] Inr kr l Suc.prems(2) by simp
      then have "decodeRef (decodeNode f None) rest \<noteq> OutOfFuel"
        using decodeRef_total(1) [OF tot] l Suc.prems(2) by simp
      then show ?thesis
        by (cases "decodeRef (decodeNode f None) rest") (auto simp: decodeShort_def Inr kr Let_def split: sum.splits)
    qed (simp add: decodeShort_def)
    moreover have "decodeFull_loop (decodeNode f None) 16 e \<noteq> OutOfFuel"
      using decodeFull_loop_total [OF tot, of e 16] l Suc.prems(2) by simp
    then have "decodeFull (decodeNode f None) h e \<noteq> OutOfFuel"
      by (cases "decodeFull_loop (decodeNode f None) 16 e") (auto simp: decodeFull_def split: sum.splits)
    ultimately show ?thesis using Inr er by (simp add: Let_def)
  qed simp
qed simp

lemma leaf_trie:
  fixes H db k v u
  defines "s \<equiv> \<lparr>t_root = ShortNode (keybytesToHex k) (ValueNode v) newFlag, t_unhashed = u\<rparr>" and "t \<equiv> PShort (keybytesToHex k) (PVal v)"
  assumes "hash32 H" "small_bytes k" "small_bytes v" "v \<noteq> []"
  shows "trie_rep H db s [k \<mapsto> v]" "canon t" "plookup t = hexmap [k \<mapsto> v]" "\<exists>s'. Hash H s = Some (H (rlp_node H t), s')"
proof -
  show c: "canon t" unfolding t_def using assms by (auto intro!: canon.leaf termkey_keybytes)
  show l: "plookup t = hexmap [k \<mapsto> v]"
    unfolding t_def by (rule map_eqI) (auto simp: plookup_Short_Some hexmap_Some)
  have "expands (hash_ok H) db (root_ok H) (t_root s) t" unfolding s_def t_def by (auto intro!: expands.short expands.val)
  with c l assms show r: "trie_rep H db s [k \<mapsto> v]" by (auto simp: trie_rep_def wf_root_def)
  from Hash_root_hash [OF r _ l] c show "\<exists>s'. Hash H s = Some (H (rlp_node H t), s')"
    by (auto simp: root_hash_def wf_root_def t_def)
qed

subsection \<open>Properties\<close>

text \<open>C3: Soundness of proofs. Let a nonempty trie with the contents \<open>m\<close> have the root hash \<open>root\<close> and the canonical form \<open>t\<close>,
  and let a proof database hold its entries under their hash, none of them colliding with another node of \<open>t\<close> on
  the path of the key. Then \<^verbatim>\<open>VerifyProof\<close> returns the value of the key (none when it is absent) or reports a missing
  proof node; no proof leads to another value. Fuel above the number of nibbles of the key is enough.\<close>

theorem VerifyProof_sound:
  assumes "trie_rep H db s m" "Hash H s = Some (root, s')" "canon t" "plookup t = hexmap m"
    "\<forall>h b. proofDb h = Some b \<longrightarrow> H b = h"
    "\<forall>h b. \<forall>u \<in> set (ppath t (keybytesToHex key)). proofDb h = Some b \<longrightarrow> H b = H (rlp_node H u) \<longrightarrow> b = rlp_node H u"
    "2 * length key + 1 < fuel"
  shows "VerifyProof fuel root key proofDb = Ok (m key) \<or>
    (\<exists>i h. VerifyProof fuel root key proofDb = Err (ProofMissing i h) \<and> proofDb h = None)"
proof -
  have H: "hash32 H" and m: "\<forall>k v. m k = Some v \<longrightarrow> small_bytes k \<and> small_bytes v" using assms(1) by (auto simp: trie_rep_def)
  have "wf_root t" "t \<noteq> PNil" using assms(3) by (auto simp: wf_root_def)
  then have root: "root = H (rlp_node H t)" using Hash_root_hash [OF assms(1) _ assms(4)] assms(2) by (auto simp: root_hash_def)
  have "\<forall>u \<in> proof_nodes H t (keybytesToHex key). \<forall>b. proofDb (H (rlp_node H u)) = Some b \<longrightarrow> b = rlp_node H u"
    using assms(5,6) proof_nodes_path [OF assms(3)] by blast
  from VerifyProof_loop_honest [OF H assms(3) trie_rep_bounded [OF assms(4,3) m] termkey_keybytes _ this, of fuel 0] assms(7)
  show ?thesis unfolding VerifyProof_def root by (auto simp: length_keybytesToHex assms(4))
qed

theorem VerifyProof_sound_witness:
  "VerifyProof 10 (replicate 32 0) [1] [replicate 32 0 \<mapsto> rlp_node (\<lambda>_. replicate 32 0) (PShort [0, 1, 16] (PVal [7]))] = Ok (Some [7]) \<or>
    (\<exists>i h. VerifyProof 10 (replicate 32 0) [1] [replicate 32 0 \<mapsto> rlp_node (\<lambda>_. replicate 32 0) (PShort [0, 1, 16] (PVal [7]))] =
       Err (ProofMissing i h) \<and> [replicate 32 0 \<mapsto> rlp_node (\<lambda>_. replicate 32 0) (PShort [0, 1, 16] (PVal [7]))] h = None)"
proof -
  let ?H = "\<lambda>_ :: bytes. replicate 32 (0 :: byte)" and ?t = "PShort (keybytesToHex [1]) (PVal [7])"
  have k: "keybytesToHex [1] = [0, 1, 16]" by (simp add: keybytesToHex_nibbles)
  have pre: "hash32 ?H" "small_bytes [1]" "small_bytes [7]" "[7 :: byte] \<noteq> []" by (simp_all add: hash32_def small_bytes_def)
  note leaf = leaf_trie [OF pre]
  obtain s' where s': "Hash ?H \<lparr>t_root = ShortNode (keybytesToHex [1]) (ValueNode [7]) newFlag, t_unhashed = 0\<rparr> = Some (replicate 32 0, s')"
    using leaf(4) [of 0] by blast
  have path: "set (ppath ?t (keybytesToHex [1])) = {?t}" by simp
  have db: "\<forall>h b. [replicate 32 0 \<mapsto> rlp_node ?H ?t] h = Some b \<longrightarrow> ?H b = h" by (simp only: fun_upd_apply split: if_splits) blast
  have col: "\<forall>h b. \<forall>u \<in> set (ppath ?t (keybytesToHex [1])). [replicate 32 0 \<mapsto> rlp_node ?H ?t] h = Some b \<longrightarrow>
      ?H b = ?H (rlp_node ?H u) \<longrightarrow> b = rlp_node ?H u"
    unfolding path by (simp only: fun_upd_apply ball_simps split: if_splits) blast
  have "2 * length [1 :: byte] + 1 < 10" by simp
  from VerifyProof_sound [OF leaf(1) [of "\<lambda>_. None" 0] s' leaf(2,3) db col this]
  show ?thesis by (simp only: k fun_upd_same)
qed

text \<open>C4: Completeness of proofs. On a nonempty trie \<^verbatim>\<open>Prove\<close> ends without an error, and \<^verbatim>\<open>VerifyProof\<close>, given the entries it wrote
  and the root hash, returns the value the trie has for the key, also when it has none, provided that the nodes on the path
  have different hashes.\<close>

theorem VerifyProof_Prove:
  assumes "trie_rep H db s m" "Hash H s = Some (root, s')" "canon t" "plookup t = hexmap m"
    "inj_on H (rlp_node H ` set (ppath t (keybytesToHex key)))"
    "4 * length key + 4 \<le> fuel" "2 * length key + 1 < fuel'"
  shows "\<exists>puts. Prove H db fuel s key 0 = Ok puts \<and> VerifyProof fuel' root key (put_db puts) = Ok (m key)"
proof -
  let ?k = "keybytesToHex key"
  have H: "hash32 H" and m: "\<forall>k v. m k = Some v \<longrightarrow> small_bytes k \<and> small_bytes v" using assms(1) by (auto simp: trie_rep_def)
  have wf: "wf_root t" "t \<noteq> PNil" using assms(3) by (auto simp: wf_root_def)
  then have root: "root = H (rlp_node H t)" using Hash_root_hash [OF assms(1) _ assms(4)] assms(2) by (auto simp: root_hash_def)
  have b: "bounded t" by (rule trie_rep_bounded [OF assms(4,3) m])
  obtain u where u: "expands (hash_ok H) db (root_ok H) (t_root s) u" "wf_root u" "plookup u = hexmap m"
    using assms(1) by (auto simp: trie_rep_def)
  then have "u = t" using wf_root_unique wf(1) assms(4) by metis
  then obtain ns where ns: "Prove_path db fuel (t_root s) ?k = Ok ns" "list_all2 (on_path (hash_ok H) db) ns (ppath t ?k)"
    using Prove_path_sim [OF u(1), of ?k fuel] fits_key [OF wf(1)] fuel_for_key assms(6) by (auto simp: length_keybytesToHex)
  have "Prove_puts H 0 0 ns = Ok (proof_puts H 0 (ppath t ?k))"
    using ns(2) H ppath_sub b by (intro Prove_puts_correct) auto
  then have puts: "Prove H db fuel s key 0 = Ok (proof_puts H 0 (ppath t ?k))" using ns(1) by (simp add: Prove_def)
  note set = set_proof_puts_path [OF assms(3), of H ?k]
  let ?db = "put_db (proof_puts H 0 (ppath t ?k))"
  have hon: "\<forall>u \<in> proof_nodes H t ?k. \<forall>b. ?db (H (rlp_node H u)) = Some b \<longrightarrow> b = rlp_node H u"
  proof (intro ballI allI impI)
    fix u b assume u: "u \<in> proof_nodes H t ?k" and "?db (H (rlp_node H u)) = Some b"
    then obtain w where "w \<in> proof_nodes H t ?k" "H (rlp_node H u) = H (rlp_node H w)" "b = rlp_node H w"
      using put_db_Some set by blast
    moreover from this u have "u \<in> set (ppath t ?k)" "w \<in> set (ppath t ?k)" using proof_nodes_path [OF assms(3)] by blast+
    ultimately show "b = rlp_node H u" using assms(5) by (auto simp: inj_on_def)
  qed
  have "\<forall>u \<in> proof_nodes H t ?k. ?db (H (rlp_node H u)) \<noteq> None"
    by (intro ballI put_db_dom) (use set in \<open>force simp: image_iff\<close>)
  with VerifyProof_loop_honest [OF H assms(3) b termkey_keybytes _ hon, of fuel' 0] assms(7)
  have "VerifyProof fuel' root key ?db = Ok (m key)"
    unfolding VerifyProof_def root by (auto simp: length_keybytesToHex assms(4))
  with puts show ?thesis by blast
qed

theorem VerifyProof_Prove_witness:
  "\<exists>puts. Prove (\<lambda>_. replicate 32 0) (\<lambda>_. None) 8 \<lparr>t_root = ShortNode [0, 1, 16] (ValueNode [7]) newFlag, t_unhashed = 0\<rparr> [1] 0 = Ok puts \<and>
    VerifyProof 10 (replicate 32 0) [1] (put_db puts) = Ok (Some [7])"
proof -
  let ?H = "\<lambda>_ :: bytes. replicate 32 (0 :: byte)" and ?t = "PShort (keybytesToHex [1]) (PVal [7])"
  have k: "keybytesToHex [1] = [0, 1, 16]" by (simp add: keybytesToHex_nibbles)
  have pre: "hash32 ?H" "small_bytes [1]" "small_bytes [7]" "[7 :: byte] \<noteq> []" by (simp_all add: hash32_def small_bytes_def)
  note leaf = leaf_trie [OF pre]
  obtain s' where s': "Hash ?H \<lparr>t_root = ShortNode (keybytesToHex [1]) (ValueNode [7]) newFlag, t_unhashed = 0\<rparr> = Some (replicate 32 0, s')"
    using leaf(4) [of 0] by blast
  have path: "set (ppath ?t (keybytesToHex [1])) = {?t}" by simp
  have inj: "inj_on ?H (rlp_node ?H ` set (ppath ?t (keybytesToHex [1])))" unfolding path by (simp only: image_insert image_empty inj_on_insert inj_on_empty) simp
  have "4 * length [1 :: byte] + 4 \<le> 8" "2 * length [1 :: byte] + 1 < 10" by simp_all
  from VerifyProof_Prove [OF leaf(1) [of "\<lambda>_. None" 0] s' leaf(2,3) inj this]
  show ?thesis by (simp only: k fun_upd_same)
qed


text \<open>C29: Every node that decodeNode returns, whatever the bytes, has the types the trie code relies on: hash references of 32 bytes, branches of
  17 entries with nodes in the first 16 and nothing or a value in the last, keys of nibbles with the terminator only at
  the end, and values only below a key with terminator.\<close>

theorem decodeNode_typed:
  assumes "decodeNode fuel hash buf = Ok n"
  shows "dec_wf n"
  using assms by (rule decodeNode_wf)

theorem decodeNode_typed_witness: "\<exists>n. decodeNode 4 None [0xC2, 0x20, 0x01] = Ok n \<and> dec_wf n"
proof -
  have "decodeNode 4 None [0xC2, 0x20, 0x01] = Ok (ShortNode [16] (ValueNode [1]) \<lparr>fl_hash = None, fl_dirty = False\<rparr>)" by code_simp
  then show ?thesis using decodeNode_typed by blast
qed

text \<open>C22: Decoding a node ends on every byte string: recursion as deep as the string is long is enough.\<close>

theorem decodeNode_terminates:
  assumes "length buf < 2 ^ 63"
  shows "decodeNode (Suc (length buf)) hash buf \<noteq> OutOfFuel"
  using decodeNode_total [of buf "Suc (length buf)" hash] assms by simp

theorem decodeNode_terminates_witness: "decodeNode (Suc (length [0xC2, 0x20, 0x80 :: byte])) None [0xC2, 0x20, 0x80] \<noteq> OutOfFuel"
  by (rule decodeNode_terminates) simp

text \<open>C18: Round trip of nodes. A node of a canonical trie, collapsed and encoded as it is written to the database or to a proof,
  decodes to the same node, with large children as hashes and small ones embedded.\<close>

theorem decodeNode_encode:
  assumes "expands (hash_ok H) db P n t" "inner n" "canon t" "bounded t" "hash32 H"
  shows "\<exists>c hn b. proofHash H n = Some (c, hn) \<and> encode_node c = Some b \<and>
    decodeNode (Suc (length b)) hash b = Ok (view H hash t)"
proof -
  obtain c where "proofHash H n = Some (c, if length (rlp_node H t) < 32 then c else HashNode (H (rlp_node H t)))"
    "encode_node c = Some (rlp_node H t)"
    using proofHash_correct [OF assms(1,2,5,4,3)] by blast
  with decodeNode_rlp_node [OF assms(5,3,4), of "Suc (length (rlp_node H t))" "[]" hash] length_rlp_node [OF assms(5,4)]
  show ?thesis by (auto simp del: decodeNode.simps view.simps rlp_node.simps)
qed

theorem decodeNode_encode_witness:
  "\<exists>c hn b. proofHash (\<lambda>_. replicate 32 0) (ShortNode [1, 16] (ValueNode [7]) newFlag) = Some (c, hn) \<and> encode_node c = Some b \<and>
    decodeNode (Suc (length b)) None b = Ok (view (\<lambda>_. replicate 32 0) None (PShort [1, 16] (PVal [7])))"
  by (rule decodeNode_encode [where P = "root_ok (\<lambda>_. replicate 32 0)" and db = "\<lambda>_. None"])
    (auto simp: hash32_def termkey_Cons intro!: expands.short expands.val canon.leaf)

end
