(* ===== verification/State_Access_List.thy ===== *)
theory State_Access_List
  imports Go_Prelude
begin

section \<open>Package core/state: the access list\<close>

text \<open>
  \<^verbatim>\<open>src/core/state/access_list.go\<close>. Addresses map to the index of a slot set in a slice, or to -1 when they have no
  slots. The abstraction is a partial map from addresses to sets of slots; the well-formedness says which indices
  are in use. Deletions undo additions in reverse order; \<open>None\<close> is a panic.
\<close>

type_synonym address = "160 word"

record accessList =
  al_addresses :: "address \<rightharpoonup> int"
  al_slots :: "bytes set list"

definition ContainsAddress :: "accessList \<Rightarrow> address \<Rightarrow> bool" where
  "ContainsAddress al addr = (al_addresses al addr \<noteq> None)"

definition Contains :: "accessList \<Rightarrow> address \<Rightarrow> bytes \<Rightarrow> (bool \<times> bool) option" where
  "Contains al addr slot =
     (case al_addresses al addr of
        None \<Rightarrow> Some (False, False)
      | Some idx \<Rightarrow>
          if idx = -1 then Some (True, False)
          else if 0 \<le> idx \<and> nat idx < length (al_slots al) then Some (True, slot \<in> al_slots al ! nat idx)
          else None)"

definition newAccessList :: accessList where
  "newAccessList = \<lparr>al_addresses = Map.empty, al_slots = []\<rparr>"

definition AddAddress :: "accessList \<Rightarrow> address \<Rightarrow> bool \<times> accessList" where
  "AddAddress al addr =
     (if al_addresses al addr \<noteq> None then (False, al)
      else (True, al\<lparr>al_addresses := (al_addresses al)(addr \<mapsto> -1)\<rparr>))"

definition AddSlot :: "accessList \<Rightarrow> address \<Rightarrow> bytes \<Rightarrow> ((bool \<times> bool) \<times> accessList) option" where
  "AddSlot al addr slot =
     (let fresh = Some ((al_addresses al addr = None, True),
            al\<lparr>al_addresses := (al_addresses al)(addr \<mapsto> int (length (al_slots al))), al_slots := al_slots al @ [{slot}]\<rparr>)
      in case al_addresses al addr of
           None \<Rightarrow> fresh
         | Some idx \<Rightarrow>
             if idx = -1 then fresh
             else if 0 \<le> idx \<and> nat idx < length (al_slots al) then
               if slot \<notin> al_slots al ! nat idx
               then Some ((False, True), al\<lparr>al_slots := (al_slots al)[nat idx := insert slot (al_slots al ! nat idx)]\<rparr>)
               else Some ((False, False), al)
             else None)"

definition DeleteSlot :: "accessList \<Rightarrow> address \<Rightarrow> bytes \<Rightarrow> accessList option" where
  "DeleteSlot al addr slot =
     (case al_addresses al addr of
        None \<Rightarrow> None
      | Some idx \<Rightarrow>
          if 0 \<le> idx \<and> nat idx < length (al_slots al) then
            (let slotmap = al_slots al ! nat idx - {slot} in
             if slotmap = {}
             then Some (al\<lparr>al_slots := take (nat idx) (al_slots al), al_addresses := (al_addresses al)(addr \<mapsto> -1)\<rparr>)
             else Some (al\<lparr>al_slots := (al_slots al)[nat idx := slotmap]\<rparr>))
          else None)"

definition DeleteAddress :: "accessList \<Rightarrow> address \<Rightarrow> accessList" where
  "DeleteAddress al addr = al\<lparr>al_addresses := (al_addresses al)(addr := None)\<rparr>"

subsection \<open>Abstraction and invariant\<close>

definition al_abs :: "accessList \<Rightarrow> address \<rightharpoonup> bytes set" where
  "al_abs al addr = map_option (\<lambda>idx. if idx = -1 then {} else al_slots al ! nat idx) (al_addresses al addr)"

text \<open>Every slot set belongs to exactly one address, and none is empty.\<close>

definition al_wf :: "accessList \<Rightarrow> bool" where
  "al_wf al \<longleftrightarrow>
     (\<forall>a idx. al_addresses al a = Some idx \<longrightarrow> idx = -1 \<or> (0 \<le> idx \<and> nat idx < length (al_slots al))) \<and>
     (\<forall>a b idx. al_addresses al a = Some idx \<longrightarrow> al_addresses al b = Some idx \<longrightarrow> idx \<noteq> -1 \<longrightarrow> a = b) \<and>
     (\<forall>S \<in> set (al_slots al). S \<noteq> {})"

lemma al_wf_new: "al_wf newAccessList"
  by (simp add: al_wf_def newAccessList_def)

lemma al_abs_new: "al_abs newAccessList = Map.empty"
  by (simp add: al_abs_def newAccessList_def fun_eq_iff)

lemma al_wf_index:
  "al_wf al \<Longrightarrow> al_addresses al a = Some idx \<Longrightarrow> idx \<noteq> -1 \<Longrightarrow> 0 \<le> idx \<and> nat idx < length (al_slots al)"
  by (auto simp: al_wf_def)

lemma Contains_abs:
  assumes "al_wf al"
  shows "Contains al a s = Some (al_abs al a \<noteq> None, \<exists>S. al_abs al a = Some S \<and> s \<in> S)"
  using al_wf_index [OF assms] by (auto simp: Contains_def al_abs_def split: option.splits)

lemma ContainsAddress_abs: "ContainsAddress al a \<longleftrightarrow> al_abs al a \<noteq> None"
  by (simp add: ContainsAddress_def al_abs_def)

lemma AddAddress_abs:
  assumes "AddAddress al a = (b, al')" "al_wf al"
  shows "al_wf al'" "b \<longleftrightarrow> al_abs al a = None" "al_abs al' = (if b then (al_abs al)(a \<mapsto> {}) else al_abs al)"
proof -
  have b: "b \<longleftrightarrow> al_addresses al a = None" and al': "al' = (if b then al\<lparr>al_addresses := (al_addresses al)(a \<mapsto> -1)\<rparr> else al)"
    using assms(1) by (auto simp: AddAddress_def split: if_splits)
  show "al_wf al'" using assms(2) unfolding al' al_wf_def by (cases b) simp_all
  show "b \<longleftrightarrow> al_abs al a = None" using b by (simp add: al_abs_def)
  show "al_abs al' = (if b then (al_abs al)(a \<mapsto> {}) else al_abs al)"
  proof
    fix x
    show "al_abs al' x = (if b then (al_abs al)(a \<mapsto> {}) else al_abs al) x"
      unfolding al' by (cases b; cases "x = a"; cases "al_addresses al x") (simp_all add: al_abs_def)
  qed
qed

lemma AddSlot_abs:
  assumes "al_wf al"
  obtains al' where "AddSlot al a s = Some ((al_abs al a = None, \<nexists>S. al_abs al a = Some S \<and> s \<in> S), al')" "al_wf al'"
    "al_abs al' = (al_abs al)(a \<mapsto> insert s (case al_abs al a of Some S \<Rightarrow> S | None \<Rightarrow> {}))"
proof -
  consider (fresh) "al_addresses al a = None \<or> al_addresses al a = Some (-1)"
    | (slots) idx where "al_addresses al a = Some idx" "idx \<noteq> -1" by (cases "al_addresses al a") auto
  then show ?thesis
  proof cases
    case fresh
    let ?al = "al\<lparr>al_addresses := (al_addresses al)(a \<mapsto> int (length (al_slots al))), al_slots := al_slots al @ [{s}]\<rparr>"
    have new: "al_addresses al b \<noteq> Some (int (length (al_slots al)))" for b
      using al_wf_index [OF assms, of b "int (length (al_slots al))"] by auto
    have "idx = -1 \<or> (0 \<le> idx \<and> nat idx < Suc (length (al_slots al)))" if "al_addresses al b = Some idx" for b idx
      using al_wf_index [OF assms that] by auto
    with new assms have "al_wf ?al" by (auto simp: al_wf_def)
    moreover have "al_abs ?al = (al_abs al)(a \<mapsto> insert s (case al_abs al a of Some S \<Rightarrow> S | None \<Rightarrow> {}))"
    proof
      fix b
      show "al_abs ?al b = ((al_abs al)(a \<mapsto> insert s (case al_abs al a of Some S \<Rightarrow> S | None \<Rightarrow> {}))) b"
        using fresh al_wf_index [OF assms, of b]
        by (cases "al_addresses al b"; cases "b = a") (auto simp: al_abs_def nth_append)
    qed
    moreover have "AddSlot al a s = Some ((al_abs al a = None, \<nexists>S. al_abs al a = Some S \<and> s \<in> S), ?al)"
      using fresh by (auto simp: AddSlot_def al_abs_def)
    ultimately show ?thesis using that by blast
  next
    case slots
    have r: "0 \<le> idx" "nat idx < length (al_slots al)" using al_wf_index [OF assms slots] by auto
    show ?thesis
    proof (cases "s \<in> al_slots al ! nat idx")
      case True
      then have "AddSlot al a s = Some ((al_abs al a = None, \<nexists>S. al_abs al a = Some S \<and> s \<in> S), al)"
        "al_abs al = (al_abs al)(a \<mapsto> insert s (case al_abs al a of Some S \<Rightarrow> S | None \<Rightarrow> {}))"
        using slots r by (auto simp: AddSlot_def al_abs_def fun_eq_iff)
      with assms that show ?thesis by blast
    next
      case False
      let ?al = "al\<lparr>al_slots := (al_slots al)[nat idx := insert s (al_slots al ! nat idx)]\<rparr>"
      have "al_wf ?al" using assms by (auto simp: al_wf_def dest: set_update_subset_insert [THEN subsetD])
      moreover have "al_abs ?al = (al_abs al)(a \<mapsto> insert s (case al_abs al a of Some S \<Rightarrow> S | None \<Rightarrow> {}))"
      proof
        fix b
        show "al_abs ?al b = ((al_abs al)(a \<mapsto> insert s (case al_abs al a of Some S \<Rightarrow> S | None \<Rightarrow> {}))) b"
        proof (cases "b = a")
          case True
          with slots r show ?thesis by (simp add: al_abs_def)
        next
          case False
          have "nat i \<noteq> nat idx" if "al_addresses al b = Some i" "i \<noteq> -1" for i
          proof
            assume "nat i = nat idx"
            with al_wf_index [OF assms that] r have "i = idx" by simp
            with assms that slots False show False by (auto simp: al_wf_def)
          qed
          with False show ?thesis by (cases "al_addresses al b") (auto simp: al_abs_def)
        qed
      qed
      moreover have "AddSlot al a s = Some ((al_abs al a = None, \<nexists>S. al_abs al a = Some S \<and> s \<in> S), ?al)"
        using slots r False by (auto simp: AddSlot_def al_abs_def)
      ultimately show ?thesis using that by blast
    qed
  qed
qed

text \<open>Deletions undo additions exactly.\<close>

lemma DeleteAddress_AddAddress: "AddAddress al a = (True, al') \<Longrightarrow> DeleteAddress al' a = al"
  by (cases al) (auto simp: AddAddress_def DeleteAddress_def fun_eq_iff split: if_splits)

lemma DeleteSlot_AddSlot:
  assumes "AddSlot al a s = Some ((am, True), al')" "al_wf al"
  shows "\<exists>al1. DeleteSlot al' a s = Some al1 \<and> (if am then DeleteAddress al1 a else al1) = al"
proof -
  consider (fresh) "al_addresses al a = None \<or> al_addresses al a = Some (-1)"
    | (slots) idx where "al_addresses al a = Some idx" "idx \<noteq> -1" by (cases "al_addresses al a") auto
  then show ?thesis
  proof cases
    case fresh
    then have al': "al' = al\<lparr>al_addresses := (al_addresses al)(a \<mapsto> int (length (al_slots al))), al_slots := al_slots al @ [{s}]\<rparr>"
      and am: "am \<longleftrightarrow> al_addresses al a = None" using assms(1) by (auto simp: AddSlot_def)
    have "DeleteSlot al' a s = Some (al\<lparr>al_addresses := (al_addresses al)(a \<mapsto> -1)\<rparr>)"
      unfolding al' by (simp add: DeleteSlot_def)
    moreover have "(if am then DeleteAddress (al\<lparr>al_addresses := (al_addresses al)(a \<mapsto> -1)\<rparr>) a
        else al\<lparr>al_addresses := (al_addresses al)(a \<mapsto> -1)\<rparr>) = al"
      using fresh am by (cases al) (auto simp: DeleteAddress_def fun_eq_iff)
    ultimately show ?thesis by blast
  next
    case slots
    have r: "0 \<le> idx" "nat idx < length (al_slots al)" using al_wf_index [OF assms(2) slots] by auto
    with assms(2) have ne: "al_slots al ! nat idx \<noteq> {}" by (auto simp: al_wf_def)
    have al': "al' = al\<lparr>al_slots := (al_slots al)[nat idx := insert s (al_slots al ! nat idx)]\<rparr>" "\<not> am"
      and s: "s \<notin> al_slots al ! nat idx"
      using assms(1) slots r by (auto simp: AddSlot_def split: if_splits)
    have "DeleteSlot al' a s = Some al"
      using slots r ne s by (cases al) (simp add: al' DeleteSlot_def)
    with al'(2) show ?thesis by simp
  qed
qed

end
