(* ===== verification/State_DB.thy ===== *)
theory State_DB
  imports State_Access_List Rlp_Decode Trie_Hash
begin

section \<open>Package core/state: accounts, journal and snapshots\<close>

text \<open>
  \<^verbatim>\<open>src/core/state/state_object.go\<close>, \<^verbatim>\<open>journal.go\<close> and \<^verbatim>\<open>statedb.go\<close>: the live account objects with their layered storage
  (dirty over pending over original over snapshot over trie), the journal of changes and the revisions, for the time
  between two commits, in which the tries are only read. The Go interfaces \<^verbatim>\<open>Database\<close>, \<^verbatim>\<open>Trie\<close> and \<^verbatim>\<open>snapshot.Snapshot\<close> are
  the functions of a record \<open>backend\<close>, an argument of the operations; the prefetcher, metrics and error texts are
  left out. A nil slice is \<open>None\<close>. Operations return the new state, readers too, since they fill caches; \<open>None\<close> as
  a result is a panic.
\<close>

subsection \<open>Accounts and the backend\<close>

record account =
  acc_nonce :: uint64
  acc_balance :: int
  acc_root :: bytes
  acc_codehash :: bytes

type_synonym storage = "bytes \<rightharpoonup> bytes"

type_synonym store_reader = "bytes \<Rightarrow> string + bytes"

record snapshot_iface =
  sn_account :: "bytes \<Rightarrow> string + account option"
  sn_storage :: "bytes \<Rightarrow> store_reader"

record backend =
  keccak :: "bytes \<Rightarrow> bytes"
  trie_TryGet :: store_reader
  OpenStorageTrie :: "bytes \<Rightarrow> bytes \<Rightarrow> string + store_reader"
  ContractCode :: "bytes \<Rightarrow> bytes \<Rightarrow> bytes option \<times> string option"
  snap :: "snapshot_iface option"

definition zeroHash :: bytes where
  "zeroHash = replicate 32 0"

definition addr_bytes :: "address \<Rightarrow> bytes" where
  "addr_bytes a = map (\<lambda>i. ucast (drop_bit (8 * (19 - i)) a)) [0..<20]"

definition emptyCodeHash :: "backend \<Rightarrow> bytes" where
  "emptyCodeHash B = keccak B []"

record stateObject =
  so_address :: address
  so_addrHash :: bytes
  so_data :: account
  so_dbErr :: "string option"
  so_trie :: "store_reader option"
  so_code :: "bytes option"
  so_origin :: storage
  so_pending :: storage
  so_dirty :: storage
  so_fake :: "storage option"
  so_dirtyCode :: bool
  so_suicided :: bool
  so_deleted :: bool

definition so_empty :: "backend \<Rightarrow> stateObject \<Rightarrow> bool" where
  "so_empty B s \<longleftrightarrow> acc_nonce (so_data s) = 0 \<and> acc_balance (so_data s) = 0 \<and> acc_codehash (so_data s) = emptyCodeHash B"

text \<open>The account data arrives with a nil balance or code hash only as the zero value \<^verbatim>\<open>Account{}\<close>.\<close>

definition newObject :: "backend \<Rightarrow> address \<Rightarrow> uint64 \<Rightarrow> int option \<Rightarrow> bytes \<Rightarrow> bytes option \<Rightarrow> stateObject" where
  "newObject B addr nonce balance root codehash =
     \<lparr>so_address = addr, so_addrHash = keccak B (addr_bytes addr),
      so_data = \<lparr>acc_nonce = nonce, acc_balance = (case balance of None \<Rightarrow> 0 | Some b \<Rightarrow> b),
        acc_root = (if root = zeroHash then emptyRoot else root),
        acc_codehash = (case codehash of None \<Rightarrow> emptyCodeHash B | Some c \<Rightarrow> c)\<rparr>,
      so_dbErr = None, so_trie = None, so_code = None,
      so_origin = Map.empty, so_pending = Map.empty, so_dirty = Map.empty, so_fake = None,
      so_dirtyCode = False, so_suicided = False, so_deleted = False\<rparr>"

definition so_setError :: "string \<Rightarrow> stateObject \<Rightarrow> stateObject" where
  "so_setError err s = (if so_dbErr s = None then s\<lparr>so_dbErr := Some err\<rparr> else s)"

text \<open>Opening the trie with the zero root reads nothing and cannot fail.\<close>

definition getTrie :: "backend \<Rightarrow> stateObject \<Rightarrow> store_reader \<times> stateObject" where
  "getTrie B s =
     (case so_trie s of
        Some t \<Rightarrow> (t, s)
      | None \<Rightarrow>
          (case OpenStorageTrie B (so_addrHash s) (acc_root (so_data s)) of
             Inr t \<Rightarrow> (t, s\<lparr>so_trie := Some t\<rparr>)
           | Inl err \<Rightarrow>
               (let t = (case OpenStorageTrie B (so_addrHash s) zeroHash of Inr t \<Rightarrow> t | Inl _ \<Rightarrow> (\<lambda>_. Inr []))
                in (t, so_setError err (s\<lparr>so_trie := Some t\<rparr>)))))"

definition map_get :: "storage \<Rightarrow> bytes \<Rightarrow> bytes" where
  "map_get m k = (case m k of Some v \<Rightarrow> v | None \<Rightarrow> zeroHash)"

text \<open>The end of \<^verbatim>\<open>GetCommittedState\<close>: decode the stored value and remember it.\<close>

definition cache_value :: "bytes \<Rightarrow> bytes \<Rightarrow> stateObject \<Rightarrow> bytes \<times> stateObject" where
  "cache_value key enc s =
     (let (value, s) =
        (if length enc > 0 then
           (case Split enc of
              Inl err \<Rightarrow> (BytesToHash [], so_setError ''rlp'' s)
            | Inr (_, content, _) \<Rightarrow> (BytesToHash content, s))
         else (zeroHash, s))
      in (value, s\<lparr>so_origin := (so_origin s)(key \<mapsto> value)\<rparr>))"

definition so_GetCommittedState :: "backend \<Rightarrow> bytes set \<Rightarrow> stateObject \<Rightarrow> bytes \<Rightarrow> bytes \<times> stateObject" where
  "so_GetCommittedState B destructs s key =
     (case so_fake s of
        Some fake \<Rightarrow> (map_get fake key, s)
      | None \<Rightarrow>
     (case so_pending s key of
        Some value \<Rightarrow> (value, s)
      | None \<Rightarrow>
     (case so_origin s key of
        Some value \<Rightarrow> (value, s)
      | None \<Rightarrow>
          if snap B \<noteq> None \<and> so_addrHash s \<in> destructs then (zeroHash, s)
          else
            (case (case snap B of None \<Rightarrow> Inl [] | Some sn \<Rightarrow> sn_storage sn (so_addrHash s) (keccak B key)) of
               Inr enc \<Rightarrow> cache_value key enc s
             | Inl _ \<Rightarrow>
                 (let (t, s) = getTrie B s in
                  case t key of
                    Inl err \<Rightarrow> (zeroHash, so_setError err s)
                  | Inr enc \<Rightarrow> cache_value key enc s)))))"

definition so_GetState :: "backend \<Rightarrow> bytes set \<Rightarrow> stateObject \<Rightarrow> bytes \<Rightarrow> bytes \<times> stateObject" where
  "so_GetState B destructs s key =
     (case so_fake s of
        Some fake \<Rightarrow> (map_get fake key, s)
      | None \<Rightarrow>
          (case so_dirty s key of
             Some value \<Rightarrow> (value, s)
           | None \<Rightarrow> so_GetCommittedState B destructs s key))"

definition so_setState :: "bytes \<Rightarrow> bytes \<Rightarrow> stateObject \<Rightarrow> stateObject" where
  "so_setState key value s = s\<lparr>so_dirty := (so_dirty s)(key \<mapsto> value)\<rparr>"

definition so_setBalance :: "int \<Rightarrow> stateObject \<Rightarrow> stateObject" where
  "so_setBalance amount s = s\<lparr>so_data := (so_data s)\<lparr>acc_balance := amount\<rparr>\<rparr>"

definition so_setNonce :: "uint64 \<Rightarrow> stateObject \<Rightarrow> stateObject" where
  "so_setNonce nonce s = s\<lparr>so_data := (so_data s)\<lparr>acc_nonce := nonce\<rparr>\<rparr>"

definition so_setCode :: "bytes \<Rightarrow> bytes option \<Rightarrow> stateObject \<Rightarrow> stateObject" where
  "so_setCode codeHash code s =
     s\<lparr>so_code := code, so_data := (so_data s)\<lparr>acc_codehash := codeHash\<rparr>, so_dirtyCode := True\<rparr>"

definition so_Code :: "backend \<Rightarrow> stateObject \<Rightarrow> bytes option \<times> stateObject" where
  "so_Code B s =
     (if so_code s \<noteq> None then (so_code s, s)
      else if acc_codehash (so_data s) = emptyCodeHash B then (None, s)
      else
        (let (code, err) = ContractCode B (so_addrHash s) (BytesToHash (acc_codehash (so_data s)));
             s = (case err of None \<Rightarrow> s | Some e \<Rightarrow> so_setError e s)
         in (code, s\<lparr>so_code := code\<rparr>)))"

text \<open>Dirty slots become pending at the end of a transaction.\<close>

definition so_finalise :: "stateObject \<Rightarrow> stateObject" where
  "so_finalise s = s\<lparr>so_pending := so_pending s ++ so_dirty s, so_dirty := Map.empty\<rparr>"

subsection \<open>The journal\<close>

datatype journalEntry =
    CreateObjectChange address
  | ResetObjectChange stateObject bool
  | SuicideChange address bool int
  | BalanceChange address int
  | NonceChange address uint64
  | StorageChange address bytes bytes
  | CodeChange address "bytes option" bytes
  | RefundChange uint64
  | AddLogChange bytes
  | AddPreimageChange bytes
  | TouchChange address
  | AccessListAddAccountChange address
  | AccessListAddSlotChange address bytes

fun dirtied :: "journalEntry \<Rightarrow> address option" where
  "dirtied (CreateObjectChange a) = Some a"
| "dirtied (SuicideChange a _ _) = Some a"
| "dirtied (TouchChange a) = Some a"
| "dirtied (BalanceChange a _) = Some a"
| "dirtied (NonceChange a _) = Some a"
| "dirtied (CodeChange a _ _) = Some a"
| "dirtied (StorageChange a _ _) = Some a"
| "dirtied _ = None"

record journal =
  j_entries :: "journalEntry list"
  j_dirties :: "address \<rightharpoonup> int"

definition newJournal :: journal where
  "newJournal = \<lparr>j_entries = [], j_dirties = Map.empty\<rparr>"

definition journal_dirty :: "address \<Rightarrow> journal \<Rightarrow> journal" where
  "journal_dirty addr j =
     j\<lparr>j_dirties := (j_dirties j)(addr \<mapsto> (case j_dirties j addr of Some n \<Rightarrow> n | None \<Rightarrow> 0) + 1)\<rparr>"

definition journal_append :: "journalEntry \<Rightarrow> journal \<Rightarrow> journal" where
  "journal_append entry j =
     (let j = j\<lparr>j_entries := j_entries j @ [entry]\<rparr> in
      case dirtied entry of Some addr \<Rightarrow> journal_dirty addr j | None \<Rightarrow> j)"

definition journal_undirty :: "address \<Rightarrow> journal \<Rightarrow> journal" where
  "journal_undirty addr j =
     (let n = (case j_dirties j addr of Some n \<Rightarrow> n | None \<Rightarrow> 0) - 1 in
      j\<lparr>j_dirties := (j_dirties j)(addr := if n = 0 then None else Some n)\<rparr>)"

subsection \<open>The state\<close>

record log_entry =
  lg_address :: address
  lg_topics :: "bytes list"
  lg_data :: bytes
  lg_blockNumber :: uint64
  lg_txHash :: bytes
  lg_txIndex :: uint64
  lg_blockHash :: bytes
  lg_index :: uint64
  lg_removed :: bool

record stateDB =
  snapDestructs :: "bytes set"
  snapAccounts :: "bytes \<rightharpoonup> bytes"
  snapStorage :: "bytes \<rightharpoonup> storage"
  stateObjects :: "address \<rightharpoonup> stateObject"
  stateObjectsPending :: "address set"
  stateObjectsDirty :: "address set"
  dbErr :: "string option"
  refund :: uint64
  thash :: bytes
  txIndex :: uint64
  logs :: "bytes \<rightharpoonup> log_entry list"
  logSize :: uint64
  preimages :: "bytes \<rightharpoonup> bytes"
  accessList :: accessList
  journal :: journal
  validRevisions :: "(nat \<times> nat) list"
  nextRevisionId :: nat

text \<open>\<^verbatim>\<open>New\<close> without the opening of the trie, which is part of the backend.\<close>

definition state_New :: stateDB where
  "state_New =
     \<lparr>snapDestructs = {}, snapAccounts = Map.empty, snapStorage = Map.empty, stateObjects = Map.empty,
      stateObjectsPending = {}, stateObjectsDirty = {}, dbErr = None, refund = 0, thash = zeroHash, txIndex = 0,
      logs = Map.empty, logSize = 0, preimages = Map.empty, accessList = newAccessList, journal = newJournal,
      validRevisions = [], nextRevisionId = 0\<rparr>"

definition setError :: "string \<Rightarrow> stateDB \<Rightarrow> stateDB" where
  "setError err s = (if dbErr s = None then s\<lparr>dbErr := Some err\<rparr> else s)"

definition setStateObject :: "stateObject \<Rightarrow> stateDB \<Rightarrow> stateDB" where
  "setStateObject obj s = s\<lparr>stateObjects := (stateObjects s)(so_address obj \<mapsto> obj)\<rparr>"

definition append_entry :: "journalEntry \<Rightarrow> stateDB \<Rightarrow> stateDB" where
  "append_entry e s = s\<lparr>journal := journal_append e (journal s)\<rparr>"

datatype account_field = FUint uint64 | FInt int | FBytes bytes

definition field :: "('a \<Rightarrow> account_field) \<Rightarrow> (stream \<Rightarrow> 'a outcome) \<Rightarrow> account_field decoder" where
  "field c dec s = (case dec s of (Inl err, s) \<Rightarrow> Some (Inl err, s) | (Inr x, s) \<Rightarrow> Some (Inr (c x), s))"

text \<open>\<^verbatim>\<open>rlp.DecodeBytes(enc, data)\<close> for the struct \<^verbatim>\<open>Account\<close>.\<close>

definition decodeAccount :: "bytes \<Rightarrow> account option" where
  "decodeAccount enc =
     (case DecodeBytes enc (decodeStruct
        [(field FUint (decodeUint 64), False, FUint 0), (field FInt decodeBigInt, False, FInt 0),
         (field FBytes (decodeByteArray 32), False, FBytes []), (field FBytes decodeByteSlice, False, FBytes [])]) of
        Some (Inr [FUint n, FInt b, FBytes r, FBytes c]) \<Rightarrow>
          Some \<lparr>acc_nonce = n, acc_balance = b, acc_root = r, acc_codehash = c\<rparr>
      | _ \<Rightarrow> None)"

text \<open>The account as the snapshot or, without one or when it fails, the trie has it.\<close>

definition read_account :: "backend \<Rightarrow> address \<Rightarrow> string + account option" where
  "read_account B addr =
     (case (case snap B of None \<Rightarrow> Inl [] | Some sn \<Rightarrow> sn_account sn (keccak B (addr_bytes addr))) of
        Inr None \<Rightarrow> Inr None
      | Inr (Some acc) \<Rightarrow>
          Inr (Some (acc\<lparr>acc_codehash := (if length (acc_codehash acc) = 0 then emptyCodeHash B else acc_codehash acc),
            acc_root := (let r = BytesToHash (acc_root acc) in if r = zeroHash then emptyRoot else r)\<rparr>))
      | Inl _ \<Rightarrow>
          (case trie_TryGet B (addr_bytes addr) of
             Inl err \<Rightarrow> Inl err
           | Inr enc \<Rightarrow> if length enc = 0 then Inr None else Inr (decodeAccount enc)))"

definition object_of :: "backend \<Rightarrow> address \<Rightarrow> account \<Rightarrow> stateObject" where
  "object_of B addr data =
     newObject B addr (acc_nonce data) (Some (acc_balance data)) (acc_root data) (Some (acc_codehash data))"

definition getDeletedStateObject :: "backend \<Rightarrow> stateDB \<Rightarrow> address \<Rightarrow> stateObject option \<times> stateDB" where
  "getDeletedStateObject B s addr =
     (case stateObjects s addr of
        Some obj \<Rightarrow> (Some obj, s)
      | None \<Rightarrow>
          (case read_account B addr of
             Inl err \<Rightarrow> (None, setError err s)
           | Inr None \<Rightarrow> (None, s)
           | Inr (Some data) \<Rightarrow> (let obj = object_of B addr data in (Some obj, setStateObject obj s))))"

definition getStateObject :: "backend \<Rightarrow> stateDB \<Rightarrow> address \<Rightarrow> stateObject option \<times> stateDB" where
  "getStateObject B s addr =
     (case getDeletedStateObject B s addr of
        (Some obj, s) \<Rightarrow> (if \<not> so_deleted obj then Some obj else None, s)
      | (None, s) \<Rightarrow> (None, s))"

definition createObject :: "backend \<Rightarrow> stateDB \<Rightarrow> address \<Rightarrow> stateObject \<times> stateObject option \<times> stateDB" where
  "createObject B s addr =
     (let (prev, s) = getDeletedStateObject B s addr;
          newobj = newObject B addr 0 None zeroHash None
      in case prev of
           None \<Rightarrow> (newobj, None, setStateObject newobj (append_entry (CreateObjectChange addr) s))
         | Some p \<Rightarrow>
             (let prevdestruct = (snap B \<noteq> None \<and> so_addrHash p \<in> snapDestructs s);
                  s = (if snap B \<noteq> None then s\<lparr>snapDestructs := insert (so_addrHash p) (snapDestructs s)\<rparr> else s);
                  s = setStateObject newobj (append_entry (ResetObjectChange p prevdestruct) s)
              in (newobj, if \<not> so_deleted p then Some p else None, s)))"

definition GetOrNewStateObject :: "backend \<Rightarrow> stateDB \<Rightarrow> address \<Rightarrow> stateObject \<times> stateDB" where
  "GetOrNewStateObject B s addr =
     (case getStateObject B s addr of
        (Some obj, s) \<Rightarrow> (obj, s)
      | (None, s) \<Rightarrow> (case createObject B s addr of (obj, _, s) \<Rightarrow> (obj, s)))"

definition CreateAccount :: "backend \<Rightarrow> stateDB \<Rightarrow> address \<Rightarrow> stateDB" where
  "CreateAccount B s addr =
     (case createObject B s addr of
        (newObj, Some prev, s) \<Rightarrow> setStateObject (so_setBalance (acc_balance (so_data prev)) newObj) s
      | (newObj, None, s) \<Rightarrow> s)"

subsection \<open>Readers\<close>

definition read_obj :: "backend \<Rightarrow> stateDB \<Rightarrow> address \<Rightarrow> 'a \<Rightarrow> (stateObject \<Rightarrow> 'a) \<Rightarrow> 'a \<times> stateDB" where
  "read_obj B s addr dflt f =
     (case getStateObject B s addr of (Some obj, s) \<Rightarrow> (f obj, s) | (None, s) \<Rightarrow> (dflt, s))"

definition Exist :: "backend \<Rightarrow> stateDB \<Rightarrow> address \<Rightarrow> bool \<times> stateDB" where
  "Exist B s addr = read_obj B s addr False (\<lambda>_. True)"

definition Empty :: "backend \<Rightarrow> stateDB \<Rightarrow> address \<Rightarrow> bool \<times> stateDB" where
  "Empty B s addr = read_obj B s addr True (so_empty B)"

definition GetBalance :: "backend \<Rightarrow> stateDB \<Rightarrow> address \<Rightarrow> int \<times> stateDB" where
  "GetBalance B s addr = read_obj B s addr 0 (\<lambda>obj. acc_balance (so_data obj))"

definition GetNonce :: "backend \<Rightarrow> stateDB \<Rightarrow> address \<Rightarrow> uint64 \<times> stateDB" where
  "GetNonce B s addr = read_obj B s addr 0 (\<lambda>obj. acc_nonce (so_data obj))"

definition GetCodeHash :: "backend \<Rightarrow> stateDB \<Rightarrow> address \<Rightarrow> bytes \<times> stateDB" where
  "GetCodeHash B s addr = read_obj B s addr zeroHash (\<lambda>obj. BytesToHash (acc_codehash (so_data obj)))"

definition HasSuicided :: "backend \<Rightarrow> stateDB \<Rightarrow> address \<Rightarrow> bool \<times> stateDB" where
  "HasSuicided B s addr = read_obj B s addr False so_suicided"

definition GetCode :: "backend \<Rightarrow> stateDB \<Rightarrow> address \<Rightarrow> bytes option \<times> stateDB" where
  "GetCode B s addr =
     (case getStateObject B s addr of
        (Some obj, s) \<Rightarrow> (let (code, obj) = so_Code B obj in (code, setStateObject obj s))
      | (None, s) \<Rightarrow> (None, s))"

definition GetState :: "backend \<Rightarrow> stateDB \<Rightarrow> address \<Rightarrow> bytes \<Rightarrow> bytes \<times> stateDB" where
  "GetState B s addr key =
     (case getStateObject B s addr of
        (Some obj, s) \<Rightarrow> (let (v, obj) = so_GetState B (snapDestructs s) obj key in (v, setStateObject obj s))
      | (None, s) \<Rightarrow> (zeroHash, s))"

definition GetCommittedState :: "backend \<Rightarrow> stateDB \<Rightarrow> address \<Rightarrow> bytes \<Rightarrow> bytes \<times> stateDB" where
  "GetCommittedState B s addr key =
     (case getStateObject B s addr of
        (Some obj, s) \<Rightarrow> (let (v, obj) = so_GetCommittedState B (snapDestructs s) obj key in (v, setStateObject obj s))
      | (None, s) \<Rightarrow> (zeroHash, s))"

subsection \<open>Writers\<close>

definition ripemd :: address where
  "ripemd = 3"

definition so_touch :: "stateObject \<Rightarrow> stateDB \<Rightarrow> stateDB" where
  "so_touch obj s =
     (let s = append_entry (TouchChange (so_address obj)) s in
      if so_address obj = ripemd then s\<lparr>journal := journal_dirty (so_address obj) (journal s)\<rparr> else s)"

definition so_SetBalance :: "stateObject \<Rightarrow> int \<Rightarrow> stateDB \<Rightarrow> stateDB" where
  "so_SetBalance obj amount s =
     setStateObject (so_setBalance amount obj) (append_entry (BalanceChange (so_address obj) (acc_balance (so_data obj))) s)"

definition so_AddBalance :: "backend \<Rightarrow> stateObject \<Rightarrow> int \<Rightarrow> stateDB \<Rightarrow> stateDB" where
  "so_AddBalance B obj amount s =
     (if amount = 0 then (if so_empty B obj then so_touch obj s else s)
      else so_SetBalance obj (acc_balance (so_data obj) + amount) s)"

definition so_SubBalance :: "stateObject \<Rightarrow> int \<Rightarrow> stateDB \<Rightarrow> stateDB" where
  "so_SubBalance obj amount s =
     (if amount = 0 then s else so_SetBalance obj (acc_balance (so_data obj) - amount) s)"

definition so_SetNonce :: "stateObject \<Rightarrow> uint64 \<Rightarrow> stateDB \<Rightarrow> stateDB" where
  "so_SetNonce obj nonce s =
     setStateObject (so_setNonce nonce obj) (append_entry (NonceChange (so_address obj) (acc_nonce (so_data obj))) s)"

definition so_SetCode :: "backend \<Rightarrow> stateObject \<Rightarrow> bytes \<Rightarrow> bytes option \<Rightarrow> stateDB \<Rightarrow> stateDB" where
  "so_SetCode B obj codeHash code s =
     (let (prevcode, obj) = so_Code B obj in
      setStateObject (so_setCode codeHash code obj)
        (append_entry (CodeChange (so_address obj) prevcode (acc_codehash (so_data obj))) s))"

definition so_SetState :: "backend \<Rightarrow> stateObject \<Rightarrow> bytes \<Rightarrow> bytes \<Rightarrow> stateDB \<Rightarrow> stateDB" where
  "so_SetState B obj key value s =
     (case so_fake obj of
        Some fake \<Rightarrow> setStateObject (obj\<lparr>so_fake := Some (fake(key \<mapsto> value))\<rparr>) s
      | None \<Rightarrow>
          (let (prev, obj) = so_GetState B (snapDestructs s) obj key in
           if prev = value then setStateObject obj s
           else setStateObject (so_setState key value obj) (append_entry (StorageChange (so_address obj) key prev) s)))"

definition AddBalance :: "backend \<Rightarrow> stateDB \<Rightarrow> address \<Rightarrow> int \<Rightarrow> stateDB" where
  "AddBalance B s addr amount = (case GetOrNewStateObject B s addr of (obj, s) \<Rightarrow> so_AddBalance B obj amount s)"

definition SubBalance :: "backend \<Rightarrow> stateDB \<Rightarrow> address \<Rightarrow> int \<Rightarrow> stateDB" where
  "SubBalance B s addr amount = (case GetOrNewStateObject B s addr of (obj, s) \<Rightarrow> so_SubBalance obj amount s)"

definition SetBalance :: "backend \<Rightarrow> stateDB \<Rightarrow> address \<Rightarrow> int \<Rightarrow> stateDB" where
  "SetBalance B s addr amount = (case GetOrNewStateObject B s addr of (obj, s) \<Rightarrow> so_SetBalance obj amount s)"

definition SetNonce :: "backend \<Rightarrow> stateDB \<Rightarrow> address \<Rightarrow> uint64 \<Rightarrow> stateDB" where
  "SetNonce B s addr nonce = (case GetOrNewStateObject B s addr of (obj, s) \<Rightarrow> so_SetNonce obj nonce s)"

definition SetCode :: "backend \<Rightarrow> stateDB \<Rightarrow> address \<Rightarrow> bytes option \<Rightarrow> stateDB" where
  "SetCode B s addr code =
     (case GetOrNewStateObject B s addr of
        (obj, s) \<Rightarrow> so_SetCode B obj (keccak B (case code of Some c \<Rightarrow> c | None \<Rightarrow> [])) code s)"

definition SetState :: "backend \<Rightarrow> stateDB \<Rightarrow> address \<Rightarrow> bytes \<Rightarrow> bytes \<Rightarrow> stateDB" where
  "SetState B s addr key value = (case GetOrNewStateObject B s addr of (obj, s) \<Rightarrow> so_SetState B obj key value s)"

text \<open>For debugging: replaces the storage by a fake one, which is never journalled.\<close>

definition SetStorage :: "backend \<Rightarrow> stateDB \<Rightarrow> address \<Rightarrow> storage \<Rightarrow> stateDB" where
  "SetStorage B s addr st =
     (case GetOrNewStateObject B s addr of
        (obj, s) \<Rightarrow> setStateObject (obj\<lparr>so_fake := Some ((case so_fake obj of Some f \<Rightarrow> f | None \<Rightarrow> Map.empty) ++ st)\<rparr>) s)"

definition Suicide :: "backend \<Rightarrow> stateDB \<Rightarrow> address \<Rightarrow> bool \<times> stateDB" where
  "Suicide B s addr =
     (case getStateObject B s addr of
        (None, s) \<Rightarrow> (False, s)
      | (Some obj, s) \<Rightarrow>
          (let s = append_entry (SuicideChange addr (so_suicided obj) (acc_balance (so_data obj))) s in
           (True, setStateObject (so_setBalance 0 (obj\<lparr>so_suicided := True\<rparr>)) s)))"

definition AddLog :: "stateDB \<Rightarrow> log_entry \<Rightarrow> stateDB" where
  "AddLog s lg =
     (let s = append_entry (AddLogChange (thash s)) s;
          lg = lg\<lparr>lg_txHash := thash s, lg_txIndex := txIndex s, lg_index := logSize s\<rparr>
      in s\<lparr>logs := (logs s)(thash s \<mapsto> (case logs s (thash s) of Some l \<Rightarrow> l | None \<Rightarrow> []) @ [lg]), logSize := logSize s + 1\<rparr>)"

definition AddPreimage :: "stateDB \<Rightarrow> bytes \<Rightarrow> bytes \<Rightarrow> stateDB" where
  "AddPreimage s h preimage =
     (if preimages s h = None then (append_entry (AddPreimageChange h) s)\<lparr>preimages := (preimages s)(h \<mapsto> preimage)\<rparr> else s)"

definition AddRefund :: "stateDB \<Rightarrow> uint64 \<Rightarrow> stateDB" where
  "AddRefund s gas = (append_entry (RefundChange (refund s)) s)\<lparr>refund := refund s + gas\<rparr>"

definition SubRefund :: "stateDB \<Rightarrow> uint64 \<Rightarrow> stateDB option" where
  "SubRefund s gas =
     (let s = append_entry (RefundChange (refund s)) s in
      if gas > refund s then None else Some (s\<lparr>refund := refund s - gas\<rparr>))"

definition AddAddressToAccessList :: "stateDB \<Rightarrow> address \<Rightarrow> stateDB" where
  "AddAddressToAccessList s addr =
     (let (b, al) = AddAddress (accessList s) addr; s = s\<lparr>accessList := al\<rparr> in
      if b then append_entry (AccessListAddAccountChange addr) s else s)"

definition AddSlotToAccessList :: "stateDB \<Rightarrow> address \<Rightarrow> bytes \<Rightarrow> stateDB option" where
  "AddSlotToAccessList s addr slot =
     (case AddSlot (accessList s) addr slot of
        None \<Rightarrow> None
      | Some ((addrMod, slotMod), al) \<Rightarrow>
          (let s = s\<lparr>accessList := al\<rparr>;
               s = (if addrMod then append_entry (AccessListAddAccountChange addr) s else s)
           in Some (if slotMod then append_entry (AccessListAddSlotChange addr slot) s else s)))"

subsection \<open>Snapshots\<close>

definition on_obj :: "backend \<Rightarrow> stateDB \<Rightarrow> address \<Rightarrow> (stateObject \<Rightarrow> stateObject) \<Rightarrow> stateDB option" where
  "on_obj B s addr f =
     (case getStateObject B s addr of (Some obj, s) \<Rightarrow> Some (setStateObject (f obj) s) | (None, s) \<Rightarrow> None)"

fun revert_entry :: "backend \<Rightarrow> journalEntry \<Rightarrow> stateDB \<Rightarrow> stateDB option" where
  "revert_entry B (CreateObjectChange a) s =
     Some (s\<lparr>stateObjects := (stateObjects s)(a := None), stateObjectsDirty := stateObjectsDirty s - {a}\<rparr>)"
| "revert_entry B (ResetObjectChange prev prevdestruct) s =
     (let s = setStateObject prev s in
      Some (if \<not> prevdestruct \<and> snap B \<noteq> None then s\<lparr>snapDestructs := snapDestructs s - {so_addrHash prev}\<rparr> else s))"
| "revert_entry B (SuicideChange a prev prevbalance) s =
     (case getStateObject B s a of
        (Some obj, s) \<Rightarrow> Some (setStateObject (so_setBalance prevbalance (obj\<lparr>so_suicided := prev\<rparr>)) s)
      | (None, s) \<Rightarrow> Some s)"
| "revert_entry B (TouchChange a) s = Some s"
| "revert_entry B (BalanceChange a prev) s = on_obj B s a (so_setBalance prev)"
| "revert_entry B (NonceChange a prev) s = on_obj B s a (so_setNonce prev)"
| "revert_entry B (CodeChange a prevcode prevhash) s = on_obj B s a (so_setCode (BytesToHash prevhash) prevcode)"
| "revert_entry B (StorageChange a key prevalue) s = on_obj B s a (so_setState key prevalue)"
| "revert_entry B (RefundChange prev) s = Some (s\<lparr>refund := prev\<rparr>)"
| "revert_entry B (AddLogChange txhash) s =
     (let ls = (case logs s txhash of Some l \<Rightarrow> l | None \<Rightarrow> []) in
      if length ls = 1 then Some (s\<lparr>logs := (logs s)(txhash := None), logSize := logSize s - 1\<rparr>)
      else if ls = [] then None
      else Some (s\<lparr>logs := (logs s)(txhash \<mapsto> take (length ls - 1) ls), logSize := logSize s - 1\<rparr>))"
| "revert_entry B (AddPreimageChange h) s = Some (s\<lparr>preimages := (preimages s)(h := None)\<rparr>)"
| "revert_entry B (AccessListAddAccountChange a) s = Some (s\<lparr>accessList := DeleteAddress (accessList s) a\<rparr>)"
| "revert_entry B (AccessListAddSlotChange a slot) s =
     map_option (\<lambda>al. s\<lparr>accessList := al\<rparr>) (DeleteSlot (accessList s) a slot)"

text \<open>The loop of \<^verbatim>\<open>journal.revert\<close> over the entries from the last one down.\<close>

fun revert_loop :: "backend \<Rightarrow> journalEntry list \<Rightarrow> stateDB \<Rightarrow> stateDB option" where
  "revert_loop B [] s = Some s"
| "revert_loop B (e # es) s =
     (case revert_entry B e s of
        None \<Rightarrow> None
      | Some s \<Rightarrow>
          revert_loop B es
            (case dirtied e of Some addr \<Rightarrow> s\<lparr>journal := journal_undirty addr (journal s)\<rparr> | None \<Rightarrow> s))"

definition journal_revert :: "backend \<Rightarrow> nat \<Rightarrow> stateDB \<Rightarrow> stateDB option" where
  "journal_revert B snapshot s =
     (if snapshot \<le> length (j_entries (journal s)) then
        map_option (\<lambda>s. s\<lparr>journal := (journal s)\<lparr>j_entries := take snapshot (j_entries (journal s))\<rparr>\<rparr>)
          (revert_loop B (rev (drop snapshot (j_entries (journal s)))) s)
      else None)"

definition Snapshot :: "stateDB \<Rightarrow> nat \<times> stateDB" where
  "Snapshot s =
     (let i = nextRevisionId s in
      (i, s\<lparr>nextRevisionId := i + 1, validRevisions := validRevisions s @ [(i, length (j_entries (journal s)))]\<rparr>))"

definition RevertToSnapshot :: "backend \<Rightarrow> stateDB \<Rightarrow> nat \<Rightarrow> stateDB option" where
  "RevertToSnapshot B s revid =
     (let idx = sort_Search (length (validRevisions s)) (\<lambda>i. fst (validRevisions s ! i) \<ge> revid) in
      if idx = length (validRevisions s) \<or> fst (validRevisions s ! idx) \<noteq> revid then None
      else
        map_option (\<lambda>s. s\<lparr>validRevisions := take idx (validRevisions s)\<rparr>)
          (journal_revert B (snd (validRevisions s ! idx)) s))"

subsection \<open>End of a transaction\<close>

definition clearJournalAndRefund :: "stateDB \<Rightarrow> stateDB" where
  "clearJournalAndRefund s =
     (let s = (if length (j_entries (journal s)) > 0 then s\<lparr>journal := newJournal, refund := 0\<rparr> else s) in
      s\<lparr>validRevisions := []\<rparr>)"

definition finalise_addr :: "backend \<Rightarrow> bool \<Rightarrow> address \<Rightarrow> stateDB \<Rightarrow> stateDB" where
  "finalise_addr B deleteEmptyObjects addr s =
     (case stateObjects s addr of
        None \<Rightarrow> s
      | Some obj \<Rightarrow>
          (let s = (if so_suicided obj \<or> (deleteEmptyObjects \<and> so_empty B obj) then
                      (let s = s\<lparr>stateObjects := (stateObjects s)(addr \<mapsto> obj\<lparr>so_deleted := True\<rparr>)\<rparr> in
                       if snap B \<noteq> None then
                         s\<lparr>snapDestructs := insert (so_addrHash obj) (snapDestructs s),
                           snapAccounts := (snapAccounts s)(so_addrHash obj := None),
                           snapStorage := (snapStorage s)(so_addrHash obj := None)\<rparr>
                       else s)
                    else s\<lparr>stateObjects := (stateObjects s)(addr \<mapsto> so_finalise obj)\<rparr>)
           in s\<lparr>stateObjectsPending := insert addr (stateObjectsPending s),
                stateObjectsDirty := insert addr (stateObjectsDirty s)\<rparr>))"

text \<open>The loop ranges over the map \<^verbatim>\<open>journal.dirties\<close> in an order that the run-time system chooses: the argument \<open>order\<close>.\<close>

definition Finalise :: "backend \<Rightarrow> bool \<Rightarrow> address list \<Rightarrow> stateDB \<Rightarrow> stateDB" where
  "Finalise B deleteEmptyObjects order s =
     clearJournalAndRefund (foldl (\<lambda>s addr. finalise_addr B deleteEmptyObjects addr s) s order)"

definition Prepare :: "bytes \<Rightarrow> uint64 \<Rightarrow> stateDB \<Rightarrow> stateDB" where
  "Prepare h ti s = s\<lparr>thash := h, txIndex := ti, accessList := newAccessList\<rparr>"

end
