(* ===== verification/State_Journal.thy ===== *)
theory State_Journal
  imports State_DB
begin

section \<open>Package core/state: the journal implements snapshots\<close>

text \<open>
  The state as its users see it is a \<open>world\<close>: what the readers return for every account, the refund counter, the logs, the
  preimages and the access list. The specification of snapshots keeps a copy of the world for every revision. The
  theorem is that the journalled state is equivalent to it: every operation returns the same result, changes the world in
  the same way and panics in the same cases, and a revert restores the copy.
\<close>

subsection \<open>The world\<close>

record aobj =
  ao_nonce :: uint64
  ao_balance :: int
  ao_root :: bytes
  ao_codehash :: bytes
  ao_code :: "bytes option"
  ao_state :: "bytes \<Rightarrow> bytes"
  ao_committed :: "bytes \<Rightarrow> bytes"
  ao_suicided :: bool
  ao_deleted :: bool

record world =
  w_objs :: "address \<rightharpoonup> aobj"
  w_destructs :: "bytes set"
  w_refund :: uint64
  w_thash :: bytes
  w_txIndex :: uint64
  w_logs :: "bytes \<rightharpoonup> log_entry list"
  w_logSize :: uint64
  w_preimages :: "bytes \<rightharpoonup> bytes"
  w_al :: accessList

definition obj_abs :: "backend \<Rightarrow> bytes set \<Rightarrow> stateObject \<Rightarrow> aobj" where
  "obj_abs B ds o' =
     \<lparr>ao_nonce = acc_nonce (so_data o'), ao_balance = acc_balance (so_data o'), ao_root = acc_root (so_data o'),
      ao_codehash = acc_codehash (so_data o'), ao_code = fst (so_Code B o'),
      ao_state = (\<lambda>k. fst (so_GetState B ds o' k)), ao_committed = (\<lambda>k. fst (so_GetCommittedState B ds o' k)),
      ao_suicided = so_suicided o', ao_deleted = so_deleted o'\<rparr>"

definition backend_obj :: "backend \<Rightarrow> address \<Rightarrow> stateObject option" where
  "backend_obj B a = (case read_account B a of Inr (Some data) \<Rightarrow> Some (object_of B a data) | _ \<Rightarrow> None)"

definition live_obj :: "backend \<Rightarrow> stateDB \<Rightarrow> address \<Rightarrow> stateObject option" where
  "live_obj B s a = (case stateObjects s a of Some obj \<Rightarrow> Some obj | None \<Rightarrow> backend_obj B a)"

definition state_abs :: "backend \<Rightarrow> stateDB \<Rightarrow> world" where
  "state_abs B s =
     \<lparr>w_objs = (\<lambda>a. map_option (obj_abs B (snapDestructs s)) (live_obj B s a)), w_destructs = snapDestructs s,
      w_refund = refund s, w_thash = thash s, w_txIndex = txIndex s, w_logs = logs s, w_logSize = logSize s,
      w_preimages = preimages s, w_al = accessList s\<rparr>"

subsection \<open>Well-formed states\<close>

definition obj_wf :: "backend \<Rightarrow> address \<Rightarrow> stateObject \<Rightarrow> bool" where
  "obj_wf B a obj \<longleftrightarrow> so_address obj = a \<and> so_addrHash obj = keccak B (addr_bytes a) \<and> so_fake obj = None \<and>
     length (acc_codehash (so_data obj)) = 32"

text \<open>What the state relies on: hashes have 32 bytes, also the code hashes in the backend, and no two addresses have
  the same hash.\<close>

definition backend_ok :: "backend \<Rightarrow> bool" where
  "backend_ok B \<longleftrightarrow> (\<forall>b. length (keccak B b) = 32) \<and> inj (\<lambda>a. keccak B (addr_bytes a)) \<and>
     (\<forall>a obj. backend_obj B a = Some obj \<longrightarrow> length (acc_codehash (so_data obj)) = 32)"

fun entry_wf :: "backend \<Rightarrow> journalEntry \<Rightarrow> bool" where
  "entry_wf B (ResetObjectChange p d) = obj_wf B (so_address p) p"
| "entry_wf B _ = True"

definition state_wf :: "backend \<Rightarrow> stateDB \<Rightarrow> bool" where
  "state_wf B s \<longleftrightarrow> (\<forall>a obj. stateObjects s a = Some obj \<longrightarrow> obj_wf B a obj) \<and>
     (\<forall>e \<in> set (j_entries (journal s)). entry_wf B e)"

definition world_wf :: "world \<Rightarrow> bool" where
  "world_wf w \<longleftrightarrow> al_wf (w_al w) \<and> (\<forall>h. w_logs w h \<noteq> Some [])"

subsection \<open>Reading changes no observation\<close>

lemmas so_simps = so_setError_def so_setState_def so_setBalance_def so_setNonce_def

lemma setError_fields [simp]:
  "so_address (so_setError e o') = so_address o'" "so_addrHash (so_setError e o') = so_addrHash o'"
  "so_data (so_setError e o') = so_data o'" "so_trie (so_setError e o') = so_trie o'"
  "so_code (so_setError e o') = so_code o'" "so_origin (so_setError e o') = so_origin o'"
  "so_pending (so_setError e o') = so_pending o'" "so_dirty (so_setError e o') = so_dirty o'"
  "so_fake (so_setError e o') = so_fake o'" "so_suicided (so_setError e o') = so_suicided o'"
  "so_deleted (so_setError e o') = so_deleted o'"
  by (simp_all add: so_setError_def)

definition reader :: "backend \<Rightarrow> stateObject \<Rightarrow> store_reader" where
  "reader B o' = fst (getTrie B o')"

lemma reader_cong:
  "so_trie o1 = so_trie o2 \<Longrightarrow> so_addrHash o1 = so_addrHash o2 \<Longrightarrow> acc_root (so_data o1) = acc_root (so_data o2) \<Longrightarrow>
    reader B o1 = reader B o2"
  by (simp add: reader_def getTrie_def Let_def split: option.splits sum.splits)

lemma getTrie_fields [simp]:
  "so_address (snd (getTrie B o')) = so_address o'" "so_addrHash (snd (getTrie B o')) = so_addrHash o'"
  "so_data (snd (getTrie B o')) = so_data o'" "so_code (snd (getTrie B o')) = so_code o'"
  "so_origin (snd (getTrie B o')) = so_origin o'" "so_pending (snd (getTrie B o')) = so_pending o'"
  "so_dirty (snd (getTrie B o')) = so_dirty o'" "so_fake (snd (getTrie B o')) = so_fake o'"
  "so_suicided (snd (getTrie B o')) = so_suicided o'" "so_deleted (snd (getTrie B o')) = so_deleted o'"
  by (simp_all add: getTrie_def Let_def split: option.splits sum.splits)

lemma reader_getTrie: "reader B (snd (getTrie B o')) = reader B o'"
  by (cases "so_trie o'"; cases "OpenStorageTrie B (so_addrHash o') (acc_root (so_data o'))")
    (simp_all add: reader_def getTrie_def Let_def)

definition read_value :: "bytes \<Rightarrow> bytes" where
  "read_value enc =
     (if length enc > 0 then (case Split enc of Inl err \<Rightarrow> BytesToHash [] | Inr (_, content, _) \<Rightarrow> BytesToHash content) else zeroHash)"

lemma cache_value_fst: "fst (cache_value k enc o') = read_value enc"
  by (simp add: cache_value_def read_value_def split: sum.splits prod.splits)

lemma cache_value_fields [simp]:
  "so_address (snd (cache_value k enc o')) = so_address o'" "so_addrHash (snd (cache_value k enc o')) = so_addrHash o'"
  "so_data (snd (cache_value k enc o')) = so_data o'" "so_code (snd (cache_value k enc o')) = so_code o'"
  "so_trie (snd (cache_value k enc o')) = so_trie o'" "so_pending (snd (cache_value k enc o')) = so_pending o'"
  "so_dirty (snd (cache_value k enc o')) = so_dirty o'" "so_fake (snd (cache_value k enc o')) = so_fake o'"
  "so_suicided (snd (cache_value k enc o')) = so_suicided o'" "so_deleted (snd (cache_value k enc o')) = so_deleted o'"
  "so_origin (snd (cache_value k enc o')) = (so_origin o')(k \<mapsto> read_value enc)"
  by (simp_all add: cache_value_def read_value_def split: sum.splits prod.splits)

definition base_value :: "backend \<Rightarrow> bool \<Rightarrow> bytes \<Rightarrow> store_reader \<Rightarrow> bytes \<Rightarrow> bytes" where
  "base_value B destructed ah rd k =
     (if snap B \<noteq> None \<and> destructed then zeroHash
      else
        (case (case snap B of None \<Rightarrow> Inl [] | Some sn \<Rightarrow> sn_storage sn ah (keccak B k)) of
           Inr enc \<Rightarrow> read_value enc
         | Inl _ \<Rightarrow> (case rd k of Inl _ \<Rightarrow> zeroHash | Inr enc \<Rightarrow> read_value enc)))"

definition committed_value :: "backend \<Rightarrow> bytes set \<Rightarrow> stateObject \<Rightarrow> bytes \<Rightarrow> bytes" where
  "committed_value B ds o' k =
     (case so_pending o' k of Some v \<Rightarrow> v | None \<Rightarrow>
     (case so_origin o' k of Some v \<Rightarrow> v | None \<Rightarrow> base_value B (so_addrHash o' \<in> ds) (so_addrHash o') (reader B o') k))"

lemma GetCommittedState_fst: "so_fake o' = None \<Longrightarrow> fst (so_GetCommittedState B ds o' k) = committed_value B ds o' k"
  by (simp add: so_GetCommittedState_def committed_value_def base_value_def reader_def cache_value_fst
      split: option.splits sum.splits prod.splits)

lemma GetCommittedState_fields [simp]:
  "so_address (snd (so_GetCommittedState B ds o' k)) = so_address o'"
  "so_addrHash (snd (so_GetCommittedState B ds o' k)) = so_addrHash o'"
  "so_data (snd (so_GetCommittedState B ds o' k)) = so_data o'" "so_code (snd (so_GetCommittedState B ds o' k)) = so_code o'"
  "so_pending (snd (so_GetCommittedState B ds o' k)) = so_pending o'" "so_dirty (snd (so_GetCommittedState B ds o' k)) = so_dirty o'"
  "so_fake (snd (so_GetCommittedState B ds o' k)) = so_fake o'"
  "so_suicided (snd (so_GetCommittedState B ds o' k)) = so_suicided o'" "so_deleted (snd (so_GetCommittedState B ds o' k)) = so_deleted o'"
  by (simp_all add: so_GetCommittedState_def Let_def case_prod_beta split: option.splits sum.splits)

lemma reader_cache: "reader B (snd (cache_value k enc o')) = reader B o'"
  by (rule reader_cong) simp_all

lemma reader_setError: "reader B (so_setError e o') = reader B o'"
  by (rule reader_cong) simp_all

lemma GetCommittedState_reader: "reader B (snd (so_GetCommittedState B ds o' k)) = reader B o'"
  by (simp add: so_GetCommittedState_def Let_def case_prod_beta reader_cache reader_setError reader_getTrie split: option.splits sum.splits)

text \<open>The cached value is the one that a second read would find.\<close>

lemma GetCommittedState_origin:
  assumes "so_fake o' = None"
  shows "so_origin (snd (so_GetCommittedState B ds o' k)) = so_origin o' \<or>
    so_origin (snd (so_GetCommittedState B ds o' k)) = (so_origin o')(k \<mapsto> base_value B (so_addrHash o' \<in> ds) (so_addrHash o') (reader B o') k) \<and>
      so_pending o' k = None \<and> so_origin o' k = None"
  using assms
  by (simp add: so_GetCommittedState_def base_value_def reader_def Let_def case_prod_beta split: option.splits sum.splits)

lemma GetCommittedState_committed:
  assumes "so_fake o' = None"
  shows "committed_value B ds (snd (so_GetCommittedState B ds o' k)) = committed_value B ds o'"
proof
  fix k'
  show "committed_value B ds (snd (so_GetCommittedState B ds o' k)) k' = committed_value B ds o' k'"
    using GetCommittedState_origin [OF assms, of B ds k]
    by (cases "k' = k") (auto simp: committed_value_def GetCommittedState_reader split: option.splits)
qed

definition state_value :: "backend \<Rightarrow> bytes set \<Rightarrow> stateObject \<Rightarrow> bytes \<Rightarrow> bytes" where
  "state_value B ds o' k = (case so_dirty o' k of Some v \<Rightarrow> v | None \<Rightarrow> committed_value B ds o' k)"

lemma state_value_cong:
  "so_dirty o1 = so_dirty o2 \<Longrightarrow> committed_value B ds o1 = committed_value B ds' o2 \<Longrightarrow>
    state_value B ds o1 = state_value B ds' o2"
  by (simp add: state_value_def fun_eq_iff cong: option.case_cong)

lemma GetState_fst: "so_fake o' = None \<Longrightarrow> fst (so_GetState B ds o' k) = state_value B ds o' k"
  by (simp add: so_GetState_def state_value_def GetCommittedState_fst split: option.splits)

lemma GetState_snd: "so_fake o' = None \<Longrightarrow>
    snd (so_GetState B ds o' k) = (if so_dirty o' k = None then snd (so_GetCommittedState B ds o' k) else o')"
  by (auto simp: so_GetState_def split: option.splits)

definition code_value :: "backend \<Rightarrow> bytes \<Rightarrow> bytes option \<Rightarrow> bytes \<Rightarrow> bytes option" where
  "code_value B ah code codehash =
     (if code \<noteq> None then code else if codehash = emptyCodeHash B then None else fst (ContractCode B ah (BytesToHash codehash)))"

lemma Code_fst: "fst (so_Code B o') = code_value B (so_addrHash o') (so_code o') (acc_codehash (so_data o'))"
  by (simp add: so_Code_def code_value_def case_prod_beta)

lemma Code_fields [simp]:
  "so_address (snd (so_Code B o')) = so_address o'" "so_addrHash (snd (so_Code B o')) = so_addrHash o'"
  "so_data (snd (so_Code B o')) = so_data o'" "so_trie (snd (so_Code B o')) = so_trie o'"
  "so_origin (snd (so_Code B o')) = so_origin o'" "so_pending (snd (so_Code B o')) = so_pending o'"
  "so_dirty (snd (so_Code B o')) = so_dirty o'" "so_fake (snd (so_Code B o')) = so_fake o'"
  "so_suicided (snd (so_Code B o')) = so_suicided o'" "so_deleted (snd (so_Code B o')) = so_deleted o'"
  by (simp_all add: so_Code_def case_prod_beta Let_def split: option.splits)

lemma code_value_idem [simp]: "code_value B ah (code_value B ah c h) h = code_value B ah c h"
  by (simp add: code_value_def)

lemma Code_code_value: "code_value B (so_addrHash o') (so_code (snd (so_Code B o'))) (acc_codehash (so_data o')) = fst (so_Code B o')"
  by (auto simp: so_Code_def code_value_def case_prod_beta Let_def split: option.splits)

lemma obj_abs_values:
  assumes "so_fake o' = None"
  shows "obj_abs B ds o' =
     \<lparr>ao_nonce = acc_nonce (so_data o'), ao_balance = acc_balance (so_data o'), ao_root = acc_root (so_data o'),
      ao_codehash = acc_codehash (so_data o'), ao_code = code_value B (so_addrHash o') (so_code o') (acc_codehash (so_data o')),
      ao_state = state_value B ds o', ao_committed = committed_value B ds o',
      ao_suicided = so_suicided o', ao_deleted = so_deleted o'\<rparr>"
  using assms by (simp add: obj_abs_def GetState_fst GetCommittedState_fst Code_fst)

lemma obj_abs_GetCommittedState:
  assumes "so_fake o' = None"
  shows "obj_abs B ds (snd (so_GetCommittedState B ds o' k)) = obj_abs B ds o'"
  using assms state_value_cong [of "snd (so_GetCommittedState B ds o' k)" o' B ds ds]
  by (simp add: obj_abs_values GetCommittedState_committed)

lemma obj_abs_GetState: "so_fake o' = None \<Longrightarrow> obj_abs B ds (snd (so_GetState B ds o' k)) = obj_abs B ds o'"
  by (simp add: GetState_snd obj_abs_GetCommittedState)

lemma committed_value_cong:
  assumes "so_addrHash o1 = so_addrHash o2" "so_pending o1 = so_pending o2" "so_origin o1 = so_origin o2"
    "so_trie o1 = so_trie o2" "acc_root (so_data o1) = acc_root (so_data o2)"
  shows "committed_value B ds o1 = committed_value B ds o2"
  unfolding committed_value_def using assms reader_cong [of o1 o2 B] by (simp cong: option.case_cong)

lemma obj_abs_Code:
  assumes "so_fake o' = None"
  shows "obj_abs B ds (snd (so_Code B o')) = obj_abs B ds o'"
proof -
  have "committed_value B ds (snd (so_Code B o')) = committed_value B ds o'" by (rule committed_value_cong) simp_all
  with assms show ?thesis
    using Code_code_value [of B o'] Code_fst [of B o'] state_value_cong [of "snd (so_Code B o')" o' B ds ds]
    by (simp add: obj_abs_values)
qed

text \<open>The setters, on the abstract object.\<close>

lemma obj_abs_setBalance: "so_fake o' = None \<Longrightarrow> obj_abs B ds (so_setBalance b o') = (obj_abs B ds o')\<lparr>ao_balance := b\<rparr>"
  using committed_value_cong [of "so_setBalance b o'" o' B ds] state_value_cong [of "so_setBalance b o'" o' B ds ds]
  by (simp add: obj_abs_values so_setBalance_def)

lemma obj_abs_setNonce: "so_fake o' = None \<Longrightarrow> obj_abs B ds (so_setNonce n o') = (obj_abs B ds o')\<lparr>ao_nonce := n\<rparr>"
  using committed_value_cong [of "so_setNonce n o'" o' B ds] state_value_cong [of "so_setNonce n o'" o' B ds ds]
  by (simp add: obj_abs_values so_setNonce_def)

lemma obj_abs_setCode:
  "so_fake o' = None \<Longrightarrow> obj_abs B ds (so_setCode h c o') =
    (obj_abs B ds o')\<lparr>ao_codehash := h, ao_code := code_value B (so_addrHash o') c h\<rparr>"
  using committed_value_cong [of "so_setCode h c o'" o' B ds] state_value_cong [of "so_setCode h c o'" o' B ds ds]
  by (simp add: obj_abs_values so_setCode_def)

lemma obj_abs_setState:
  "so_fake o' = None \<Longrightarrow> obj_abs B ds (so_setState k v o') = (obj_abs B ds o')\<lparr>ao_state := (ao_state (obj_abs B ds o'))(k := v)\<rparr>"
proof -
  assume a: "so_fake o' = None"
  have c: "committed_value B ds (so_setState k v o') = committed_value B ds o'"
    by (rule committed_value_cong) (simp_all add: so_setState_def)
  have "state_value B ds (so_setState k v o') = (state_value B ds o')(k := v)"
  proof
    fix x
    show "state_value B ds (so_setState k v o') x = ((state_value B ds o')(k := v)) x"
      unfolding state_value_def c by (simp add: so_setState_def)
  qed
  with a c show ?thesis by (simp add: obj_abs_values so_setState_def)
qed

lemma obj_abs_suicided:
  "so_fake o' = None \<Longrightarrow> obj_abs B ds (o'\<lparr>so_suicided := b\<rparr>) = (obj_abs B ds o')\<lparr>ao_suicided := b\<rparr>"
  using committed_value_cong [of "o'\<lparr>so_suicided := b\<rparr>" o' B ds] state_value_cong [of "o'\<lparr>so_suicided := b\<rparr>" o' B ds ds]
  by (simp add: obj_abs_values)

lemmas obj_abs_set = obj_abs_setBalance obj_abs_setNonce obj_abs_setCode obj_abs_setState obj_abs_suicided

text \<open>Of the destructed accounts an object sees only its own entry.\<close>

lemma obj_abs_destructs:
  "so_fake o' = None \<Longrightarrow> so_addrHash o' \<in> ds \<longleftrightarrow> so_addrHash o' \<in> ds' \<Longrightarrow> obj_abs B ds o' = obj_abs B ds' o'"
proof -
  assume a: "so_fake o' = None" "so_addrHash o' \<in> ds \<longleftrightarrow> so_addrHash o' \<in> ds'"
  then have "committed_value B ds o' = committed_value B ds' o'" unfolding committed_value_def by (simp cong: option.case_cong)
  with a(1) state_value_cong [OF refl this] show ?thesis by (simp add: obj_abs_values)
qed

subsection \<open>Objects of the state\<close>

lemma backend_obj_wf:
  assumes "backend_ok B" "backend_obj B a = Some obj"
  shows "obj_wf B a obj" "\<not> so_deleted obj"
proof -
  have "length (acc_codehash (so_data obj)) = 32" using assms by (auto simp: backend_ok_def)
  then show "obj_wf B a obj" "\<not> so_deleted obj"
    using assms(2) by (auto simp: backend_obj_def object_of_def obj_wf_def newObject_def split: sum.splits option.splits)
qed

lemma live_obj_wf: "backend_ok B \<Longrightarrow> state_wf B s \<Longrightarrow> live_obj B s a = Some obj \<Longrightarrow> obj_wf B a obj"
  by (auto simp: live_obj_def state_wf_def split: option.splits dest: backend_obj_wf(1))

lemma abs_objs: "w_objs (state_abs B s) a = map_option (obj_abs B (snapDestructs s)) (live_obj B s a)"
  by (simp add: state_abs_def)

lemma abs_setStateObject:
  "state_abs B (setStateObject obj s) =
    (state_abs B s)\<lparr>w_objs := (w_objs (state_abs B s))(so_address obj \<mapsto> obj_abs B (snapDestructs s) obj)\<rparr>"
  by (auto simp: state_abs_def setStateObject_def live_obj_def fun_eq_iff)

lemma abs_append_entry [simp]: "state_abs B (append_entry e s) = state_abs B s"
  by (simp add: state_abs_def append_entry_def live_obj_def)

lemma abs_setError [simp]: "state_abs B (setError e s) = state_abs B s"
  by (simp add: state_abs_def setError_def live_obj_def)

lemma append_entry_fields [simp]:
  "stateObjects (append_entry e s) = stateObjects s" "snapDestructs (append_entry e s) = snapDestructs s"
  "validRevisions (append_entry e s) = validRevisions s" "nextRevisionId (append_entry e s) = nextRevisionId s"
  "j_entries (journal (append_entry e s)) = j_entries (journal s) @ [e]"
  "refund (append_entry e s) = refund s" "logs (append_entry e s) = logs s" "logSize (append_entry e s) = logSize s"
  "thash (append_entry e s) = thash s" "txIndex (append_entry e s) = txIndex s"
  "preimages (append_entry e s) = preimages s" "accessList (append_entry e s) = accessList s"
  by (simp_all add: append_entry_def journal_append_def journal_dirty_def Let_def split: option.splits)

lemma setStateObject_fields [simp]:
  "stateObjects (setStateObject obj s) = (stateObjects s)(so_address obj \<mapsto> obj)" "snapDestructs (setStateObject obj s) = snapDestructs s"
  "validRevisions (setStateObject obj s) = validRevisions s" "nextRevisionId (setStateObject obj s) = nextRevisionId s"
  "journal (setStateObject obj s) = journal s"
  by (simp_all add: setStateObject_def)

lemma wf_setStateObject: "state_wf B s \<Longrightarrow> obj_wf B (so_address obj) obj \<Longrightarrow> state_wf B (setStateObject obj s)"
  by (auto simp: state_wf_def)

lemma wf_append_entry: "state_wf B s \<Longrightarrow> entry_wf B e \<Longrightarrow> state_wf B (append_entry e s)"
  by (auto simp: state_wf_def)

text \<open>Replacing an object by one with the same observations.\<close>

lemma abs_setStateObject_same:
  assumes "live_obj B s (so_address obj) = Some obj0" "obj_abs B (snapDestructs s) obj = obj_abs B (snapDestructs s) obj0"
  shows "state_abs B (setStateObject obj s) = state_abs B s"
proof -
  have "w_objs (state_abs B s) (so_address obj) = Some (obj_abs B (snapDestructs s) obj)" using assms by (simp add: abs_objs)
  then show ?thesis unfolding abs_setStateObject by (simp add: fun_upd_idem)
qed

definition quiet :: "backend \<Rightarrow> stateDB \<Rightarrow> stateDB \<Rightarrow> bool" where
  "quiet B s s' \<longleftrightarrow> state_wf B s' \<and> state_abs B s' = state_abs B s \<and> journal s' = journal s \<and>
     validRevisions s' = validRevisions s \<and> nextRevisionId s' = nextRevisionId s"

lemma getDeleted_quiet:
  assumes "backend_ok B" "state_wf B s"
  obtains s' where "getDeletedStateObject B s a = (live_obj B s a, s')" "quiet B s s'" "stateObjects s' a = live_obj B s a"
proof -
  have q: "quiet B s s" "quiet B s (setError e s)" for e
    using assms(2) by (auto simp: quiet_def state_wf_def setError_def state_abs_def live_obj_def)
  show ?thesis
  proof (cases "stateObjects s a")
    case (Some obj)
    with that [of s] q show ?thesis by (simp add: getDeletedStateObject_def live_obj_def)
  next
    case None
    consider e where "read_account B a = Inl e" | "read_account B a = Inr None" | d where "read_account B a = Inr (Some d)"
      by (metis sum.exhaust option.exhaust)
    then show ?thesis
    proof cases
      case (1 e)
      with None that [of "setError e s"] q show ?thesis
        by (simp add: getDeletedStateObject_def live_obj_def backend_obj_def setError_def)
    next
      case 2
      with None that [of s] q show ?thesis by (simp add: getDeletedStateObject_def live_obj_def backend_obj_def)
    next
      case (3 d)
      then have b: "backend_obj B a = Some (object_of B a d)" by (simp add: backend_obj_def)
      then have l: "live_obj B s a = Some (object_of B a d)" using None by (simp add: live_obj_def)
      have a: "so_address (object_of B a d) = a" by (simp add: object_of_def newObject_def)
      have "quiet B s (setStateObject (object_of B a d) s)"
        unfolding quiet_def using backend_obj_wf(1) [OF assms(1) b] assms(2) a l
        by (simp add: wf_setStateObject abs_setStateObject_same)
      with that [of "setStateObject (object_of B a d) s"] 3 None l a show ?thesis
        by (simp add: getDeletedStateObject_def Let_def)
    qed
  qed
qed

lemma getStateObject_quiet:
  assumes "backend_ok B" "state_wf B s"
  obtains s' where "getStateObject B s a = (case live_obj B s a of Some obj \<Rightarrow> if so_deleted obj then None else Some obj | None \<Rightarrow> None, s')"
    "quiet B s s'" "stateObjects s' a = live_obj B s a"
proof -
  obtain s' where "getDeletedStateObject B s a = (live_obj B s a, s')" "quiet B s s'" "stateObjects s' a = live_obj B s a"
    by (rule getDeleted_quiet [OF assms])
  with that [of s'] show ?thesis by (simp add: getStateObject_def split: option.splits)
qed

end
