(* ===== verification/State_Snapshots.thy ===== *)
theory State_Snapshots
  imports State_Journal
begin

section \<open>Package core/state: snapshots as copies of the world\<close>

text \<open>
  The specification machine: a world, a stack of copies with their revision numbers, and the operations on worlds. The
  simulation relates the journalled state to it: undoing the journal entries above the index of a revision gives the
  copy of that revision. Undoing is first expressed on worlds (\<open>undo\<close>), then shown to be what the code does.
\<close>

subsection \<open>Undoing an entry, on worlds\<close>

definition w_obj :: "world \<Rightarrow> address \<Rightarrow> aobj option" where
  "w_obj w a = (case w_objs w a of Some ao \<Rightarrow> if ao_deleted ao then None else Some ao | None \<Rightarrow> None)"

definition w_set :: "address \<Rightarrow> aobj \<Rightarrow> world \<Rightarrow> world" where
  "w_set a ao w = w\<lparr>w_objs := (w_objs w)(a \<mapsto> ao)\<rparr>"

definition w_on :: "address \<Rightarrow> (aobj \<Rightarrow> aobj) \<Rightarrow> world \<Rightarrow> world option" where
  "w_on a f w = (case w_obj w a of Some ao \<Rightarrow> Some (w_set a (f ao) w) | None \<Rightarrow> None)"

fun undo :: "backend \<Rightarrow> journalEntry \<Rightarrow> world \<Rightarrow> world option" where
  "undo B (CreateObjectChange a) w =
     Some (w\<lparr>w_objs := (w_objs w)(a := map_option (obj_abs B (w_destructs w)) (backend_obj B a))\<rparr>)"
| "undo B (ResetObjectChange p d) w =
     (let ds = (if \<not> d \<and> snap B \<noteq> None then w_destructs w - {so_addrHash p} else w_destructs w) in
      Some (w_set (so_address p) (obj_abs B ds p) (w\<lparr>w_destructs := ds\<rparr>)))"
| "undo B (SuicideChange a prev bal) w =
     (case w_obj w a of
        Some ao \<Rightarrow> Some (w_set a (ao\<lparr>ao_suicided := prev, ao_balance := bal\<rparr>) w)
      | None \<Rightarrow> Some w)"
| "undo B (TouchChange a) w = Some w"
| "undo B (BalanceChange a prev) w = w_on a (\<lambda>ao. ao\<lparr>ao_balance := prev\<rparr>) w"
| "undo B (NonceChange a prev) w = w_on a (\<lambda>ao. ao\<lparr>ao_nonce := prev\<rparr>) w"
| "undo B (CodeChange a code h) w =
     w_on a (\<lambda>ao. ao\<lparr>ao_codehash := BytesToHash h, ao_code := code_value B (keccak B (addr_bytes a)) code (BytesToHash h)\<rparr>) w"
| "undo B (StorageChange a k v) w = w_on a (\<lambda>ao. ao\<lparr>ao_state := (ao_state ao)(k := v)\<rparr>) w"
| "undo B (RefundChange prev) w = Some (w\<lparr>w_refund := prev\<rparr>)"
| "undo B (AddLogChange h) w =
     (let ls = (case w_logs w h of Some l \<Rightarrow> l | None \<Rightarrow> []) in
      if length ls = 1 then Some (w\<lparr>w_logs := (w_logs w)(h := None), w_logSize := w_logSize w - 1\<rparr>)
      else if ls = [] then None
      else Some (w\<lparr>w_logs := (w_logs w)(h \<mapsto> take (length ls - 1) ls), w_logSize := w_logSize w - 1\<rparr>))"
| "undo B (AddPreimageChange h) w = Some (w\<lparr>w_preimages := (w_preimages w)(h := None)\<rparr>)"
| "undo B (AccessListAddAccountChange a) w = Some (w\<lparr>w_al := DeleteAddress (w_al w) a\<rparr>)"
| "undo B (AccessListAddSlotChange a slot) w = map_option (\<lambda>al. w\<lparr>w_al := al\<rparr>) (DeleteSlot (w_al w) a slot)"

fun undo_all :: "backend \<Rightarrow> journalEntry list \<Rightarrow> world \<Rightarrow> world option" where
  "undo_all B [] w = Some w"
| "undo_all B (e # es) w = (case undo B e w of None \<Rightarrow> None | Some w \<Rightarrow> undo_all B es w)"

lemma undo_all_append: "undo_all B (es @ es') w = (case undo_all B es w of None \<Rightarrow> None | Some w \<Rightarrow> undo_all B es' w)"
  by (induction es arbitrary: w) (auto split: option.splits)

lemma abs_fields [simp]:
  "w_destructs (state_abs B s) = snapDestructs s" "w_refund (state_abs B s) = refund s" "w_thash (state_abs B s) = thash s"
  "w_txIndex (state_abs B s) = txIndex s" "w_logs (state_abs B s) = logs s" "w_logSize (state_abs B s) = logSize s"
  "w_preimages (state_abs B s) = preimages s" "w_al (state_abs B s) = accessList s"
  by (simp_all add: state_abs_def)

lemma abs_destructs_upd [simp]: "(state_abs B s)\<lparr>w_destructs := snapDestructs s\<rparr> = state_abs B s"
  by (simp add: state_abs_def)

lemma w_obj_abs:
  "w_obj (state_abs B s) a =
    (case live_obj B s a of Some obj \<Rightarrow> if so_deleted obj then None else Some (obj_abs B (snapDestructs s) obj) | None \<Rightarrow> None)"
  by (simp add: w_obj_def abs_objs obj_abs_def split: option.splits)

lemma length_BytesToHash [simp]: "length (BytesToHash b) = 32"
  by (simp add: BytesToHash_def Let_def)

text \<open>The same journal entries, revisions and revision counter.\<close>

definition same_journal :: "stateDB \<Rightarrow> stateDB \<Rightarrow> bool" where
  "same_journal s s' \<longleftrightarrow> j_entries (journal s') = j_entries (journal s) \<and> validRevisions s' = validRevisions s \<and>
     nextRevisionId s' = nextRevisionId s"

lemma abs_w_set: "state_abs B (setStateObject obj s) = w_set (so_address obj) (obj_abs B (snapDestructs s) obj) (state_abs B s)"
  by (simp add: abs_setStateObject w_set_def)

lemma quiet_same_journal: "quiet B s s' \<Longrightarrow> same_journal s s'"
  by (simp add: quiet_def same_journal_def)

lemma quiet_destructs: "quiet B s s' \<Longrightarrow> snapDestructs s' = snapDestructs s"
  by (auto simp: quiet_def state_abs_def)

lemma w_obj_live:
  assumes "w_obj (state_abs B s) a = Some ao"
  obtains obj where "live_obj B s a = Some obj" "\<not> so_deleted obj" "ao = obj_abs B (snapDestructs s) obj"
  using assms unfolding w_obj_abs by (auto split: option.splits if_splits)

lemma getStateObject_live:
  assumes "backend_ok B" "state_wf B s" "live_obj B s a = Some obj" "\<not> so_deleted obj"
  obtains s' where "getStateObject B s a = (Some obj, s')" "quiet B s s'" "stateObjects s' a = Some obj"
  by (rule getStateObject_quiet [OF assms(1,2), of a]) (use assms(3,4) that in auto)

lemma on_obj_sim:
  assumes "backend_ok B" "state_wf B s" "w_on a f (state_abs B s) = Some w"
    "\<And>obj. obj_wf B a obj \<Longrightarrow> obj_wf B a (g obj) \<and> obj_abs B (snapDestructs s) (g obj) = f (obj_abs B (snapDestructs s) obj)"
  shows "\<exists>s'. on_obj B s a g = Some s' \<and> state_wf B s' \<and> state_abs B s' = w \<and> same_journal s s'"
proof -
  obtain ao where ao: "w_obj (state_abs B s) a = Some ao" "w = w_set a (f ao) (state_abs B s)"
    using assms(3) by (auto simp: w_on_def split: option.splits)
  obtain obj where obj: "live_obj B s a = Some obj" "\<not> so_deleted obj" "ao = obj_abs B (snapDestructs s) obj"
    by (rule w_obj_live [OF ao(1)])
  obtain s1 where s1: "getStateObject B s a = (Some obj, s1)" "quiet B s s1" by (rule getStateObject_live [OF assms(1,2) obj(1,2)])
  note g = assms(4) [OF live_obj_wf [OF assms(1,2) obj(1)]]
  then have "so_address (g obj) = a" by (auto simp: obj_wf_def)
  with g s1(2) quiet_destructs [OF s1(2)] obj(3) ao(2)
  have "state_wf B (setStateObject (g obj) s1)" "state_abs B (setStateObject (g obj) s1) = w" "same_journal s (setStateObject (g obj) s1)"
    by (auto simp: quiet_def abs_w_set same_journal_def intro: wf_setStateObject)
  with s1(1) show ?thesis by (simp add: on_obj_def)
qed

lemma obj_wf_set:
  assumes "obj_wf B a obj"
  shows "obj_wf B a (so_setBalance b obj)" "obj_wf B a (so_setNonce n obj)" "obj_wf B a (so_setState k v obj)"
    "obj_wf B a (obj\<lparr>so_suicided := x\<rparr>)" "length h = 32 \<Longrightarrow> obj_wf B a (so_setCode h c obj)"
  using assms by (simp_all add: obj_wf_def so_setBalance_def so_setNonce_def so_setState_def so_setCode_def)

lemma obj_wf_fake: "obj_wf B a obj \<Longrightarrow> so_fake obj = None"
  by (simp add: obj_wf_def)

lemma obj_wf_hash: "obj_wf B a obj \<Longrightarrow> so_addrHash obj = keccak B (addr_bytes a)"
  by (simp add: obj_wf_def)

text \<open>Destructed accounts: another account does not see the entry of this one.\<close>

lemma abs_destructs_other:
  assumes "backend_ok B" "state_wf B s" "b \<noteq> a" "ds - {keccak B (addr_bytes a)} = snapDestructs s - {keccak B (addr_bytes a)}"
  shows "map_option (obj_abs B ds) (live_obj B s b) = map_option (obj_abs B (snapDestructs s)) (live_obj B s b)"
proof (cases "live_obj B s b")
  case (Some obj)
  then have wf: "obj_wf B b obj" by (rule live_obj_wf [OF assms(1,2)])
  have "keccak B (addr_bytes a) \<noteq> keccak B (addr_bytes b)" using assms(1,3) by (auto simp: backend_ok_def inj_def)
  then have "so_addrHash obj \<noteq> keccak B (addr_bytes a)" using wf by (simp add: obj_wf_def)
  then have "so_addrHash obj \<in> ds \<longleftrightarrow> so_addrHash obj \<in> snapDestructs s" using assms(4) by blast
  with Some wf obj_abs_destructs [of obj ds "snapDestructs s" B] show ?thesis by (simp add: obj_wf_def)
qed simp

lemma abs_reset:
  assumes "backend_ok B" "state_wf B s" "obj_wf B a p" "ds - {keccak B (addr_bytes a)} = snapDestructs s - {keccak B (addr_bytes a)}"
  shows "state_abs B (setStateObject p (s\<lparr>snapDestructs := ds\<rparr>)) = w_set a (obj_abs B ds p) ((state_abs B s)\<lparr>w_destructs := ds\<rparr>)"
proof -
  have pa: "so_address p = a" using assms(3) by (simp add: obj_wf_def)
  have l: "live_obj B (s\<lparr>snapDestructs := ds\<rparr>) = live_obj B s" by (simp add: live_obj_def fun_eq_iff)
  have "w_objs (state_abs B (s\<lparr>snapDestructs := ds\<rparr>)) b = w_objs (state_abs B s) b" if "b \<noteq> a" for b
    using abs_destructs_other [OF assms(1,2) that assms(4)] by (simp add: abs_objs l)
  then have "(w_objs (state_abs B (s\<lparr>snapDestructs := ds\<rparr>)))(a \<mapsto> x) = (w_objs (state_abs B s))(a \<mapsto> x)" for x
    by (simp add: fun_eq_iff)
  then show ?thesis by (simp add: abs_w_set w_set_def pa)
qed

subsection \<open>The code undoes what the worlds undo\<close>

lemma revert_entry_sim:
  assumes ok: "backend_ok B" and wf: "state_wf B s" and e: "entry_wf B e" and u: "undo B e (state_abs B s) = Some w"
  shows "\<exists>s'. revert_entry B e s = Some s' \<and> state_wf B s' \<and> state_abs B s' = w \<and> same_journal s s'"
proof (cases e)
  case (CreateObjectChange a)
  let ?s = "s\<lparr>stateObjects := (stateObjects s)(a := None), stateObjectsDirty := stateObjectsDirty s - {a}\<rparr>"
  have "state_abs B ?s = w" using u by (auto simp: CreateObjectChange state_abs_def live_obj_def fun_eq_iff)
  moreover have "state_wf B ?s" using wf by (auto simp: state_wf_def)
  ultimately show ?thesis by (simp add: CreateObjectChange same_journal_def)
next
  case (ResetObjectChange p d)
  let ?ds = "if \<not> d \<and> snap B \<noteq> None then snapDestructs s - {so_addrHash p} else snapDestructs s"
  let ?s = "setStateObject p (s\<lparr>snapDestructs := ?ds\<rparr>)"
  have pw: "obj_wf B (so_address p) p" using e ResetObjectChange by simp
  then have "?ds - {keccak B (addr_bytes (so_address p))} = snapDestructs s - {keccak B (addr_bytes (so_address p))}"
    by (auto simp: obj_wf_def)
  from abs_reset [OF ok wf pw this] have "state_abs B ?s = w" using u by (simp add: ResetObjectChange Let_def cong: if_cong)
  moreover have "state_wf B ?s" using wf pw by (intro wf_setStateObject) (auto simp: state_wf_def)
  moreover have "revert_entry B e s = Some ?s" by (auto simp: ResetObjectChange setStateObject_def)
  ultimately show ?thesis by (simp add: same_journal_def)
next
  case (SuicideChange a prev bal)
  show ?thesis
  proof (cases "w_obj (state_abs B s) a")
    case None
    obtain s' where "getStateObject B s a = (None, s')" "quiet B s s'"
      by (rule getStateObject_quiet [OF ok wf, of a]) (use None in \<open>auto simp: w_obj_abs split: option.splits if_splits\<close>)
    with u None show ?thesis by (auto simp: SuicideChange quiet_def same_journal_def)
  next
    case (Some ao)
    let ?g = "\<lambda>obj. so_setBalance bal (obj\<lparr>so_suicided := prev\<rparr>)" and ?f = "\<lambda>ao. ao\<lparr>ao_suicided := prev, ao_balance := bal\<rparr>"
    have "w_on a ?f (state_abs B s) = Some w" using u Some by (simp add: SuicideChange w_on_def)
    then have "\<exists>s'. on_obj B s a ?g = Some s' \<and> state_wf B s' \<and> state_abs B s' = w \<and> same_journal s s'"
      by (rule on_obj_sim [OF ok wf]) (use obj_wf_fake in \<open>auto simp: obj_abs_set obj_wf_set\<close>)
    then show ?thesis by (auto simp: SuicideChange on_obj_def split: option.splits prod.splits)
  qed
next
  case (BalanceChange a prev)
  then show ?thesis using u on_obj_sim [OF ok wf, of a _ w "so_setBalance prev"] obj_wf_fake
    by (simp add: obj_abs_set obj_wf_set)
next
  case (NonceChange a prev)
  then show ?thesis using u on_obj_sim [OF ok wf, of a _ w "so_setNonce prev"] obj_wf_fake
    by (simp add: obj_abs_set obj_wf_set)
next
  case (CodeChange a c h)
  then show ?thesis using u on_obj_sim [OF ok wf, of a _ w "so_setCode (BytesToHash h) c"] obj_wf_fake obj_wf_hash
    by (simp add: obj_abs_set obj_wf_set)
next
  case (StorageChange a k v)
  then show ?thesis using u on_obj_sim [OF ok wf, of a _ w "so_setState k v"] obj_wf_fake
    by (simp add: obj_abs_set obj_wf_set)
next
  case (AddLogChange h)
  with u wf show ?thesis
    by (auto simp: Let_def state_abs_def live_obj_def state_wf_def same_journal_def split: if_splits)
next
  case (AccessListAddSlotChange a k)
  with u wf show ?thesis by (auto simp: state_abs_def live_obj_def state_wf_def same_journal_def)
qed (use u wf in \<open>auto simp: state_abs_def live_obj_def state_wf_def same_journal_def\<close>)

lemma undirty_fields [simp]:
  "j_entries (journal_undirty a j) = j_entries j"
  by (simp add: journal_undirty_def Let_def)

lemma revert_loop_sim:
  assumes "backend_ok B" "state_wf B s" "\<forall>e \<in> set es. entry_wf B e" "undo_all B es (state_abs B s) = Some w"
  shows "\<exists>s'. revert_loop B es s = Some s' \<and> state_wf B s' \<and> state_abs B s' = w \<and> same_journal s s'"
  using assms(2-)
proof (induction es arbitrary: s)
  case Nil
  then show ?case by (simp add: same_journal_def)
next
  case (Cons e es)
  obtain w1 where w1: "undo B e (state_abs B s) = Some w1" "undo_all B es w1 = Some w"
    using Cons.prems(3) by (auto split: option.splits)
  obtain s1 where s1: "revert_entry B e s = Some s1" "state_wf B s1" "state_abs B s1 = w1" "same_journal s s1"
    using revert_entry_sim [OF assms(1) Cons.prems(1) _ w1(1)] Cons.prems(2) by auto
  let ?s2 = "case dirtied e of Some addr \<Rightarrow> s1\<lparr>journal := journal_undirty addr (journal s1)\<rparr> | None \<Rightarrow> s1"
  have s2: "state_wf B ?s2" "state_abs B ?s2 = w1" "same_journal s ?s2"
    using s1 by (auto simp: state_wf_def state_abs_def live_obj_def same_journal_def split: option.splits)
  obtain s' where "revert_loop B es ?s2 = Some s'" "state_wf B s'" "state_abs B s' = w" "same_journal ?s2 s'"
    using Cons.IH [OF s2(1)] Cons.prems(2) w1(2) s2(2) by auto
  with s1(1) s2(3) show ?case by (auto simp: same_journal_def)
qed

subsection \<open>Every change is journalled\<close>

text \<open>\<open>steps B s s' es\<close>: the state \<open>s'\<close> has the additional entries \<open>es\<close>, and undoing them gives the world of \<open>s\<close>.\<close>

definition steps :: "backend \<Rightarrow> stateDB \<Rightarrow> stateDB \<Rightarrow> journalEntry list \<Rightarrow> bool" where
  "steps B s s' es \<longleftrightarrow> state_wf B s' \<and> j_entries (journal s') = j_entries (journal s) @ es \<and>
     undo_all B (rev es) (state_abs B s') = Some (state_abs B s) \<and>
     validRevisions s' = validRevisions s \<and> nextRevisionId s' = nextRevisionId s"

lemma steps_quiet: "quiet B s s' \<Longrightarrow> steps B s s' []"
  by (simp add: steps_def quiet_def)

lemma steps_trans: "steps B s s1 es \<Longrightarrow> steps B s1 s2 es' \<Longrightarrow> steps B s s2 (es @ es')"
  by (auto simp: steps_def undo_all_append)

lemma steps_wf: "steps B s s' es \<Longrightarrow> state_wf B s'"
  by (simp add: steps_def)

text \<open>A setter of an object: the entry that restores the old value, and the new object.\<close>

lemma steps_obj:
  assumes "state_wf B s" "stateObjects s a = Some obj" "\<not> so_deleted obj" "obj_wf B a obj'" "\<not> so_deleted obj'" "entry_wf B e"
    "\<And>w. w_obj w a = Some (obj_abs B (snapDestructs s) obj') \<Longrightarrow> undo B e w = Some (w_set a (obj_abs B (snapDestructs s) obj) w)"
  shows "(\<exists>es. steps B s (setStateObject obj' (append_entry e s)) es) \<and>
    state_abs B (setStateObject obj' (append_entry e s)) = w_set a (obj_abs B (snapDestructs s) obj') (state_abs B s)"
proof -
  have a: "so_address obj' = a" using assms(4) by (simp add: obj_wf_def)
  let ?w = "w_set a (obj_abs B (snapDestructs s) obj') (state_abs B s)"
  have abs: "state_abs B (setStateObject obj' (append_entry e s)) = ?w" by (simp add: abs_w_set a)
  have "w_obj ?w a = Some (obj_abs B (snapDestructs s) obj')" using assms(5) by (simp add: w_obj_def w_set_def obj_abs_def)
  from assms(7) [OF this] have "undo B e ?w = Some (w_set a (obj_abs B (snapDestructs s) obj) ?w)" .
  moreover have "w_objs (state_abs B s) a = Some (obj_abs B (snapDestructs s) obj)" using assms(2) by (simp add: abs_objs live_obj_def)
  then have "w_set a (obj_abs B (snapDestructs s) obj) ?w = state_abs B s" by (simp add: w_set_def fun_upd_idem)
  ultimately have "undo B e (state_abs B (setStateObject obj' (append_entry e s))) = Some (state_abs B s)" using abs by simp
  then have "steps B s (setStateObject obj' (append_entry e s)) [e]"
    using assms(1,4,6) a by (auto simp: steps_def intro!: wf_setStateObject wf_append_entry)
  with abs show ?thesis by blast
qed

subsection \<open>Creating objects\<close>

definition fresh_obj :: "backend \<Rightarrow> bytes set \<Rightarrow> address \<Rightarrow> aobj" where
  "fresh_obj B ds a = obj_abs B ds (newObject B a 0 None zeroHash None)"

definition w_create :: "backend \<Rightarrow> address \<Rightarrow> world \<Rightarrow> world" where
  "w_create B a w =
     (let ds = (if snap B \<noteq> None \<and> w_objs w a \<noteq> None then insert (keccak B (addr_bytes a)) (w_destructs w) else w_destructs w)
      in w_set a (fresh_obj B ds a) (w\<lparr>w_destructs := ds\<rparr>))"

definition w_getOrNew :: "backend \<Rightarrow> address \<Rightarrow> world \<Rightarrow> world" where
  "w_getOrNew B a w = (if w_obj w a = None then w_create B a w else w)"

lemma newObject_wf: "backend_ok B \<Longrightarrow> obj_wf B a (newObject B a 0 None zeroHash None)"
  by (simp add: obj_wf_def newObject_def emptyCodeHash_def backend_ok_def)

lemma newObject_fields [simp]:
  "so_address (newObject B a n b r c) = a" "\<not> so_deleted (newObject B a n b r c)" "so_fake (newObject B a n b r c) = None"
  by (simp_all add: newObject_def)

lemma undo_reset:
  "so_address p = a \<Longrightarrow> (if \<not> d \<and> snap B \<noteq> None then w_destructs w - {so_addrHash p} else w_destructs w) = ds \<Longrightarrow>
    undo B (ResetObjectChange p d) w = Some (w_set a (obj_abs B ds p) (w\<lparr>w_destructs := ds\<rparr>))"
  by (simp add: Let_def)

lemma createObject_steps:
  assumes ok: "backend_ok B" and wf: "state_wf B s"
  obtains s' es where
    "createObject B s a = (newObject B a 0 None zeroHash None,
       case live_obj B s a of Some p \<Rightarrow> if so_deleted p then None else Some p | None \<Rightarrow> None, s')"
    "steps B s s' es" "state_abs B s' = w_create B a (state_abs B s)" "stateObjects s' a = Some (newObject B a 0 None zeroHash None)"
    "\<And>x. undo_all B (rev es) (w_set a x (state_abs B s')) = Some (state_abs B s)"
proof -
  let ?new = "newObject B a 0 None zeroHash None"
  obtain s1 where s1: "getDeletedStateObject B s a = (live_obj B s a, s1)" "quiet B s s1" "stateObjects s1 a = live_obj B s a"
    by (rule getDeleted_quiet [OF ok wf])
  have wf1: "state_wf B s1" and abs1: "state_abs B s1 = state_abs B s" and ds1: "snapDestructs s1 = snapDestructs s"
    using s1(2) quiet_destructs [OF s1(2)] by (simp_all add: quiet_def)
  note nw = newObject_wf [OF ok, of a]
  have q: "steps B s s1 []" using s1(2) by (rule steps_quiet)
  show ?thesis
  proof (cases "live_obj B s a")
    case None
    let ?s = "setStateObject ?new (append_entry (CreateObjectChange a) s1)"
    have bn: "backend_obj B a = None" using None by (auto simp: live_obj_def split: option.splits)
    moreover have w: "w_objs (state_abs B s) a = None" using None by (simp add: abs_objs)
    ultimately have abs: "state_abs B ?s = w_create B a (state_abs B s)"
      and "undo B (CreateObjectChange a) (state_abs B ?s) = Some (state_abs B s1)"
      by (simp_all add: abs_w_set abs1 ds1 w_create_def fresh_obj_def w_set_def fun_upd_idem Let_def)
    then have "steps B s1 ?s [CreateObjectChange a]"
      using wf1 nw by (auto simp: steps_def intro!: wf_setStateObject wf_append_entry)
    moreover have "undo_all B (rev [CreateObjectChange a]) (w_set a x (state_abs B ?s)) = Some (state_abs B s)" for x
      unfolding abs using w bn by (simp add: w_create_def w_set_def fun_upd_idem Let_def)
    ultimately show ?thesis
      using steps_trans [OF q] abs None s1(1)
      by (intro that [of ?s "[CreateObjectChange a]"]) (fastforce simp: createObject_def Let_def)+
  next
    case (Some p)
    have pw: "obj_wf B a p" by (rule live_obj_wf [OF ok wf Some])
    then have ph: "so_addrHash p = keccak B (addr_bytes a)" "so_address p = a" by (simp_all add: obj_wf_def)
    let ?d = "snap B \<noteq> None \<and> keccak B (addr_bytes a) \<in> snapDestructs s1"
    let ?ds = "if snap B \<noteq> None then insert (keccak B (addr_bytes a)) (snapDestructs s1) else snapDestructs s1"
    let ?s2 = "s1\<lparr>snapDestructs := ?ds\<rparr>"
    let ?s = "setStateObject ?new (append_entry (ResetObjectChange p ?d) ?s2)"
    have "setStateObject ?new (append_entry (ResetObjectChange p ?d) ?s2) =
        append_entry (ResetObjectChange p ?d) (setStateObject ?new ?s2)"
      by (simp add: setStateObject_def append_entry_def)
    moreover have "state_abs B (setStateObject ?new ?s2) = w_set a (obj_abs B ?ds ?new) ((state_abs B s)\<lparr>w_destructs := ?ds\<rparr>)"
      using abs_reset [OF ok wf1 nw, of ?ds] abs1 by auto
    ultimately have abs: "state_abs B ?s = w_set a (obj_abs B ?ds ?new) ((state_abs B s)\<lparr>w_destructs := ?ds\<rparr>)" by simp
    have w: "w_objs (state_abs B s) a = Some (obj_abs B (snapDestructs s) p)" using Some by (simp add: abs_objs)
    have cr: "state_abs B ?s = w_create B a (state_abs B s)"
      unfolding abs using w by (simp add: w_create_def fresh_obj_def ds1 Let_def)
    have "(if \<not> ?d \<and> snap B \<noteq> None then w_destructs (state_abs B ?s) - {so_addrHash p} else w_destructs (state_abs B ?s)) = snapDestructs s"
      using ds1 ph by auto
    from undo_reset [OF ph(2) this] have "undo B (ResetObjectChange p ?d) (state_abs B ?s) = Some (state_abs B s1)"
      unfolding abs using w by (simp add: w_set_def abs1 fun_upd_idem)
    then have "steps B s1 ?s [ResetObjectChange p ?d]"
      using wf1 nw pw ph by (auto simp: steps_def state_wf_def)
    moreover have "undo_all B (rev [ResetObjectChange p ?d]) (w_set a x (state_abs B ?s)) = Some (state_abs B s)" for x
    proof -
      have "(if \<not> ?d \<and> snap B \<noteq> None then w_destructs (w_set a x (state_abs B ?s)) - {so_addrHash p}
          else w_destructs (w_set a x (state_abs B ?s))) = snapDestructs s"
        using ds1 ph by (auto simp: w_set_def)
      from undo_reset [OF ph(2) this] show ?thesis
        unfolding abs using w by (simp add: w_set_def fun_upd_idem del: undo.simps)
    qed
    ultimately show ?thesis
      using steps_trans [OF q] cr Some s1(1) ph
      by (intro that [of ?s "[ResetObjectChange p ?d]"]) (fastforce simp: createObject_def Let_def)+
  qed
qed

lemma w_obj_create: "w_obj (w_create B a w) a = Some (fresh_obj B (w_destructs (w_create B a w)) a)"
  by (simp add: w_obj_def w_create_def w_set_def fresh_obj_def obj_abs_def Let_def)

lemma GetOrNew_steps:
  assumes ok: "backend_ok B" and wf: "state_wf B s"
  obtains obj s' es where "GetOrNewStateObject B s a = (obj, s')" "steps B s s' es" "stateObjects s' a = Some obj"
    "\<not> so_deleted obj" "obj_wf B a obj" "state_abs B s' = w_getOrNew B a (state_abs B s)"
    "w_obj (state_abs B s') a = Some (obj_abs B (snapDestructs s') obj)"
proof -
  obtain s1 where s1: "getStateObject B s a = (case live_obj B s a of Some obj \<Rightarrow> if so_deleted obj then None else Some obj | None \<Rightarrow> None, s1)"
    "quiet B s s1" "stateObjects s1 a = live_obj B s a"
    by (rule getStateObject_quiet [OF ok wf])
  have q: "steps B s s1 []" "state_wf B s1" "state_abs B s1 = state_abs B s"
    using s1(2) steps_quiet by (auto simp only: quiet_def)
  show ?thesis
  proof (cases "w_obj (state_abs B s) a")
    case (Some ao)
    obtain obj where obj: "live_obj B s a = Some obj" "\<not> so_deleted obj" "ao = obj_abs B (snapDestructs s) obj"
      by (rule w_obj_live [OF Some])
    with s1 q Some show ?thesis
      by (intro that [of obj s1 "[]"])
        (simp_all add: GetOrNewStateObject_def w_getOrNew_def live_obj_wf [OF ok wf obj(1)] quiet_destructs [OF s1(2)])
  next
    case None
    then have g: "getStateObject B s a = (None, s1)" using s1(1) by (auto simp: w_obj_abs split: option.splits if_splits)
    obtain s' es prev where c: "createObject B s1 a = (newObject B a 0 None zeroHash None, prev, s')" "steps B s1 s' es"
      "state_abs B s' = w_create B a (state_abs B s1)" "stateObjects s' a = Some (newObject B a 0 None zeroHash None)"
      by (rule createObject_steps [OF ok q(2), of a]) blast
    have "w_obj (state_abs B s') a = Some (obj_abs B (snapDestructs s') (newObject B a 0 None zeroHash None))"
      using c(4) by (simp add: w_obj_abs live_obj_def)
    with c g q None steps_trans [OF q(1) c(2)] newObject_wf [OF ok, of a] show ?thesis
      by (intro that [of "newObject B a 0 None zeroHash None" s' es]) (simp_all add: GetOrNewStateObject_def w_getOrNew_def)
  qed
qed

text \<open>An operation on the object that is found or created.\<close>

definition w_upd :: "backend \<Rightarrow> address \<Rightarrow> (aobj \<Rightarrow> aobj) \<Rightarrow> world \<Rightarrow> world" where
  "w_upd B a f w =
     (let w = w_getOrNew B a w in case w_obj w a of Some ao \<Rightarrow> w_set a (f ao) w | None \<Rightarrow> w)"

lemma on_new_steps:
  assumes ok: "backend_ok B" and wf: "state_wf B s"
    and op: "\<And>obj s'. state_wf B s' \<Longrightarrow> stateObjects s' a = Some obj \<Longrightarrow> \<not> so_deleted obj \<Longrightarrow> obj_wf B a obj \<Longrightarrow>
      (\<exists>es. steps B s' (h obj s') es) \<and>
      state_abs B (h obj s') = w_set a (f (obj_abs B (snapDestructs s') obj)) (state_abs B s')"
  shows "(\<exists>es. steps B s (case GetOrNewStateObject B s a of (obj, s') \<Rightarrow> h obj s') es) \<and>
    state_abs B (case GetOrNewStateObject B s a of (obj, s') \<Rightarrow> h obj s') = w_upd B a f (state_abs B s)"
proof -
  obtain obj s1 es where o1: "GetOrNewStateObject B s a = (obj, s1)" "steps B s s1 es" "stateObjects s1 a = Some obj"
    "\<not> so_deleted obj" "obj_wf B a obj" "state_abs B s1 = w_getOrNew B a (state_abs B s)"
    "w_obj (state_abs B s1) a = Some (obj_abs B (snapDestructs s1) obj)"
    by (rule GetOrNew_steps [OF ok wf, of a])
  from op [OF steps_wf [OF o1(2)] o1(3-5)] obtain es' where "steps B s1 (h obj s1) es'"
    "state_abs B (h obj s1) = w_set a (f (obj_abs B (snapDestructs s1) obj)) (state_abs B s1)" by blast
  with steps_trans [OF o1(2) this(1)] o1 show ?thesis by (auto simp: w_upd_def Let_def)
qed

lemma quiet_refl: "state_wf B s \<Longrightarrow> quiet B s s"
  by (simp add: quiet_def)

lemma w_set_same: "stateObjects s a = Some obj \<Longrightarrow> w_set a (obj_abs B (snapDestructs s) obj) (state_abs B s) = state_abs B s"
  by (simp add: w_set_def fun_upd_idem abs_objs live_obj_def)

lemma undo_on:
  "w_obj w a = Some ao \<Longrightarrow> undo B (BalanceChange a b) w = Some (w_set a (ao\<lparr>ao_balance := b\<rparr>) w)"
  "w_obj w a = Some ao \<Longrightarrow> undo B (NonceChange a n) w = Some (w_set a (ao\<lparr>ao_nonce := n\<rparr>) w)"
  "w_obj w a = Some ao \<Longrightarrow> undo B (StorageChange a k v) w = Some (w_set a (ao\<lparr>ao_state := (ao_state ao)(k := v)\<rparr>) w)"
  "w_obj w a = Some ao \<Longrightarrow> undo B (CodeChange a c h) w =
     Some (w_set a (ao\<lparr>ao_codehash := BytesToHash h, ao_code := code_value B (keccak B (addr_bytes a)) c (BytesToHash h)\<rparr>) w)"
  "w_obj w a = Some ao \<Longrightarrow> undo B (SuicideChange a x b) w = Some (w_set a (ao\<lparr>ao_suicided := x, ao_balance := b\<rparr>) w)"
  by (simp_all add: w_on_def)

lemma obj_abs_restore:
  "(obj_abs B ds obj)\<lparr>ao_balance := acc_balance (so_data obj)\<rparr> = obj_abs B ds obj"
  "(obj_abs B ds obj)\<lparr>ao_nonce := acc_nonce (so_data obj)\<rparr> = obj_abs B ds obj"
  "(obj_abs B ds obj)\<lparr>ao_suicided := so_suicided obj, ao_balance := acc_balance (so_data obj)\<rparr> = obj_abs B ds obj"
  "(obj_abs B ds obj)\<lparr>ao_codehash := acc_codehash (so_data obj), ao_code := fst (so_Code B obj)\<rparr> = obj_abs B ds obj"
  "(obj_abs B ds obj)\<lparr>ao_state := (ao_state (obj_abs B ds obj))(k := fst (so_GetState B ds obj k))\<rparr> = obj_abs B ds obj"
  by (simp_all add: obj_abs_def fun_upd_idem)

lemma SetBalance_steps:
  assumes "state_wf B s" "stateObjects s a = Some obj" "\<not> so_deleted obj" "obj_wf B a obj"
  shows "(\<exists>es. steps B s (so_SetBalance obj b s) es) \<and>
    state_abs B (so_SetBalance obj b s) = w_set a ((obj_abs B (snapDestructs s) obj)\<lparr>ao_balance := b\<rparr>) (state_abs B s)"
proof -
  have a: "so_address obj = a" "so_fake obj = None" using assms(4) by (simp_all add: obj_wf_def)
  have "(\<exists>es. steps B s (so_SetBalance obj b s) es) \<and>
    state_abs B (so_SetBalance obj b s) = w_set a (obj_abs B (snapDestructs s) (so_setBalance b obj)) (state_abs B s)"
    unfolding so_SetBalance_def a using assms
    by (intro steps_obj) (simp_all add: obj_wf_set undo_on obj_abs_set obj_abs_restore a del: undo.simps, simp add: so_setBalance_def)
  then show ?thesis by (simp add: obj_abs_set a)
qed

lemma SetNonce_steps:
  assumes "state_wf B s" "stateObjects s a = Some obj" "\<not> so_deleted obj" "obj_wf B a obj"
  shows "(\<exists>es. steps B s (so_SetNonce obj n s) es) \<and>
    state_abs B (so_SetNonce obj n s) = w_set a ((obj_abs B (snapDestructs s) obj)\<lparr>ao_nonce := n\<rparr>) (state_abs B s)"
proof -
  have a: "so_address obj = a" "so_fake obj = None" using assms(4) by (simp_all add: obj_wf_def)
  have "(\<exists>es. steps B s (so_SetNonce obj n s) es) \<and>
    state_abs B (so_SetNonce obj n s) = w_set a (obj_abs B (snapDestructs s) (so_setNonce n obj)) (state_abs B s)"
    unfolding so_SetNonce_def a using assms
    by (intro steps_obj) (simp_all add: obj_wf_set undo_on obj_abs_set obj_abs_restore a del: undo.simps, simp add: so_setNonce_def)
  then show ?thesis by (simp add: obj_abs_set a)
qed

lemma steps_same_abs:
  assumes "state_wf B s" "state_wf B s'" "state_abs B s' = state_abs B s" "j_entries (journal s') = j_entries (journal s) @ es"
    "\<forall>e \<in> set es. \<exists>a. e = TouchChange a" "validRevisions s' = validRevisions s" "nextRevisionId s' = nextRevisionId s"
  shows "steps B s s' es"
proof -
  have "undo_all B (rev es) w = Some w" for w using assms(5) by (induction es arbitrary: w rule: rev_induct) auto
  with assms show ?thesis by (simp add: steps_def)
qed

lemma touch_steps:
  assumes "state_wf B s"
  shows "steps B s (so_touch obj s) [TouchChange (so_address obj)]" "state_abs B (so_touch obj s) = state_abs B s"
proof -
  have "state_abs B (s'\<lparr>journal := j\<rparr>) = state_abs B s'" for s' j by (simp add: state_abs_def live_obj_def)
  then show abs: "state_abs B (so_touch obj s) = state_abs B s" by (simp add: so_touch_def Let_def)
  show "steps B s (so_touch obj s) [TouchChange (so_address obj)]"
    using assms abs by (intro steps_same_abs) (auto simp: so_touch_def Let_def state_wf_def journal_dirty_def)
qed

lemma AddBalance_obj_steps:
  assumes "state_wf B s" "stateObjects s a = Some obj" "\<not> so_deleted obj" "obj_wf B a obj"
  shows "(\<exists>es. steps B s (so_AddBalance B obj x s) es) \<and> state_abs B (so_AddBalance B obj x s) =
    w_set a ((\<lambda>ao. ao\<lparr>ao_balance := ao_balance ao + x\<rparr>) (obj_abs B (snapDestructs s) obj)) (state_abs B s)"
proof (cases "x = 0")
  case True
  have "(obj_abs B (snapDestructs s) obj)\<lparr>ao_balance := ao_balance (obj_abs B (snapDestructs s) obj)\<rparr> = obj_abs B (snapDestructs s) obj"
    by simp
  with True touch_steps [OF assms(1), of obj] steps_quiet [OF quiet_refl [OF assms(1)]] w_set_same [OF assms(2), of B]
  show ?thesis by (auto simp: so_AddBalance_def)
next
  case False
  have "ao_balance (obj_abs B (snapDestructs s) obj) = acc_balance (so_data obj)" by (simp add: obj_abs_def)
  with False SetBalance_steps [OF assms] show ?thesis by (simp add: so_AddBalance_def)
qed

lemma SubBalance_obj_steps:
  assumes "state_wf B s" "stateObjects s a = Some obj" "\<not> so_deleted obj" "obj_wf B a obj"
  shows "(\<exists>es. steps B s (so_SubBalance obj x s) es) \<and> state_abs B (so_SubBalance obj x s) =
    w_set a ((\<lambda>ao. ao\<lparr>ao_balance := ao_balance ao - x\<rparr>) (obj_abs B (snapDestructs s) obj)) (state_abs B s)"
proof (cases "x = 0")
  case True
  have "(obj_abs B (snapDestructs s) obj)\<lparr>ao_balance := ao_balance (obj_abs B (snapDestructs s) obj)\<rparr> = obj_abs B (snapDestructs s) obj"
    by simp
  with True steps_quiet [OF quiet_refl [OF assms(1)]] w_set_same [OF assms(2), of B]
  show ?thesis by (auto simp: so_SubBalance_def)
next
  case False
  have "ao_balance (obj_abs B (snapDestructs s) obj) = acc_balance (so_data obj)" by (simp add: obj_abs_def)
  with False SetBalance_steps [OF assms] show ?thesis by (simp add: so_SubBalance_def)
qed

lemma BytesToHash_id: "length h = 32 \<Longrightarrow> BytesToHash h = h"
  by (simp add: BytesToHash_def)

lemma SetCode_obj_steps:
  assumes "state_wf B s" "stateObjects s a = Some obj" "\<not> so_deleted obj" "obj_wf B a obj" "length h = 32"
  shows "(\<exists>es. steps B s (so_SetCode B obj h c s) es) \<and> state_abs B (so_SetCode B obj h c s) =
    w_set a ((obj_abs B (snapDestructs s) obj)\<lparr>ao_codehash := h, ao_code := code_value B (keccak B (addr_bytes a)) c h\<rparr>) (state_abs B s)"
proof -
  have a: "so_address obj = a" "so_fake obj = None" "length (acc_codehash (so_data obj)) = 32" "so_addrHash obj = keccak B (addr_bytes a)"
    using assms(4) by (simp_all add: obj_wf_def)
  let ?o = "snd (so_Code B obj)"
  have eq: "so_SetCode B obj h c s =
      setStateObject (so_setCode h c ?o) (append_entry (CodeChange a (fst (so_Code B obj)) (acc_codehash (so_data obj))) s)"
    by (simp add: so_SetCode_def case_prod_beta a)
  have wo: "obj_wf B a (so_setCode h c ?o)" using a assms(5) by (simp add: obj_wf_def so_setCode_def)
  have del: "\<not> so_deleted (so_setCode h c ?o)" using assms(3) by (simp add: so_setCode_def)
  have ab: "obj_abs B (snapDestructs s) (so_setCode h c ?o) =
      (obj_abs B (snapDestructs s) obj)\<lparr>ao_codehash := h, ao_code := code_value B (keccak B (addr_bytes a)) c h\<rparr>"
    using a by (simp add: obj_abs_set obj_abs_Code)
  have cv: "code_value B (keccak B (addr_bytes a)) (fst (so_Code B obj)) (acc_codehash (so_data obj)) = fst (so_Code B obj)"
    using a by (simp add: Code_fst)
  have "(\<exists>es. steps B s (so_SetCode B obj h c s) es) \<and>
    state_abs B (so_SetCode B obj h c s) = w_set a (obj_abs B (snapDestructs s) (so_setCode h c ?o)) (state_abs B s)"
    unfolding eq
  proof (rule steps_obj [OF assms(1-3) wo del])
    fix w assume "w_obj w a = Some (obj_abs B (snapDestructs s) (so_setCode h c ?o))"
    from undo_on(4) [OF this, of B "fst (so_Code B obj)" "acc_codehash (so_data obj)"]
    show "undo B (CodeChange a (fst (so_Code B obj)) (acc_codehash (so_data obj))) w = Some (w_set a (obj_abs B (snapDestructs s) obj) w)"
      unfolding ab by (simp add: BytesToHash_id [OF a(3)] cv obj_abs_restore del: undo.simps)
  qed simp
  then show ?thesis by (simp add: ab)
qed

lemma SetState_obj_steps:
  assumes "state_wf B s" "stateObjects s a = Some obj" "\<not> so_deleted obj" "obj_wf B a obj"
  shows "(\<exists>es. steps B s (so_SetState B obj k v s) es) \<and> state_abs B (so_SetState B obj k v s) =
    w_set a ((\<lambda>ao. ao\<lparr>ao_state := (ao_state ao)(k := v)\<rparr>) (obj_abs B (snapDestructs s) obj)) (state_abs B s)"
proof -
  have a: "so_address obj = a" "so_fake obj = None" using assms(4) by (simp_all add: obj_wf_def)
  let ?A = "obj_abs B (snapDestructs s) obj" and ?o = "snd (so_GetState B (snapDestructs s) obj k)"
  have f: "so_address ?o = a" "so_fake ?o = None" "obj_wf B a ?o" "\<not> so_deleted ?o"
    using assms(3,4) a by (simp_all add: GetState_snd obj_wf_def)
  have abo: "obj_abs B (snapDestructs s) ?o = ?A" by (rule obj_abs_GetState [OF a(2)])
  show ?thesis
  proof (cases "fst (so_GetState B (snapDestructs s) obj k) = v")
    case True
    have eq: "so_SetState B obj k v s = setStateObject ?o s" using True a by (simp add: so_SetState_def case_prod_beta)
    have "state_abs B (setStateObject ?o s) = state_abs B s"
      using assms(2) f(1) abo by (intro abs_setStateObject_same [of _ _ _ obj]) (simp_all add: live_obj_def)
    moreover have "state_wf B (setStateObject ?o s)" using assms(1) f by (intro wf_setStateObject) simp_all
    ultimately have "steps B s (setStateObject ?o s) []" by (intro steps_quiet) (simp add: quiet_def)
    moreover have "?A\<lparr>ao_state := (ao_state ?A)(k := v)\<rparr> = ?A" using obj_abs_restore(5) [of B "snapDestructs s" obj k] True by simp
    ultimately show ?thesis
      using eq \<open>state_abs B (setStateObject ?o s) = state_abs B s\<close> w_set_same [OF assms(2), of B] by auto
  next
    case False
    have eq: "so_SetState B obj k v s =
        setStateObject (so_setState k v ?o) (append_entry (StorageChange a k (fst (so_GetState B (snapDestructs s) obj k))) s)"
      using False a f(1) by (simp add: so_SetState_def case_prod_beta)
    have ab: "obj_abs B (snapDestructs s) (so_setState k v ?o) = ?A\<lparr>ao_state := (ao_state ?A)(k := v)\<rparr>"
      using f by (simp add: obj_abs_set abo)
    have "(\<exists>es. steps B s (so_SetState B obj k v s) es) \<and>
      state_abs B (so_SetState B obj k v s) = w_set a (obj_abs B (snapDestructs s) (so_setState k v ?o)) (state_abs B s)"
      unfolding eq
    proof (rule steps_obj [OF assms(1-3)])
      fix w assume "w_obj w a = Some (obj_abs B (snapDestructs s) (so_setState k v ?o))"
      from undo_on(3) [OF this, of B k "fst (so_GetState B (snapDestructs s) obj k)"]
      show "undo B (StorageChange a k (fst (so_GetState B (snapDestructs s) obj k))) w = Some (w_set a ?A w)"
        unfolding ab by (simp add: obj_abs_restore del: undo.simps)
    qed (use f in \<open>simp_all add: obj_wf_set\<close>, simp add: so_setState_def)
    then show ?thesis by (simp add: ab)
  qed
qed

lemma Suicide_steps:
  assumes ok: "backend_ok B" and wf: "state_wf B s"
  shows "(\<exists>es. steps B s (snd (Suicide B s a)) es) \<and> fst (Suicide B s a) = (w_obj (state_abs B s) a \<noteq> None) \<and>
    state_abs B (snd (Suicide B s a)) =
      (case w_obj (state_abs B s) a of
         Some ao \<Rightarrow> w_set a (ao\<lparr>ao_suicided := True, ao_balance := 0\<rparr>) (state_abs B s) | None \<Rightarrow> state_abs B s)"
proof (cases "w_obj (state_abs B s) a")
  case None
  obtain s' where "getStateObject B s a = (None, s')" "quiet B s s'"
    by (rule getStateObject_quiet [OF ok wf, of a]) (use None in \<open>auto simp: w_obj_abs split: option.splits if_splits\<close>)
  moreover from this have "state_abs B s' = state_abs B s" by (simp add: quiet_def)
  ultimately show ?thesis using None steps_quiet by (auto simp: Suicide_def)
next
  case (Some ao)
  obtain obj where obj: "live_obj B s a = Some obj" "\<not> so_deleted obj" "ao = obj_abs B (snapDestructs s) obj"
    by (rule w_obj_live [OF Some])
  obtain s1 where s1: "getStateObject B s a = (Some obj, s1)" "quiet B s s1" "stateObjects s1 a = Some obj"
    by (rule getStateObject_live [OF ok wf obj(1,2)])
  have wf1: "state_wf B s1" and abs1: "state_abs B s1 = state_abs B s" and ds1: "snapDestructs s1 = snapDestructs s"
    using s1(2) quiet_destructs [OF s1(2)] by (simp_all add: quiet_def)
  have ow: "obj_wf B a obj" by (rule live_obj_wf [OF ok wf obj(1)])
  then have fa: "so_fake obj = None" by (rule obj_wf_fake)
  let ?o = "so_setBalance 0 (obj\<lparr>so_suicided := True\<rparr>)" and ?e = "SuicideChange a (so_suicided obj) (acc_balance (so_data obj))"
  have ab: "obj_abs B ds ?o = (obj_abs B ds obj)\<lparr>ao_suicided := True, ao_balance := 0\<rparr>" for ds
    using fa by (simp add: obj_abs_set)
  have st: "(\<exists>es. steps B s1 (setStateObject ?o (append_entry ?e s1)) es) \<and>
    state_abs B (setStateObject ?o (append_entry ?e s1)) = w_set a (obj_abs B (snapDestructs s1) ?o) (state_abs B s1)"
  proof (rule steps_obj [OF wf1 s1(3) obj(2)])
    fix w assume "w_obj w a = Some (obj_abs B (snapDestructs s1) ?o)"
    from undo_on(5) [OF this, of B "so_suicided obj" "acc_balance (so_data obj)"]
    show "undo B ?e w = Some (w_set a (obj_abs B (snapDestructs s1) obj) w)"
      unfolding ab by (simp add: obj_abs_restore del: undo.simps)
  qed (use ow obj(2) in \<open>simp_all add: obj_wf_set\<close>, simp add: so_setBalance_def)
  then obtain es where "steps B s1 (setStateObject ?o (append_entry ?e s1)) es" by blast
  from steps_trans [OF steps_quiet [OF s1(2)] this]
  have "\<exists>es. steps B s (snd (Suicide B s a)) es" using s1(1) by (auto simp: Suicide_def Let_def)
  with st s1(1) Some obj(3) ds1 abs1 show ?thesis by (simp add: Suicide_def Let_def ab)
qed

lemma CreateAccount_steps:
  assumes ok: "backend_ok B" and wf: "state_wf B s"
  shows "(\<exists>es. steps B s (CreateAccount B s a) es) \<and> state_abs B (CreateAccount B s a) =
    (let w = w_create B a (state_abs B s) in
     case (w_obj (state_abs B s) a, w_obj w a) of
       (Some p, Some ao) \<Rightarrow> w_set a (ao\<lparr>ao_balance := ao_balance p\<rparr>) w | _ \<Rightarrow> w)"
proof -
  let ?new = "newObject B a 0 None zeroHash None"
  obtain s' es where c: "createObject B s a = (?new, case live_obj B s a of Some p \<Rightarrow> if so_deleted p then None else Some p | None \<Rightarrow> None, s')"
    "steps B s s' es" "state_abs B s' = w_create B a (state_abs B s)" "stateObjects s' a = Some ?new"
    "\<And>x. undo_all B (rev es) (w_set a x (state_abs B s')) = Some (state_abs B s)"
    by (rule createObject_steps [OF ok wf, of a]) blast
  show ?thesis
  proof (cases "w_obj (state_abs B s) a")
    case None
    then have "createObject B s a = (?new, None, s')" using c(1) by (auto simp: w_obj_abs split: option.splits if_splits)
    with None c show ?thesis by (auto simp: CreateAccount_def Let_def)
  next
    case (Some p)
    obtain obj where obj: "live_obj B s a = Some obj" "\<not> so_deleted obj" "p = obj_abs B (snapDestructs s) obj"
      by (rule w_obj_live [OF Some])
    let ?n = "so_setBalance (acc_balance (so_data obj)) ?new"
    have eq: "CreateAccount B s a = setStateObject ?n s'" using c(1) obj by (simp add: CreateAccount_def)
    have n: "so_address ?n = a" "obj_wf B a ?n" using newObject_wf [OF ok, of a] by (simp_all add: obj_wf_set) (simp add: so_setBalance_def)
    have abs: "state_abs B (CreateAccount B s a) = w_set a (obj_abs B (snapDestructs s') ?n) (state_abs B s')"
      unfolding eq by (simp add: abs_w_set n)
    have "steps B s (CreateAccount B s a) es"
      using c(2) c(5) [of "obj_abs B (snapDestructs s') ?n"] abs n unfolding steps_def eq
      by (auto intro: wf_setStateObject)
    moreover have "w_obj (state_abs B s') a = Some (obj_abs B (snapDestructs s') ?new)"
      using c(4) by (simp add: w_obj_abs live_obj_def)
    moreover have "obj_abs B (snapDestructs s') ?n = (obj_abs B (snapDestructs s') ?new)\<lparr>ao_balance := ao_balance p\<rparr>"
      by (simp add: obj_abs_set) (simp add: obj(3) obj_abs_def)
    ultimately show ?thesis using abs Some c(3) by (auto simp: Let_def)
  qed
qed

end
