(* ===== verification/State_Refinement.thy ===== *)
theory State_Refinement
  imports State_Snapshots
begin

section \<open>Package core/state: the journalled state refines the machine of copies\<close>

text \<open>
  The operations of \<^verbatim>\<open>StateDB\<close> as a datatype, their run on the journalled state and their specification on worlds with
  copies, and the simulation between the two. The debugging operation \<^verbatim>\<open>SetStorage\<close>, which is not journalled, is left
  out; \<^verbatim>\<open>Prepare\<close> and \<^verbatim>\<open>Finalise\<close> separate transactions and are treated below.
\<close>

datatype state_op =
    OpAddBalance address int | OpSubBalance address int | OpSetBalance address int | OpSetNonce address uint64
  | OpSetCode address "bytes option" | OpSetState address bytes bytes | OpSuicide address | OpCreateAccount address
  | OpAddLog log_entry | OpAddPreimage bytes bytes | OpAddRefund uint64 | OpSubRefund uint64
  | OpAddAddress address | OpAddSlot address bytes
  | OpExist address | OpEmpty address | OpGetBalance address | OpGetNonce address | OpGetCode address | OpGetCodeHash address
  | OpGetState address bytes | OpGetCommittedState address bytes | OpHasSuicided address | OpGetRefund
  | OpAddressInAccessList address | OpSlotInAccessList address bytes
  | OpSnapshot | OpRevert nat

datatype state_out =
    OutUnit | OutBool bool | OutInt int | OutUint uint64 | OutCode "bytes option" | OutHash bytes | OutBools bool bool | OutId nat

definition out :: "('a \<Rightarrow> state_out) \<Rightarrow> 'a \<times> stateDB \<Rightarrow> (state_out \<times> stateDB) option" where
  "out c r = Some (c (fst r), snd r)"

fun run_op :: "backend \<Rightarrow> state_op \<Rightarrow> stateDB \<Rightarrow> (state_out \<times> stateDB) option" where
  "run_op B (OpAddBalance a x) s = Some (OutUnit, AddBalance B s a x)"
| "run_op B (OpSubBalance a x) s = Some (OutUnit, SubBalance B s a x)"
| "run_op B (OpSetBalance a x) s = Some (OutUnit, SetBalance B s a x)"
| "run_op B (OpSetNonce a n) s = Some (OutUnit, SetNonce B s a n)"
| "run_op B (OpSetCode a c) s = Some (OutUnit, SetCode B s a c)"
| "run_op B (OpSetState a k v) s = Some (OutUnit, SetState B s a k v)"
| "run_op B (OpSuicide a) s = out OutBool (Suicide B s a)"
| "run_op B (OpCreateAccount a) s = Some (OutUnit, CreateAccount B s a)"
| "run_op B (OpAddLog l) s = Some (OutUnit, AddLog s l)"
| "run_op B (OpAddPreimage h p) s = Some (OutUnit, AddPreimage s h p)"
| "run_op B (OpAddRefund g) s = Some (OutUnit, AddRefund s g)"
| "run_op B (OpSubRefund g) s = map_option (Pair OutUnit) (SubRefund s g)"
| "run_op B (OpAddAddress a) s = Some (OutUnit, AddAddressToAccessList s a)"
| "run_op B (OpAddSlot a k) s = map_option (Pair OutUnit) (AddSlotToAccessList s a k)"
| "run_op B (OpExist a) s = out OutBool (Exist B s a)"
| "run_op B (OpEmpty a) s = out OutBool (Empty B s a)"
| "run_op B (OpGetBalance a) s = out OutInt (GetBalance B s a)"
| "run_op B (OpGetNonce a) s = out OutUint (GetNonce B s a)"
| "run_op B (OpGetCode a) s = out OutCode (GetCode B s a)"
| "run_op B (OpGetCodeHash a) s = out OutHash (GetCodeHash B s a)"
| "run_op B (OpGetState a k) s = out OutHash (GetState B s a k)"
| "run_op B (OpGetCommittedState a k) s = out OutHash (GetCommittedState B s a k)"
| "run_op B (OpHasSuicided a) s = out OutBool (HasSuicided B s a)"
| "run_op B OpGetRefund s = Some (OutUint (refund s), s)"
| "run_op B (OpAddressInAccessList a) s = Some (OutBool (ContainsAddress (accessList s) a), s)"
| "run_op B (OpSlotInAccessList a k) s = map_option (\<lambda>(x, y). (OutBools x y, s)) (Contains (accessList s) a k)"
| "run_op B OpSnapshot s = (let (i, s) = Snapshot s in Some (OutId i, s))"
| "run_op B (OpRevert i) s = map_option (Pair OutUnit) (RevertToSnapshot B s i)"

subsection \<open>The specification\<close>

definition w_read :: "'a \<Rightarrow> (aobj \<Rightarrow> 'a) \<Rightarrow> address \<Rightarrow> world \<Rightarrow> 'a" where
  "w_read d f a w = (case w_obj w a of Some ao \<Rightarrow> f ao | None \<Rightarrow> d)"

text \<open>Operations that do not concern revisions: the result and the new world, or \<open>None\<close> for a panic.\<close>

fun world_op :: "backend \<Rightarrow> state_op \<Rightarrow> world \<Rightarrow> (state_out \<times> world) option" where
  "world_op B (OpAddBalance a x) w = Some (OutUnit, w_upd B a (\<lambda>ao. ao\<lparr>ao_balance := ao_balance ao + x\<rparr>) w)"
| "world_op B (OpSubBalance a x) w = Some (OutUnit, w_upd B a (\<lambda>ao. ao\<lparr>ao_balance := ao_balance ao - x\<rparr>) w)"
| "world_op B (OpSetBalance a x) w = Some (OutUnit, w_upd B a (\<lambda>ao. ao\<lparr>ao_balance := x\<rparr>) w)"
| "world_op B (OpSetNonce a n) w = Some (OutUnit, w_upd B a (\<lambda>ao. ao\<lparr>ao_nonce := n\<rparr>) w)"
| "world_op B (OpSetCode a c) w =
     Some (OutUnit, w_upd B a (\<lambda>ao. ao\<lparr>ao_codehash := keccak B (case c of Some b \<Rightarrow> b | None \<Rightarrow> []), ao_code := c\<rparr>) w)"
| "world_op B (OpSetState a k v) w = Some (OutUnit, w_upd B a (\<lambda>ao. ao\<lparr>ao_state := (ao_state ao)(k := v)\<rparr>) w)"
| "world_op B (OpSuicide a) w =
     (case w_obj w a of
        Some ao \<Rightarrow> Some (OutBool True, w_set a (ao\<lparr>ao_suicided := True, ao_balance := 0\<rparr>) w)
      | None \<Rightarrow> Some (OutBool False, w))"
| "world_op B (OpCreateAccount a) w =
     Some (OutUnit,
       let w' = w_create B a w in
       case (w_obj w a, w_obj w' a) of (Some p, Some ao) \<Rightarrow> w_set a (ao\<lparr>ao_balance := ao_balance p\<rparr>) w' | _ \<Rightarrow> w')"
| "world_op B (OpAddLog l) w =
     Some (OutUnit, w\<lparr>w_logs := (w_logs w)(w_thash w \<mapsto> (case w_logs w (w_thash w) of Some ls \<Rightarrow> ls | None \<Rightarrow> []) @
       [l\<lparr>lg_txHash := w_thash w, lg_txIndex := w_txIndex w, lg_index := w_logSize w\<rparr>]), w_logSize := w_logSize w + 1\<rparr>)"
| "world_op B (OpAddPreimage h p) w =
     Some (OutUnit, if w_preimages w h = None then w\<lparr>w_preimages := (w_preimages w)(h \<mapsto> p)\<rparr> else w)"
| "world_op B (OpAddRefund g) w = Some (OutUnit, w\<lparr>w_refund := w_refund w + g\<rparr>)"
| "world_op B (OpSubRefund g) w = (if g > w_refund w then None else Some (OutUnit, w\<lparr>w_refund := w_refund w - g\<rparr>))"
| "world_op B (OpAddAddress a) w = Some (OutUnit, w\<lparr>w_al := snd (AddAddress (w_al w) a)\<rparr>)"
| "world_op B (OpAddSlot a k) w = map_option (\<lambda>(_, al). (OutUnit, w\<lparr>w_al := al\<rparr>)) (AddSlot (w_al w) a k)"
| "world_op B (OpExist a) w = Some (OutBool (w_obj w a \<noteq> None), w)"
| "world_op B (OpEmpty a) w =
     Some (OutBool (w_read True (\<lambda>ao. ao_nonce ao = 0 \<and> ao_balance ao = 0 \<and> ao_codehash ao = emptyCodeHash B) a w), w)"
| "world_op B (OpGetBalance a) w = Some (OutInt (w_read 0 ao_balance a w), w)"
| "world_op B (OpGetNonce a) w = Some (OutUint (w_read 0 ao_nonce a w), w)"
| "world_op B (OpGetCode a) w = Some (OutCode (w_read None ao_code a w), w)"
| "world_op B (OpGetCodeHash a) w = Some (OutHash (w_read zeroHash (\<lambda>ao. BytesToHash (ao_codehash ao)) a w), w)"
| "world_op B (OpGetState a k) w = Some (OutHash (w_read zeroHash (\<lambda>ao. ao_state ao k) a w), w)"
| "world_op B (OpGetCommittedState a k) w = Some (OutHash (w_read zeroHash (\<lambda>ao. ao_committed ao k) a w), w)"
| "world_op B (OpHasSuicided a) w = Some (OutBool (w_read False ao_suicided a w), w)"
| "world_op B OpGetRefund w = Some (OutUint (w_refund w), w)"
| "world_op B (OpAddressInAccessList a) w = Some (OutBool (al_abs (w_al w) a \<noteq> None), w)"
| "world_op B (OpSlotInAccessList a k) w =
     Some (OutBools (al_abs (w_al w) a \<noteq> None) (\<exists>S. al_abs (w_al w) a = Some S \<and> k \<in> S), w)"
| "world_op B _ w = None"

type_synonym copies = "world \<times> (nat \<times> world) list \<times> nat"

fun spec_op :: "backend \<Rightarrow> state_op \<Rightarrow> copies \<Rightarrow> (state_out \<times> copies) option" where
  "spec_op B OpSnapshot (w, revs, n) = Some (OutId n, (w, revs @ [(n, w)], n + 1))"
| "spec_op B (OpRevert i) (w, revs, n) =
     (let below = takeWhile (\<lambda>(j, _). j \<noteq> i) revs in
      if length below = length revs then None else Some (OutUnit, (snd (revs ! length below), below, n)))"
| "spec_op B op (w, revs, n) = map_option (\<lambda>(r, w). (r, (w, revs, n))) (world_op B op w)"

subsection \<open>The simulation\<close>

definition state_sim :: "backend \<Rightarrow> stateDB \<Rightarrow> copies \<Rightarrow> bool" where
  "state_sim B s = (\<lambda>(w, revs, n).
     state_wf B s \<and> world_wf w \<and> state_abs B s = w \<and> nextRevisionId s = n \<and>
     map fst (validRevisions s) = map fst revs \<and> sorted_wrt (<) (map fst revs) \<and> (\<forall>r \<in> set revs. fst r < n) \<and>
     sorted (map snd (validRevisions s)) \<and>
     (\<forall>i < length revs. snd (validRevisions s ! i) \<le> length (j_entries (journal s)) \<and> world_wf (snd (revs ! i)) \<and>
        undo_all B (rev (drop (snd (validRevisions s ! i)) (j_entries (journal s)))) w = Some (snd (revs ! i))))"

lemma state_simI:
  assumes "state_wf B s" "world_wf w" "state_abs B s = w" "nextRevisionId s = n" "map fst (validRevisions s) = map fst revs"
    "sorted_wrt (<) (map fst revs)" "\<forall>r \<in> set revs. fst r < n" "sorted (map snd (validRevisions s))"
    "\<And>i. i < length revs \<Longrightarrow> snd (validRevisions s ! i) \<le> length (j_entries (journal s)) \<and> world_wf (snd (revs ! i)) \<and>
       undo_all B (rev (drop (snd (validRevisions s ! i)) (j_entries (journal s)))) w = Some (snd (revs ! i))"
  shows "state_sim B s (w, revs, n)"
  using assms by (simp add: state_sim_def)

lemma sim_steps:
  assumes "state_sim B s (w, revs, n)" "steps B s s' es" "world_wf (state_abs B s')"
  shows "state_sim B s' (state_abs B s', revs, n)"
proof -
  have "undo_all B (rev (drop k (j_entries (journal s')))) (state_abs B s') = undo_all B (rev (drop k (j_entries (journal s)))) w"
    if "k \<le> length (j_entries (journal s))" for k
    using assms(1,2) that by (simp add: steps_def state_sim_def undo_all_append)
  with assms show ?thesis by (auto simp: state_sim_def steps_def)
qed

text \<open>Operations on worlds keep the invariant.\<close>

lemma world_wf_w_set [simp]: "world_wf (w_set a ao w) = world_wf w"
  by (simp add: world_wf_def w_set_def)

lemma world_wf_create [simp]: "world_wf (w_create B a w) = world_wf w"
  by (simp add: world_wf_def w_create_def w_set_def Let_def)

lemma world_wf_upd [simp]: "world_wf (w_upd B a f w) = world_wf w"
  by (simp add: w_upd_def w_getOrNew_def Let_def split: option.splits)

lemma world_op_wf:
  assumes "world_wf w" "world_op B op w = Some (r, w')"
  shows "world_wf w'"
proof (cases op)
  case (OpAddSlot a k)
  obtain al' where "AddSlot (w_al w) a k = Some ((al_abs (w_al w) a = None, \<nexists>S. al_abs (w_al w) a = Some S \<and> k \<in> S), al')" "al_wf al'"
    using assms(1) AddSlot_abs [of "w_al w" a k] by (auto simp: world_wf_def)
  with assms OpAddSlot show ?thesis by (auto simp: world_wf_def)
next
  case (OpAddAddress a)
  obtain b al' where "AddAddress (w_al w) a = (b, al')" by (cases "AddAddress (w_al w) a")
  with assms OpAddAddress AddAddress_abs(1) [OF this] show ?thesis by (auto simp: world_wf_def)
next
  case (OpSuicide a)
  with assms show ?thesis by (auto split: option.splits)
next
  case (OpCreateAccount a)
  with assms show ?thesis by (auto simp: Let_def split: option.splits)
next
  case (OpAddLog l)
  with assms show ?thesis by (auto simp: world_wf_def split: if_splits)
next
  case (OpAddPreimage h p)
  with assms show ?thesis by (auto simp: world_wf_def split: if_splits)
next
  case (OpAddRefund g)
  with assms show ?thesis by (auto simp: world_wf_def)
next
  case (OpSubRefund g)
  with assms show ?thesis by (auto simp: world_wf_def split: if_splits)
qed (use assms in auto)

text \<open>\<open>agrees B op s\<close>: the operation has the result and the world of the specification and journals what it changes.\<close>

definition agrees :: "backend \<Rightarrow> state_op \<Rightarrow> stateDB \<Rightarrow> bool" where
  "agrees B op s \<longleftrightarrow>
     (case world_op B op (state_abs B s) of
        None \<Rightarrow> run_op B op s = None
      | Some (r, w) \<Rightarrow> \<exists>s' es. run_op B op s = Some (r, s') \<and> steps B s s' es \<and> state_abs B s' = w)"

lemma agrees_obj:
  assumes ok: "backend_ok B" and wf: "state_wf B s"
  shows "agrees B (OpAddBalance a x) s" "agrees B (OpSubBalance a x) s" "agrees B (OpSetBalance a x) s"
    "agrees B (OpSetNonce a n) s" "agrees B (OpSetState a k v) s" "agrees B (OpSetCode a c) s"
proof -
  show "agrees B (OpAddBalance a x) s"
    using on_new_steps [OF ok wf AddBalance_obj_steps [where x = x]] by (auto simp: agrees_def AddBalance_def)
  show "agrees B (OpSubBalance a x) s"
    using on_new_steps [OF ok wf SubBalance_obj_steps [where x = x]] by (auto simp: agrees_def SubBalance_def)
  show "agrees B (OpSetBalance a x) s"
    using on_new_steps [OF ok wf SetBalance_steps [where b = x]] by (auto simp: agrees_def SetBalance_def)
  show "agrees B (OpSetNonce a n) s"
    using on_new_steps [OF ok wf SetNonce_steps [where n = n]] by (auto simp: agrees_def SetNonce_def)
  show "agrees B (OpSetState a k v) s"
    using on_new_steps [OF ok wf SetState_obj_steps [where k = k and v = v]] by (auto simp: agrees_def SetState_def fun_upd_def)
  let ?h = "keccak B (case c of Some b \<Rightarrow> b | None \<Rightarrow> [])"
  have h: "length ?h = 32" using ok by (simp add: backend_ok_def)
  have cv: "code_value B (keccak B (addr_bytes a)) c ?h = c" by (cases c) (simp_all add: code_value_def emptyCodeHash_def)
  show "agrees B (OpSetCode a c) s"
    using on_new_steps [OF ok wf, of a "\<lambda>obj s. so_SetCode B obj ?h c s" "\<lambda>ao. ao\<lparr>ao_codehash := ?h, ao_code := c\<rparr>"]
      SetCode_obj_steps [where h = ?h and c = c and a = a and B = B, OF _ _ _ _ h]
    by (auto simp: agrees_def SetCode_def cv)
qed

lemma read_obj_quiet:
  assumes ok: "backend_ok B" and wf: "state_wf B s"
    and f: "\<And>obj. obj_wf B a obj \<Longrightarrow> f obj = g (obj_abs B (snapDestructs s) obj)"
  shows "\<exists>s'. read_obj B s a d f = (w_read d g a (state_abs B s), s') \<and> quiet B s s'"
proof -
  obtain s' where "getStateObject B s a = (case live_obj B s a of Some obj \<Rightarrow> if so_deleted obj then None else Some obj | None \<Rightarrow> None, s')"
    "quiet B s s'" by (rule getStateObject_quiet [OF ok wf])
  with live_obj_wf [OF ok wf, of a] f show ?thesis by (auto simp: read_obj_def w_read_def w_obj_abs split: option.splits)
qed

lemma agrees_read:
  assumes "world_op B op (state_abs B s) = Some (r, state_abs B s)" "run_op B op s = Some (r, s')" "quiet B s s'"
  shows "agrees B op s"
  using assms steps_quiet [OF assms(3)] by (auto simp: agrees_def quiet_def)

lemma agrees_getters:
  assumes ok: "backend_ok B" and wf: "state_wf B s"
  shows "agrees B (OpExist a) s" "agrees B (OpEmpty a) s" "agrees B (OpGetBalance a) s" "agrees B (OpGetNonce a) s"
    "agrees B (OpGetCodeHash a) s" "agrees B (OpHasSuicided a) s"
proof -
  have ex: "w_read False (\<lambda>_. True) a w = (w_obj w a \<noteq> None)" for w by (simp add: w_read_def split: option.splits)
  obtain s1 where "read_obj B s a False (\<lambda>_. True) = (w_read False (\<lambda>_. True) a (state_abs B s), s1)" "quiet B s s1"
    using read_obj_quiet [OF ok wf, of a "\<lambda>_. True" "\<lambda>_. True" False] by auto
  then show "agrees B (OpExist a) s" by (intro agrees_read [of _ _ _ _ s1]) (simp_all add: out_def Exist_def ex)
  obtain s2 where "read_obj B s a True (so_empty B) =
      (w_read True (\<lambda>ao. ao_nonce ao = 0 \<and> ao_balance ao = 0 \<and> ao_codehash ao = emptyCodeHash B) a (state_abs B s), s2)" "quiet B s s2"
    using read_obj_quiet [OF ok wf, of a "so_empty B" "\<lambda>ao. ao_nonce ao = 0 \<and> ao_balance ao = 0 \<and> ao_codehash ao = emptyCodeHash B" True]
    by (auto simp: so_empty_def obj_abs_def)
  then show "agrees B (OpEmpty a) s" by (intro agrees_read [of _ _ _ _ s2]) (simp_all add: out_def Empty_def)
  obtain s3 where "read_obj B s a 0 (\<lambda>obj. acc_balance (so_data obj)) = (w_read 0 ao_balance a (state_abs B s), s3)" "quiet B s s3"
    using read_obj_quiet [OF ok wf, of a "\<lambda>obj. acc_balance (so_data obj)" ao_balance 0] by (auto simp: obj_abs_def)
  then show "agrees B (OpGetBalance a) s" by (intro agrees_read [of _ _ _ _ s3]) (simp_all add: out_def GetBalance_def)
  obtain s4 where "read_obj B s a 0 (\<lambda>obj. acc_nonce (so_data obj)) = (w_read 0 ao_nonce a (state_abs B s), s4)" "quiet B s s4"
    using read_obj_quiet [OF ok wf, of a "\<lambda>obj. acc_nonce (so_data obj)" ao_nonce 0] by (auto simp: obj_abs_def)
  then show "agrees B (OpGetNonce a) s" by (intro agrees_read [of _ _ _ _ s4]) (simp_all add: out_def GetNonce_def)
  obtain s5 where "read_obj B s a zeroHash (\<lambda>obj. BytesToHash (acc_codehash (so_data obj))) =
      (w_read zeroHash (\<lambda>ao. BytesToHash (ao_codehash ao)) a (state_abs B s), s5)" "quiet B s s5"
    using read_obj_quiet [OF ok wf, of a "\<lambda>obj. BytesToHash (acc_codehash (so_data obj))" "\<lambda>ao. BytesToHash (ao_codehash ao)" zeroHash]
    by (auto simp: obj_abs_def)
  then show "agrees B (OpGetCodeHash a) s" by (intro agrees_read [of _ _ _ _ s5]) (simp_all add: out_def GetCodeHash_def)
  obtain s6 where "read_obj B s a False so_suicided = (w_read False ao_suicided a (state_abs B s), s6)" "quiet B s s6"
    using read_obj_quiet [OF ok wf, of a so_suicided ao_suicided False] by (auto simp: obj_abs_def)
  then show "agrees B (OpHasSuicided a) s" by (intro agrees_read [of _ _ _ _ s6]) (simp_all add: out_def HasSuicided_def)
qed

text \<open>Readers that fill a cache of the object.\<close>

lemma cached_read_quiet:
  assumes ok: "backend_ok B" and wf: "state_wf B s"
    and f: "\<And>obj. obj_wf B a obj \<Longrightarrow> fst (f (snapDestructs s) obj) = g (obj_abs B (snapDestructs s) obj) \<and>
      obj_wf B a (snd (f (snapDestructs s) obj)) \<and> obj_abs B (snapDestructs s) (snd (f (snapDestructs s) obj)) = obj_abs B (snapDestructs s) obj"
  shows "\<exists>s'. (case getStateObject B s a of
      (Some obj, s) \<Rightarrow> (let (v, obj) = f (snapDestructs s) obj in (v, setStateObject obj s)) | (None, s) \<Rightarrow> (d, s)) =
    (w_read d g a (state_abs B s), s') \<and> quiet B s s'"
proof -
  obtain s1 where s1: "getStateObject B s a = (case live_obj B s a of Some obj \<Rightarrow> if so_deleted obj then None else Some obj | None \<Rightarrow> None, s1)"
    "quiet B s s1" "stateObjects s1 a = live_obj B s a" by (rule getStateObject_quiet [OF ok wf])
  show ?thesis
  proof (cases "w_obj (state_abs B s) a")
    case None
    then have "getStateObject B s a = (None, s1)" using s1(1) by (auto simp: w_obj_abs split: option.splits if_splits)
    with None s1(2) show ?thesis by (simp add: w_read_def)
  next
    case (Some ao)
    obtain obj where obj: "live_obj B s a = Some obj" "\<not> so_deleted obj" "ao = obj_abs B (snapDestructs s) obj"
      by (rule w_obj_live [OF Some])
    note fo = f [OF live_obj_wf [OF ok wf obj(1)]] and ds = quiet_destructs [OF s1(2)]
    let ?o = "snd (f (snapDestructs s) obj)"
    have oa: "so_address ?o = a" using fo by (auto simp: obj_wf_def)
    have "state_abs B (setStateObject ?o s1) = state_abs B s1"
      using s1(3) obj(1) fo oa ds by (intro abs_setStateObject_same [of _ _ _ obj]) (simp_all add: live_obj_def)
    moreover have "state_wf B (setStateObject ?o s1)" using s1(2) fo oa by (intro wf_setStateObject) (simp_all add: quiet_def)
    ultimately have "quiet B s (setStateObject ?o s1)" using s1(2) by (simp add: quiet_def)
    with s1(1) obj fo Some ds show ?thesis by (simp add: w_read_def case_prod_beta)
  qed
qed

lemma agrees_cached:
  assumes ok: "backend_ok B" and wf: "state_wf B s"
  shows "agrees B (OpGetCode a) s" "agrees B (OpGetState a k) s" "agrees B (OpGetCommittedState a k) s"
proof -
  have c: "fst (so_Code B obj) = ao_code (obj_abs B ds obj) \<and> obj_wf B a (snd (so_Code B obj)) \<and>
      obj_abs B ds (snd (so_Code B obj)) = obj_abs B ds obj" if "obj_wf B a obj" for obj ds
    using that obj_abs_Code [OF obj_wf_fake [OF that]] by (simp add: obj_abs_def obj_wf_def)
  obtain s1 where "GetCode B s a = (w_read None ao_code a (state_abs B s), s1)" "quiet B s s1"
    using cached_read_quiet [where f = "\<lambda>_. so_Code B" and g = ao_code, OF ok wf c, where d = None] by (auto simp: GetCode_def)
  then show "agrees B (OpGetCode a) s" by (intro agrees_read [of _ _ _ _ s1]) (simp_all add: out_def)
  have g: "fst (so_GetState B ds obj k) = (\<lambda>ao. ao_state ao k) (obj_abs B ds obj) \<and> obj_wf B a (snd (so_GetState B ds obj k)) \<and>
      obj_abs B ds (snd (so_GetState B ds obj k)) = obj_abs B ds obj" if "obj_wf B a obj" for obj ds
    using that obj_abs_GetState [OF obj_wf_fake [OF that]] by (simp add: obj_abs_def obj_wf_def GetState_snd)
  obtain s2 where "GetState B s a k = (w_read zeroHash (\<lambda>ao. ao_state ao k) a (state_abs B s), s2)" "quiet B s s2"
    using cached_read_quiet [where f = "\<lambda>ds obj. so_GetState B ds obj k" and g = "\<lambda>ao. ao_state ao k", OF ok wf g, where d = zeroHash] by (auto simp: GetState_def)
  then show "agrees B (OpGetState a k) s" by (intro agrees_read [of _ _ _ _ s2]) (simp_all add: out_def)
  have h: "fst (so_GetCommittedState B ds obj k) = (\<lambda>ao. ao_committed ao k) (obj_abs B ds obj) \<and>
      obj_wf B a (snd (so_GetCommittedState B ds obj k)) \<and>
      obj_abs B ds (snd (so_GetCommittedState B ds obj k)) = obj_abs B ds obj" if "obj_wf B a obj" for obj ds
    using that obj_abs_GetCommittedState [OF obj_wf_fake [OF that]] by (simp add: obj_abs_def obj_wf_def)
  obtain s3 where "GetCommittedState B s a k = (w_read zeroHash (\<lambda>ao. ao_committed ao k) a (state_abs B s), s3)" "quiet B s s3"
    using cached_read_quiet [where f = "\<lambda>ds obj. so_GetCommittedState B ds obj k" and g = "\<lambda>ao. ao_committed ao k", OF ok wf h, where d = zeroHash] by (auto simp: GetCommittedState_def)
  then show "agrees B (OpGetCommittedState a k) s" by (intro agrees_read [of _ _ _ _ s3]) (simp_all add: out_def)
qed

text \<open>Operations on the other fields of the state.\<close>

lemma agrees_step:
  assumes "world_op B op (state_abs B s) = Some (r, w)" "run_op B op s = Some (r, s')" "state_abs B s' = w" "state_wf B s"
    "stateObjects s' = stateObjects s" "j_entries (journal s') = j_entries (journal s) @ es" "\<forall>e \<in> set es. entry_wf B e"
    "undo_all B (rev es) w = Some (state_abs B s)" "validRevisions s' = validRevisions s" "nextRevisionId s' = nextRevisionId s"
  shows "agrees B op s"
proof -
  have "steps B s s' es" using assms(3-) by (auto simp: steps_def state_wf_def)
  with assms(1-3) show ?thesis by (auto simp: agrees_def)
qed

lemma abs_upd [simp]:
  "state_abs B (s\<lparr>refund := x\<rparr>) = (state_abs B s)\<lparr>w_refund := x\<rparr>"
  "state_abs B (s\<lparr>preimages := p\<rparr>) = (state_abs B s)\<lparr>w_preimages := p\<rparr>"
  "state_abs B (s\<lparr>accessList := al\<rparr>) = (state_abs B s)\<lparr>w_al := al\<rparr>"
  "state_abs B (s\<lparr>logs := l, logSize := n\<rparr>) = (state_abs B s)\<lparr>w_logs := l, w_logSize := n\<rparr>"
  by (simp_all add: state_abs_def live_obj_def)

text \<open>The entry of each operation undoes it.\<close>

lemma undo_AddLog:
  assumes "world_wf w"
  shows "undo_all B (rev [AddLogChange (w_thash w)]) (snd (the (world_op B (OpAddLog l) w))) = Some w"
  using assms by (cases w, cases "w_logs w (w_thash w)") (auto simp: world_wf_def Let_def fun_upd_idem)

lemma undo_AddPreimage:
  "w_preimages w h = None \<Longrightarrow> undo_all B (rev [AddPreimageChange h]) (w\<lparr>w_preimages := (w_preimages w)(h \<mapsto> p)\<rparr>) = Some w"
  by (cases w) (simp add: fun_upd_idem)

lemma undo_Refund: "undo_all B (rev [RefundChange (w_refund w)]) (w\<lparr>w_refund := x\<rparr>) = Some w"
  by (cases w) simp

lemma undo_AddAddress:
  "AddAddress (w_al w) a = (True, al) \<Longrightarrow> undo_all B (rev [AccessListAddAccountChange a]) (w\<lparr>w_al := al\<rparr>) = Some w"
  by (cases w) (simp add: DeleteAddress_AddAddress)

lemma undo_AddSlot:
  assumes "AddSlot (w_al w) a k = Some ((am, True), al)" "al_wf (w_al w)"
  shows "undo_all B (rev ((if am then [AccessListAddAccountChange a] else []) @ [AccessListAddSlotChange a k])) (w\<lparr>w_al := al\<rparr>) = Some w"
proof -
  obtain al1 where "DeleteSlot al a k = Some al1" "(if am then DeleteAddress al1 a else al1) = w_al w"
    using DeleteSlot_AddSlot [OF assms] by blast
  then show ?thesis by (cases w, cases am) simp_all
qed

lemma agrees_fields:
  assumes wf: "state_wf B s" "world_wf (state_abs B s)"
  shows "agrees B (OpAddLog l) s" "agrees B (OpAddPreimage h p) s" "agrees B (OpAddRefund g) s" "agrees B (OpSubRefund g) s"
proof -
  show "agrees B (OpAddLog l) s"
    by (rule agrees_step [OF _ _ _ _ _ _ _ undo_AddLog [OF wf(2), where l = l], where s' = "AddLog s l" and r = OutUnit])
      (use wf in \<open>simp_all add: AddLog_def Let_def\<close>)
  show "agrees B (OpAddPreimage h p) s"
  proof (cases "preimages s h")
    case None
    then have "w_preimages (state_abs B s) h = None" by simp
    from None wf show ?thesis
      by (intro agrees_step [OF _ _ _ _ _ _ _ undo_AddPreimage [OF \<open>w_preimages (state_abs B s) h = None\<close>], where s' = "AddPreimage s h p"])
        (simp_all add: AddPreimage_def)
  next
    case (Some q)
    then show ?thesis using wf(1) by (intro agrees_read [of _ _ _ _ s] quiet_refl) (simp_all add: AddPreimage_def)
  qed
  show "agrees B (OpAddRefund g) s"
    by (rule agrees_step [OF _ _ _ _ _ _ _ undo_Refund [where x = "refund s + g"], where s' = "AddRefund s g"])
      (use wf in \<open>simp_all add: AddRefund_def\<close>)
  show "agrees B (OpSubRefund g) s"
  proof (cases "g > refund s")
    case True
    then show ?thesis by (simp add: agrees_def SubRefund_def Let_def)
  next
    case False
    then show ?thesis
      by (intro agrees_step [OF _ _ _ _ _ _ _ undo_Refund [where x = "refund s - g"],
            where s' = "(append_entry (RefundChange (refund s)) s)\<lparr>refund := refund s - g\<rparr>"])
        (use wf in \<open>simp_all add: SubRefund_def Let_def\<close>)
  qed
qed

lemma al_upd_same: "s\<lparr>accessList := accessList s\<rparr> = s" "(state_abs B s)\<lparr>w_al := accessList s\<rparr> = state_abs B s"
  by (simp_all add: state_abs_def)

lemma AddSlot_same: "AddSlot al a k = Some ((am, False), al') \<Longrightarrow> al' = al \<and> \<not> am"
  by (auto simp: AddSlot_def Let_def split: option.splits if_splits)

lemma agrees_access:
  assumes wf: "state_wf B s" "world_wf (state_abs B s)"
  shows "agrees B (OpAddAddress a) s" "agrees B (OpAddSlot a k) s" "agrees B (OpAddressInAccessList a) s"
    "agrees B (OpSlotInAccessList a k) s" "agrees B OpGetRefund s"
proof -
  have al: "al_wf (accessList s)" using wf(2) by (simp add: world_wf_def)
  obtain b al' where aa: "AddAddress (accessList s) a = (b, al')" by (cases "AddAddress (accessList s) a")
  show "agrees B (OpAddAddress a) s"
  proof (cases b)
    case True
    with aa have "AddAddress (w_al (state_abs B s)) a = (True, al')" by simp
    from agrees_step [OF _ _ _ _ _ _ _ undo_AddAddress [OF this], where s' = "AddAddressToAccessList s a" and r = OutUnit] True aa wf(1)
    show ?thesis by (simp add: AddAddressToAccessList_def)
  next
    case False
    then have "al' = accessList s" using aa by (auto simp: AddAddress_def split: if_splits)
    with aa False wf show ?thesis
      by (intro agrees_read [of _ _ _ _ s] quiet_refl) (simp_all add: AddAddressToAccessList_def al_upd_same)
  qed
  obtain am sm al2 where as: "AddSlot (accessList s) a k = Some ((am, sm), al2)" by (rule AddSlot_abs [OF al, of a k])
  show "agrees B (OpAddSlot a k) s"
  proof (cases sm)
    case True
    with as have "AddSlot (w_al (state_abs B s)) a k = Some ((am, True), al2)" by simp
    from undo_AddSlot [OF this] al have "undo_all B (rev ((if am then [AccessListAddAccountChange a] else []) @ [AccessListAddSlotChange a k]))
      ((state_abs B s)\<lparr>w_al := al2\<rparr>) = Some (state_abs B s)" by simp
    from agrees_step [OF _ _ _ _ _ _ _ this, where s' = "the (AddSlotToAccessList s a k)" and r = OutUnit] True as wf(1)
    show ?thesis by (cases am) (simp_all add: AddSlotToAccessList_def Let_def)
  next
    case False
    with as have "al2 = accessList s \<and> \<not> am" using AddSlot_same [of "accessList s" a k am al2] by simp
    with as False wf show ?thesis
      by (intro agrees_read [of _ _ _ _ s] quiet_refl) (simp_all add: AddSlotToAccessList_def al_upd_same)
  qed
  show "agrees B (OpAddressInAccessList a) s" "agrees B (OpSlotInAccessList a k) s" "agrees B OpGetRefund s"
    using wf(1) by (intro agrees_read [of _ _ _ _ s] quiet_refl; simp add: ContainsAddress_abs Contains_abs [OF al])+
qed

lemma agrees_all:
  assumes "backend_ok B" "state_wf B s" "world_wf (state_abs B s)" "op \<noteq> OpSnapshot" "\<forall>i. op \<noteq> OpRevert i"
  shows "agrees B op s"
proof (cases op)
  case (OpSuicide a)
  then show ?thesis using Suicide_steps [OF assms(1,2), of a] by (auto simp: agrees_def out_def split: option.splits)
next
  case (OpCreateAccount a)
  then show ?thesis using CreateAccount_steps [OF assms(1,2), of a] by (auto simp: agrees_def)
qed (use assms agrees_obj [OF assms(1,2)] agrees_getters [OF assms(1,2)] agrees_cached [OF assms(1,2)]
  agrees_fields [OF assms(2,3)] agrees_access [OF assms(2,3)] in simp_all)

subsection \<open>Revisions\<close>

lemma Snapshot_sim:
  assumes "state_sim B s (w, revs, n)"
  shows "state_sim B (snd (Snapshot s)) (w, revs @ [(n, w)], n + 1)" "fst (Snapshot s) = n"
proof -
  have abs: "state_abs B (s\<lparr>nextRevisionId := i, validRevisions := v\<rparr>) = state_abs B s" for i v
    by (simp add: state_abs_def live_obj_def)
  have wf: "state_wf B (s\<lparr>nextRevisionId := i, validRevisions := v\<rparr>) = state_wf B s" for i v
    by (simp add: state_wf_def)
  have len: "length (validRevisions s) = length revs" using assms by (auto simp: state_sim_def dest: map_eq_imp_length_eq)
  have le: "\<forall>x \<in> set (validRevisions s). snd x \<le> length (j_entries (journal s))"
    using assms len unfolding state_sim_def by (fastforce simp: in_set_conv_nth)
  show "fst (Snapshot s) = n" using assms by (simp add: Snapshot_def Let_def state_sim_def)
  show "state_sim B (snd (Snapshot s)) (w, revs @ [(n, w)], n + 1)"
    using assms le unfolding state_sim_def
    by (auto simp: Snapshot_def Let_def abs wf len nth_append sorted_append sorted_wrt_append less_Suc_eq)
qed

text \<open>The search for a revision finds the position of its identifier.\<close>

lemma search_revision:
  fixes rs :: "(nat \<times> 'a) list" and i j :: nat
  assumes srt: "sorted_wrt (<) (map fst rs)" and j: "length (takeWhile (\<lambda>(k, _). k \<noteq> i) rs) = j"
  shows "sort_Search (length rs) (\<lambda>k. i \<le> fst (rs ! k)) = length rs \<or> fst (rs ! sort_Search (length rs) (\<lambda>k. i \<le> fst (rs ! k))) \<noteq> i \<longleftrightarrow>
      j = length rs"
    and "j < length rs \<Longrightarrow> sort_Search (length rs) (\<lambda>k. i \<le> fst (rs ! k)) = j"
proof -
  let ?idx = "sort_Search (length rs) (\<lambda>k. i \<le> fst (rs ! k))"
  have lt: "fst (rs ! a) < fst (rs ! b)" if "a < b" "b < length rs" for a b
    using srt that by (simp add: sorted_wrt_iff_nth_less)
  have mono: "\<forall>a b. a \<le> b \<longrightarrow> b < length rs \<longrightarrow> i \<le> fst (rs ! a) \<longrightarrow> i \<le> fst (rs ! b)"
  proof (intro allI impI)
    fix a b assume "a \<le> b" "b < length rs" "i \<le> fst (rs ! a)"
    with lt [of a b] show "i \<le> fst (rs ! b)" by (cases "a = b") auto
  qed
  have jle: "j \<le> length rs" using length_takeWhile_le [of "\<lambda>(k, _). k \<noteq> i" rs] j by simp
  have at: "fst (rs ! j) = i" if "j < length rs"
    using nth_length_takeWhile [of "\<lambda>(k, _). k \<noteq> i" rs] that unfolding j by (cases "rs ! j") simp
  have no: "fst (rs ! k) \<noteq> i" if "k < j" for k
    using nth_mem [of k "takeWhile (\<lambda>(k, _). k \<noteq> i) rs"] set_takeWhileD [of "rs ! k" "\<lambda>(k, _). k \<noteq> i" rs] that j
    by (cases "rs ! k") (auto simp: takeWhile_nth)
  show idx: "?idx = j" if "j < length rs"
  proof (rule sort_Search_eq [OF mono jle])
    show "\<forall>k < j. \<not> i \<le> fst (rs ! k)"
    proof (intro allI impI)
      fix k assume "k < j"
      from lt [OF this that] at [OF that] show "\<not> i \<le> fst (rs ! k)" by simp
    qed
    show "j < length rs \<longrightarrow> i \<le> fst (rs ! j)" using at by simp
  qed
  have le: "?idx \<le> length rs" 
    unfolding sort_Search_def by (rule sort_Search_loop_least [OF mono, THEN conjunct1]) simp_all
  show "?idx = length rs \<or> fst (rs ! ?idx) \<noteq> i \<longleftrightarrow> j = length rs"
  proof (cases "j = length rs")
    case True
    with no [of ?idx] le show ?thesis by (cases "?idx = length rs") simp_all
  next
    case False
    with jle have "j < length rs" by simp
    with idx [OF this] at [OF this] show ?thesis by simp
  qed
qed

lemma takeWhile_ids:
  fixes rs :: "(nat \<times> 'a) list" and qs :: "(nat \<times> 'b) list"
  assumes "map fst rs = map fst qs"
  shows "length (takeWhile (\<lambda>(k, _). k \<noteq> i) rs) = length (takeWhile (\<lambda>(k, _). k \<noteq> i) qs)"
proof -
  have rs: "length (takeWhile (\<lambda>(k, _). k \<noteq> i) rs) = length (takeWhile (\<lambda>k. k \<noteq> i) (map fst rs))"
    by (simp add: takeWhile_map o_def case_prod_unfold)
  have qs: "length (takeWhile (\<lambda>(k, _). k \<noteq> i) qs) = length (takeWhile (\<lambda>k. k \<noteq> i) (map fst qs))"
    by (simp add: takeWhile_map o_def case_prod_unfold)
  show ?thesis unfolding rs qs assms ..
qed

lemma journal_revert_sim:
  assumes ok: "backend_ok B" and wf: "state_wf B s" and k: "k \<le> length (j_entries (journal s))"
    and u: "undo_all B (rev (drop k (j_entries (journal s)))) (state_abs B s) = Some w"
  shows "\<exists>s'. journal_revert B k s = Some s' \<and> state_wf B s' \<and> state_abs B s' = w \<and>
    j_entries (journal s') = take k (j_entries (journal s)) \<and> validRevisions s' = validRevisions s \<and> nextRevisionId s' = nextRevisionId s"
proof -
  have "\<forall>e \<in> set (rev (drop k (j_entries (journal s)))). entry_wf B e" using wf by (auto simp: state_wf_def dest: in_set_dropD)
  from revert_loop_sim [OF ok wf this u] obtain s1 where
    s1: "revert_loop B (rev (drop k (j_entries (journal s)))) s = Some s1" "state_wf B s1" "state_abs B s1 = w" "same_journal s s1" by blast
  have abs: "state_abs B (s1\<lparr>journal := j\<rparr>) = state_abs B s1" for j by (simp add: state_abs_def live_obj_def)
  have "state_wf B (s1\<lparr>journal := (journal s1)\<lparr>j_entries := take k (j_entries (journal s1))\<rparr>\<rparr>)"
    using s1(2) by (auto simp: state_wf_def dest: in_set_takeD)
  with s1 k abs show ?thesis by (simp add: journal_revert_def same_journal_def)
qed

lemma RevertToSnapshot_sim:
  assumes ok: "backend_ok B" and sim: "state_sim B s (w, revs, n)"
  shows "case spec_op B (OpRevert i) (w, revs, n) of
      None \<Rightarrow> RevertToSnapshot B s i = None
    | Some (_, c) \<Rightarrow> \<exists>s'. RevertToSnapshot B s i = Some s' \<and> state_sim B s' c"
proof -
  let ?vr = "validRevisions s" and ?es = "j_entries (journal s)"
  let ?below = "takeWhile (\<lambda>(j, _). j \<noteq> i) revs"
  define j where "j = length ?below"
  have ids: "map fst ?vr = map fst revs" and srt: "sorted_wrt (<) (map fst ?vr)" "sorted (map snd ?vr)" and abs: "state_abs B s = w"
    and wf: "state_wf B s"
    using sim by (auto simp: state_sim_def)
  have len: "length ?vr = length revs" using ids by (metis length_map)
  have j: "length (takeWhile (\<lambda>(k, _). k \<noteq> i) ?vr) = j" using takeWhile_ids [OF ids] by (simp add: j_def)
  note search = search_revision [OF srt(1) j]
  show ?thesis
  proof (cases "j = length revs")
    case True
    with search(1) len show ?thesis by (simp add: RevertToSnapshot_def Let_def j_def)
  next
    case False
    then have jl: "j < length revs" using length_takeWhile_le [of "\<lambda>(j, _). j \<noteq> i" revs] by (simp add: j_def)
    have idx: "sort_Search (length ?vr) (\<lambda>k. i \<le> fst (?vr ! k)) = j" using search(2) jl len by simp
    let ?k = "snd (?vr ! j)"
    have k: "?k \<le> length ?es" "undo_all B (rev (drop ?k ?es)) (state_abs B s) = Some (snd (revs ! j))" "world_wf (snd (revs ! j))"
      using sim jl abs by (auto simp: state_sim_def)
    obtain s1 where s1: "journal_revert B ?k s = Some s1" "state_wf B s1" "state_abs B s1 = snd (revs ! j)"
      "j_entries (journal s1) = take ?k ?es" "validRevisions s1 = ?vr" "nextRevisionId s1 = nextRevisionId s"
      using journal_revert_sim [OF ok wf k(1,2)] by blast
    let ?s2 = "s1\<lparr>validRevisions := take j ?vr\<rparr>"
    have r: "RevertToSnapshot B s i = Some ?s2" using search(1) idx s1 False len by (auto simp: RevertToSnapshot_def Let_def)
    have b: "?below = take j revs" unfolding j_def by (rule takeWhile_eq_take)
    have u: "snd (?vr ! m) \<le> ?k \<and> undo_all B (rev (drop (snd (?vr ! m)) (take ?k ?es))) (snd (revs ! j)) = Some (snd (revs ! m)) \<and>
        world_wf (snd (revs ! m))" if "m < j" for m
    proof -
      have m: "snd (?vr ! m) \<le> ?k" using srt(2) that jl len by (simp add: sorted_iff_nth_mono)
      have "drop (snd (?vr ! m)) ?es = drop (snd (?vr ! m)) (take ?k ?es) @ drop ?k ?es"
        using m k(1) by (metis append_take_drop_id drop_append drop_drop drop_take le_add_diff_inverse2 length_take min.absorb2 diff_is_0_eq drop0)
      moreover have "undo_all B (rev (drop (snd (?vr ! m)) ?es)) w = Some (snd (revs ! m))" "world_wf (snd (revs ! m))"
        using sim that jl by (auto simp: state_sim_def)
      ultimately show ?thesis using m k(2) abs by (simp add: undo_all_append)
    qed
    have "state_sim B ?s2 (snd (revs ! j), take j revs, n)"
    proof (rule state_simI)
      show "state_wf B ?s2" "state_abs B ?s2 = snd (revs ! j)" using s1 by (simp_all add: state_wf_def state_abs_def live_obj_def)
      show "world_wf (snd (revs ! j))" by (rule k(3))
      show "nextRevisionId ?s2 = n" "\<forall>r \<in> set (take j revs). fst r < n" using sim s1(6) by (auto simp: state_sim_def dest: in_set_takeD)
      show "sorted (map snd (validRevisions ?s2))" using srt(2) by (simp add: take_map [symmetric] sorted_wrt_take)
      show "map fst (validRevisions ?s2) = map fst (take j revs)" using ids by (simp add: take_map [symmetric])
      show "sorted_wrt (<) (map fst (take j revs))" using srt(1) ids by (simp add: take_map [symmetric] sorted_wrt_take)
      fix m assume "m < length (take j revs)"
      with u [of m] s1(4) k(1) jl show "snd (validRevisions ?s2 ! m) \<le> length (j_entries (journal ?s2)) \<and> world_wf (snd (take j revs ! m)) \<and>
        undo_all B (rev (drop (snd (validRevisions ?s2 ! m)) (j_entries (journal ?s2)))) (snd (revs ! j)) = Some (snd (take j revs ! m))"
        by simp
    qed
    with r b jl show ?thesis by (simp add: j_def [symmetric])
  qed
qed

subsection \<open>The refinement\<close>

lemma run_op_sim:
  assumes ok: "backend_ok B" and sim: "state_sim B s (w, revs, n)"
  shows "case spec_op B op (w, revs, n) of
      None \<Rightarrow> run_op B op s = None
    | Some (r, c) \<Rightarrow> \<exists>s'. run_op B op s = Some (r, s') \<and> state_sim B s' c"
proof -
  consider "op = OpSnapshot" | i where "op = OpRevert i" | "op \<noteq> OpSnapshot" "\<forall>i. op \<noteq> OpRevert i" by (cases op) auto
  then show ?thesis
  proof cases
    case 1
    with Snapshot_sim [OF sim] show ?thesis by (cases "Snapshot s") auto
  next
    case 2
    with RevertToSnapshot_sim [OF ok sim, of i] show ?thesis by (auto simp: Let_def split: if_splits option.splits)
  next
    case 3
    then have sp: "spec_op B op (w, revs, n) = map_option (\<lambda>(r, w). (r, (w, revs, n))) (world_op B op w)" by (cases op) simp_all
    have wf: "state_wf B s" "world_wf (state_abs B s)" and abs: "state_abs B s = w" using sim by (auto simp: state_sim_def)
    have ag: "agrees B op s" by (rule agrees_all [OF ok wf 3])
    show ?thesis
    proof (cases "world_op B op w")
      case None
      with ag abs sp show ?thesis by (simp add: agrees_def)
    next
      case (Some rw)
      obtain r w' where rw: "rw = (r, w')" by (cases rw)
      with ag abs Some obtain s' es where s': "run_op B op s = Some (r, s')" "steps B s s' es" "state_abs B s' = w'"
        by (auto simp: agrees_def)
      have "world_wf w'" using world_op_wf [of w B op r w'] wf(2) abs Some rw by simp
      with sim_steps [OF sim s'(2)] s' Some rw sp show ?thesis by auto
    qed
  qed
qed

end
