(* ===== verification/State_Properties.thy ===== *)
theory State_Properties
  imports State_Refinement "HOL-Library.Multiset"
begin

section \<open>Package core/state: properties of the state database\<close>

text \<open>
  Runs of operations on a fresh state database against the machine of copies: results, panics, reverts and the
  invariant; the end of a transaction.
\<close>

subsection \<open>Runs\<close>

fun run_ops :: "backend \<Rightarrow> state_op list \<Rightarrow> stateDB \<Rightarrow> (state_out list \<times> stateDB) option" where
  "run_ops B [] s = Some ([], s)"
| "run_ops B (op # ops) s =
     (case run_op B op s of
        None \<Rightarrow> None
      | Some (r, s) \<Rightarrow> map_option (\<lambda>(rs, s). (r # rs, s)) (run_ops B ops s))"

fun spec_ops :: "backend \<Rightarrow> state_op list \<Rightarrow> copies \<Rightarrow> (state_out list \<times> copies) option" where
  "spec_ops B [] c = Some ([], c)"
| "spec_ops B (op # ops) c =
     (case spec_op B op c of
        None \<Rightarrow> None
      | Some (r, c) \<Rightarrow> map_option (\<lambda>(rs, c). (r # rs, c)) (spec_ops B ops c))"

lemma run_ops_sim:
  assumes ok: "backend_ok B" and "state_sim B s c"
  shows "case spec_ops B ops c of
      None \<Rightarrow> run_ops B ops s = None
    | Some (rs, c') \<Rightarrow> \<exists>s'. run_ops B ops s = Some (rs, s') \<and> state_sim B s' c'"
  using assms(2)
proof (induction ops arbitrary: s c)
  case Nil
  then show ?case by simp
next
  case (Cons op ops)
  obtain w revs n where c: "c = (w, revs, n)" by (cases c)
  note sim = run_op_sim [OF ok Cons.prems [unfolded c], of op]
  show ?case
  proof (cases "spec_op B op c")
    case None
    with sim c show ?thesis by simp
  next
    case (Some rc)
    obtain r c1 where rc: "rc = (r, c1)" by (cases rc)
    with sim c Some obtain s1 where s1: "run_op B op s = Some (r, s1)" "state_sim B s1 c1" by auto
    from Cons.IH [OF s1(2)] s1(1) Some rc show ?thesis by (cases "spec_ops B ops c1") auto
  qed
qed

lemma run_ops_SomeD:
  assumes "backend_ok B" "state_sim B s c" "run_ops B ops s = Some (rs, s')"
  obtains c' where "spec_ops B ops c = Some (rs, c')" "state_sim B s' c'"
  using run_ops_sim [OF assms(1,2), of ops] assms(3) by (cases "spec_ops B ops c") auto

definition init_copies :: "backend \<Rightarrow> copies" where
  "init_copies B = (state_abs B state_New, [], 0)"

lemma state_New_sim: "state_sim B state_New (init_copies B)"
  by (simp add: state_sim_def init_copies_def state_wf_def world_wf_def al_wf_new) (simp add: state_New_def newJournal_def al_wf_new)

text \<open>Revisions of a run: an identifier keeps its copy for as long as it is valid.\<close>

lemma spec_op_revs:
  assumes "spec_op B op (w, revs, n) = Some (r, (w', revs', n'))" "(i, x) \<in> set revs'" "i < n"
  shows "(i, x) \<in> set revs"
proof (cases op)
  case (OpRevert k)
  with assms show ?thesis by (auto simp: Let_def split: if_splits dest: set_takeWhileD)
qed (use assms in \<open>auto split: if_splits option.splits\<close>)

lemma spec_op_next: "spec_op B op (w, revs, n) = Some (r, (w', revs', n')) \<Longrightarrow> n \<le> n'"
  by (cases op) (auto simp: Let_def split: if_splits)

lemma spec_ops_revs:
  assumes "spec_ops B ops (w, revs, n) = Some (rs, (w', revs', n'))" "(i, x) \<in> set revs'" "i < n"
  shows "(i, x) \<in> set revs"
  using assms
proof (induction ops arbitrary: w revs n rs)
  case Nil
  then show ?case by simp
next
  case (Cons op ops)
  obtain r w1 revs1 n1 rs1 where 1: "spec_op B op (w, revs, n) = Some (r, (w1, revs1, n1))"
    "spec_ops B ops (w1, revs1, n1) = Some (rs1, (w', revs', n'))"
    using Cons.prems(1) by (auto split: option.splits)
  have "(i, x) \<in> set revs1" using Cons.IH [OF 1(2)] Cons.prems(2,3) spec_op_next [OF 1(1)] by simp
  then show ?case by (rule spec_op_revs [OF 1(1) _ Cons.prems(3)])
qed

lemma takeWhile_length_all: "length (takeWhile (\<lambda>(j, _). j \<noteq> i) revs) = length revs \<longleftrightarrow> i \<notin> fst ` set revs"
  by (induction revs) auto

lemma spec_revert:
  assumes "(i, x) \<in> set revs" "sorted_wrt (<) (map fst revs)"
  shows "spec_op B (OpRevert i) (w, revs, n) = Some (OutUnit, (x, takeWhile (\<lambda>(j, _). j \<noteq> i) revs, n))"
proof -
  have d: "distinct (map fst revs)" using assms(2) by (simp add: strict_sorted_iff)
  obtain ys zs where rv: "revs = ys @ (i, x) # zs" using assms(1) by (meson split_list)
  have "fst y \<noteq> i" if "y \<in> set ys" for y using d that unfolding rv by (cases y) (auto simp: rev_image_eqI)
  then have "takeWhile (\<lambda>(j, _). j \<noteq> i) revs = ys" unfolding rv by (subst takeWhile_append2) (force, simp)
  then show ?thesis by (simp add: rv Let_def)
qed

subsection \<open>A backend for examples\<close>

lemma addr_bytes_inj: "addr_bytes a = addr_bytes b \<Longrightarrow> a = b"
proof (rule bit_word_eqI)
  fix n assume eq: "addr_bytes a = addr_bytes b" and n: "n < LENGTH(160)"
  let ?i = "19 - n div 8"
  have lt: "n mod 8 < LENGTH(8)" by simp
  have i: "?i < 20" "8 * (19 - ?i) + n mod 8 = n" using n by auto
  have "addr_bytes a ! ?i = addr_bytes b ! ?i" using eq by simp
  then have "(ucast (drop_bit (8 * (19 - ?i)) a) :: byte) = ucast (drop_bit (8 * (19 - ?i)) b)"
    using i(1) by (simp add: addr_bytes_def)
  then have "bit (ucast (drop_bit (8 * (19 - ?i)) a) :: byte) (n mod 8) = bit (ucast (drop_bit (8 * (19 - ?i)) b) :: byte) (n mod 8)"
    by simp
  then show "bit a n = bit b n" using i(2) lt by (simp only: bit_ucast_iff bit_drop_bit_eq o_def add.commute simp_thms)
qed

definition empty_backend :: backend where
  "empty_backend =
     \<lparr>keccak = (\<lambda>b. take 32 (b @ replicate 32 0)), trie_TryGet = (\<lambda>_. Inr []), OpenStorageTrie = (\<lambda>_ _. Inr (\<lambda>_. Inr [])),
      ContractCode = (\<lambda>_ _. (None, Some [])), snap = None\<rparr>"

lemma empty_backend_ok: "backend_ok empty_backend"
proof -
  have "length (addr_bytes a) = 20" for a by (simp add: addr_bytes_def)
  then have "inj (\<lambda>a. keccak empty_backend (addr_bytes a))"
    by (auto intro!: injI addr_bytes_inj simp: empty_backend_def)
  then show ?thesis
    by (simp add: backend_ok_def backend_obj_def read_account_def) (auto simp: empty_backend_def)
qed

lemma empty_backend_eval [simp]:
  "snap empty_backend = None" "w_objs (state_abs empty_backend state_New) a = None"
proof -
  have "backend_obj empty_backend a = None" by (simp add: backend_obj_def read_account_def) (simp add: empty_backend_def)
  then show "w_objs (state_abs empty_backend state_New) a = None" by (simp add: abs_objs live_obj_def state_New_def)
qed (simp add: empty_backend_def)

lemma w_obj_w_set: "w_obj (w_set a ao w) b = (if b = a then if ao_deleted ao then None else Some ao else w_obj w b)"
  by (simp add: w_obj_def w_set_def)

lemma w_upd_fresh:
  assumes "snap B = None" "w_obj w a = None"
  shows "w_upd B a f w = w_set a (f (fresh_obj B (w_destructs w) a)) w"
proof -
  have "w_getOrNew B a w = w_set a (fresh_obj B (w_destructs w) a) w"
    using assms by (cases w) (simp add: w_getOrNew_def w_create_def)
  then show ?thesis using w_obj_create [of B a w] by (simp add: w_upd_def w_obj_w_set) (simp add: w_set_def fresh_obj_def obj_abs_def)
qed

lemma w_upd_live: "w_obj w a = Some ao \<Longrightarrow> w_upd B a f w = w_set a (f ao) w"
  by (simp add: w_upd_def w_getOrNew_def)

lemma fresh_obj_eval [simp]: "\<not> ao_deleted (fresh_obj B ds a)" "ao_balance (fresh_obj B ds a) = 0" "ao_nonce (fresh_obj B ds a) = 0"
  by (simp_all add: fresh_obj_def obj_abs_def newObject_def)

lemmas world_eval = w_obj_w_set w_upd_fresh w_upd_live w_read_def

subsection \<open>The theorems\<close>

text \<open>C6: Refinement. For every sequence of operations on a fresh \<^verbatim>\<open>StateDB\<close>, with \<^verbatim>\<open>Snapshot\<close> and \<^verbatim>\<open>RevertToSnapshot\<close> at any
  place, the journalled implementation returns the results of the machine that copies the whole world at every snapshot
  and puts the copy back on a revert; it panics exactly when that machine does.\<close>

theorem StateDB_refines:
  assumes "backend_ok B"
  shows "map_option fst (run_ops B ops state_New) = map_option fst (spec_ops B ops (init_copies B))"
  using run_ops_sim [OF assms state_New_sim, of ops] by (cases "spec_ops B ops (init_copies B)") auto

text \<open>A run that reverts a transfer: the balance is the one of the snapshot.\<close>

theorem StateDB_refines_witness:
  "map_option fst (run_ops empty_backend [OpAddBalance 1 5, OpSnapshot, OpSubBalance 1 2, OpGetBalance 1, OpRevert 0, OpGetBalance 1] state_New) =
    Some [OutUnit, OutId 0, OutUnit, OutInt 3, OutUnit, OutInt 5]"
proof -
  have "w_obj (state_abs empty_backend state_New) 1 = None" by (simp add: w_obj_def)
  then show ?thesis unfolding StateDB_refines [OF empty_backend_ok] by (simp add: init_copies_def world_eval)
qed

text \<open>C7: Reverting restores the world. After any operations on the state and a snapshot, and any further operations that
  leave the snapshot valid, \<^verbatim>\<open>RevertToSnapshot\<close> returns and all accounts, storage, code, refund, logs, preimages and
  access-list entries are as they were when the snapshot was taken; the identifier is not valid any more.\<close>

theorem RevertToSnapshot_restores:
  assumes ok: "backend_ok B" and run: "run_ops B ops state_New = Some (rs, s)" and snap: "Snapshot s = (i, s1)"
    and run': "run_ops B ops' s1 = Some (rs', s2)" and valid: "i \<in> fst ` set (validRevisions s2)"
  shows "\<exists>s3. RevertToSnapshot B s2 i = Some s3 \<and> state_abs B s3 = state_abs B s \<and> i \<notin> fst ` set (validRevisions s3)"
proof -
  obtain w revs n where sim: "state_sim B s (w, revs, n)" by (rule run_ops_SomeD [OF ok state_New_sim run]) auto
  have sim1: "state_sim B s1 (w, revs @ [(n, w)], n + 1)" and i: "i = n" using Snapshot_sim [OF sim] snap by auto
  obtain w2 revs2 n2 where c2: "spec_ops B ops' (w, revs @ [(n, w)], n + 1) = Some (rs', (w2, revs2, n2))" and sim2: "state_sim B s2 (w2, revs2, n2)"
    by (rule run_ops_SomeD [OF ok sim1 run']) auto
  have "map fst (validRevisions s2) = map fst revs2" using sim2 by (simp add: state_sim_def)
  then have "fst ` set (validRevisions s2) = fst ` set revs2" by (metis list.set_map)
  with valid obtain x where x: "(i, x) \<in> set revs2" by auto
  then have "(i, x) \<in> set (revs @ [(n, w)])" using i by (intro spec_ops_revs [OF c2]) simp_all
  moreover have "(i, x) \<notin> set revs" using sim i by (auto simp: state_sim_def)
  ultimately have xw: "x = w" using i by simp
  have "sorted_wrt (<) (map fst revs2)" using sim2 by (simp add: state_sim_def)
  from spec_revert [OF x this] RevertToSnapshot_sim [OF ok sim2, of i] obtain s3
    where s3: "RevertToSnapshot B s2 i = Some s3" "state_sim B s3 (w, takeWhile (\<lambda>(j, _). j \<noteq> i) revs2, n2)" by (auto simp: xw)
  have "map fst (validRevisions s3) = map fst (takeWhile (\<lambda>(j, _). j \<noteq> i) revs2)" using s3(2) by (simp add: state_sim_def)
  then have "fst ` set (validRevisions s3) = fst ` set (takeWhile (\<lambda>(j, _). j \<noteq> i) revs2)" by (metis list.set_map)
  then have "i \<notin> fst ` set (validRevisions s3)" by (auto dest: set_takeWhileD)
  with s3 sim show ?thesis by (auto simp: state_sim_def)
qed

theorem RevertToSnapshot_restores_witness:
  "\<exists>rs s s1 rs' s2 s3. run_ops empty_backend [OpAddBalance 1 5] state_New = Some (rs, s) \<and> Snapshot s = (0, s1) \<and>
    run_ops empty_backend [OpSubBalance 1 2] s1 = Some (rs', s2) \<and>
    RevertToSnapshot empty_backend s2 0 = Some s3 \<and> state_abs empty_backend s3 = state_abs empty_backend s"
proof -
  let ?s = "AddBalance empty_backend state_New 1 5"
  obtain w revs n where sim: "state_sim empty_backend ?s (w, revs, n)"
    by (rule run_ops_SomeD [OF empty_backend_ok state_New_sim, where ops = "[OpAddBalance 1 5]"]) auto
  note ag = agrees_all [OF empty_backend_ok, unfolded agrees_def]
  have n: "nextRevisionId ?s = 0"
    using ag [of state_New "OpAddBalance 1 5"] state_New_sim [of empty_backend]
    by (auto simp: state_sim_def init_copies_def steps_def state_New_def)
  obtain s1 where s1: "Snapshot ?s = (0, s1)" "validRevisions s1 = validRevisions ?s @ [(0, length (j_entries (journal ?s)))]"
    using n by (simp add: Snapshot_def Let_def)
  let ?s2 = "SubBalance empty_backend s1 1 2"
  have "state_wf empty_backend s1" "world_wf (state_abs empty_backend s1)"
    using Snapshot_sim(1) [OF sim] s1(1) by (simp_all add: state_sim_def)
  then have "validRevisions ?s2 = validRevisions s1" using ag [of s1 "OpSubBalance 1 2"] by (auto simp: steps_def)
  with s1(2) have "0 \<in> fst ` set (validRevisions ?s2)" by simp
  from RevertToSnapshot_restores [OF empty_backend_ok _ s1(1) _ this, of "[OpAddBalance 1 5]" "[OutUnit]" "[OpSubBalance 1 2]" "[OutUnit]"] s1(1)
  show ?thesis by auto
qed

text \<open>C9: Panics. On every state that operations reach, an operation panics only if it takes more refund than there is or
  reverts to an identifier that is not valid, and then it does.\<close>

theorem run_op_panics:
  assumes ok: "backend_ok B" and run: "run_ops B ops state_New = Some (rs, s)"
  shows "run_op B op s = None \<longleftrightarrow>
    (\<exists>g. op = OpSubRefund g \<and> g > refund s) \<or> (\<exists>i. op = OpRevert i \<and> i \<notin> fst ` set (validRevisions s))"
proof -
  obtain w revs n where sim: "state_sim B s (w, revs, n)" by (rule run_ops_SomeD [OF ok state_New_sim run]) auto
  then have w: "w_refund w = refund s" "al_wf (w_al w)" and "map fst (validRevisions s) = map fst revs"
    by (auto simp: state_sim_def world_wf_def)
  from arg_cong [OF this(3), of set] have ids: "fst ` set (validRevisions s) = fst ` set revs" by simp
  have slot: "AddSlot (w_al w) a k \<noteq> None" for a k by (rule AddSlot_abs [OF w(2), of a k]) auto
  have rev: "spec_op B (OpRevert i) (w, revs, n) = None \<longleftrightarrow> i \<notin> fst ` set revs" for i
    using takeWhile_length_all [of i revs] by (simp add: Let_def)
  have "spec_op B op (w, revs, n) = None \<longleftrightarrow>
      (\<exists>g. op = OpSubRefund g \<and> g > refund s) \<or> (\<exists>i. op = OpRevert i \<and> i \<notin> fst ` set revs)"
  proof (cases op)
    case (OpRevert i)
    with rev [of i] show ?thesis by simp
  next
    case (OpAddSlot a k)
    with slot [of a k] show ?thesis by auto
  next
    case (OpSuicide a)
    then show ?thesis by (simp split: option.splits)
  qed (use w in simp_all)
  then show ?thesis using run_op_sim [OF ok sim, of op] ids by (cases "spec_op B op (w, revs, n)") auto
qed

theorem run_op_panics_witness:
  "run_ops empty_backend [OpAddRefund 3] state_New = Some ([OutUnit], AddRefund state_New 3) \<and>
    run_op empty_backend (OpSubRefund 4) (AddRefund state_New 3) = None"
  using run_op_panics [OF empty_backend_ok, of "[OpAddRefund 3]" "[OutUnit]" "AddRefund state_New 3" "OpSubRefund 4"]
  by (simp add: AddRefund_def) (simp add: state_New_def)

text \<open>C8: Invariant. On every state that operations reach, cached objects sit under their own address with the hash of that
  address, no access-list index is out of range, the revisions have increasing identifiers below the next one and
  non-decreasing journal positions within the journal.\<close>

theorem run_ops_invariant:
  assumes ok: "backend_ok B" and run: "run_ops B ops state_New = Some (rs, s)"
  shows "state_wf B s \<and> al_wf (accessList s) \<and> sorted_wrt (<) (map fst (validRevisions s)) \<and> sorted (map snd (validRevisions s)) \<and>
    (\<forall>r \<in> set (validRevisions s). fst r < nextRevisionId s \<and> snd r \<le> length (j_entries (journal s)))"
proof -
  obtain w revs n where sim: "state_sim B s (w, revs, n)" by (rule run_ops_SomeD [OF ok state_New_sim run]) auto
  then have ids: "map fst (validRevisions s) = map fst revs" and len: "length (validRevisions s) = length revs"
    by (auto simp: state_sim_def dest: map_eq_imp_length_eq)
  have "fst (validRevisions s ! k) < nextRevisionId s \<and> snd (validRevisions s ! k) \<le> length (j_entries (journal s))"
    if "k < length (validRevisions s)" for k
  proof -
    have "fst (validRevisions s ! k) = fst (revs ! k)" using ids that len by (metis nth_map)
    with sim that len show ?thesis by (auto simp: state_sim_def)
  qed
  then have "\<forall>r \<in> set (validRevisions s). fst r < nextRevisionId s \<and> snd r \<le> length (j_entries (journal s))"
    by (metis in_set_conv_nth)
  with sim show ?thesis by (auto simp: state_sim_def world_wf_def)
qed

theorem run_ops_invariant_witness:
  "run_ops empty_backend [OpAddRefund 3, OpSnapshot] state_New = Some ([OutUnit, OutId 0], snd (Snapshot (AddRefund state_New 3))) \<and>
    state_wf empty_backend (snd (Snapshot (AddRefund state_New 3)))"
proof -
  have "run_ops empty_backend [OpAddRefund 3, OpSnapshot] state_New = Some ([OutUnit, OutId 0], snd (Snapshot (AddRefund state_New 3)))"
    by (simp add: Snapshot_def AddRefund_def Let_def) (simp add: state_New_def)
  with run_ops_invariant [OF empty_backend_ok this] show ?thesis by blast
qed

subsection \<open>The end of a transaction\<close>

definition finalised :: "backend \<Rightarrow> bool \<Rightarrow> stateObject \<Rightarrow> stateObject" where
  "finalised B d obj = (if so_suicided obj \<or> (d \<and> so_empty B obj) then obj\<lparr>so_deleted := True\<rparr> else so_finalise obj)"

definition destructed :: "backend \<Rightarrow> bool \<Rightarrow> stateObject \<Rightarrow> bytes set" where
  "destructed B d obj = (if (so_suicided obj \<or> (d \<and> so_empty B obj)) \<and> snap B \<noteq> None then {so_addrHash obj} else {})"

lemma restrict_simps: "m |` (- {h}) = m(h := None)" "m |` UNIV = m"
  by (rule HOL.ext, simp add: restrict_map_def)+

lemma restrict_swap: "(m |` A) |` B = (m |` B) |` A"
  by (rule HOL.ext) (simp add: restrict_map_def)

lemma finalise_addr_fields:
  "finalise_addr B d a s =
     (case stateObjects s a of
        None \<Rightarrow> s
      | Some obj \<Rightarrow> s\<lparr>snapDestructs := destructed B d obj \<union> snapDestructs s,
          snapAccounts := snapAccounts s |` (- destructed B d obj), snapStorage := snapStorage s |` (- destructed B d obj),
          stateObjects := (stateObjects s)(a \<mapsto> finalised B d obj),
          stateObjectsPending := insert a (stateObjectsPending s), stateObjectsDirty := insert a (stateObjectsDirty s)\<rparr>)"
proof (cases "stateObjects s a")
  case None
  then show ?thesis by (simp add: finalise_addr_def)
next
  case (Some obj)
  show ?thesis
    by (cases "so_suicided obj \<or> (d \<and> so_empty B obj)"; cases "snap B = None"; cases s)
      (use Some in \<open>auto simp: finalise_addr_def Let_def finalised_def destructed_def restrict_simps\<close>)
qed

lemma finalise_commute:
  assumes "a \<noteq> b"
  shows "finalise_addr B d a (finalise_addr B d b s) = finalise_addr B d b (finalise_addr B d a s)"
proof (cases "stateObjects s a = None \<or> stateObjects s b = None")
  case True
  have skip: "finalise_addr B d x t = t" if "stateObjects t x = None" for x t using that by (simp add: finalise_addr_fields)
  have other: "stateObjects (finalise_addr B d x t) y = stateObjects t y" if "x \<noteq> y" for x y t
    using that by (simp add: finalise_addr_fields split: option.split)
  from True assms show ?thesis by (auto simp: skip other)
next
  case False
  then obtain oa ob where o: "stateObjects s a = Some oa" "stateObjects s b = Some ob" by auto
  let ?A = "destructed B d oa" and ?B = "destructed B d ob"
  have "?A \<union> (?B \<union> snapDestructs s) = ?B \<union> (?A \<union> snapDestructs s)" by blast
  moreover have "(stateObjects s)(b \<mapsto> finalised B d ob, a \<mapsto> finalised B d oa) = (stateObjects s)(a \<mapsto> finalised B d oa, b \<mapsto> finalised B d ob)"
    using assms by (simp add: fun_upd_twist)
  ultimately show ?thesis using assms o
    by (simp add: finalise_addr_fields insert_commute [of a b] restrict_swap [of _ "- ?B" "- ?A"] del: restrict_restrict)
qed

lemma foldl_permuted:
  assumes "\<And>x y s. f (f s x) y = f (f s y) x" "mset xs = mset ys"
  shows "foldl f s xs = foldl f s ys"
proof -
  have "fold (\<lambda>x s. f s x) xs s = fold (\<lambda>x s. f s x) ys s"
    by (rule fold_permuted_eq [where P = "\<lambda>_. True"]) (use assms in auto)
  then show ?thesis by (simp add: foldl_conv_fold)
qed

text \<open>C23: \<^verbatim>\<open>Finalise\<close> does not depend on the order in which the Go map \<^verbatim>\<open>journal.dirties\<close> is traversed.\<close>

theorem Finalise_order:
  assumes "mset order = mset order'"
  shows "Finalise B d order s = Finalise B d order' s"
proof -
  have "finalise_addr B d y (finalise_addr B d x t) = finalise_addr B d x (finalise_addr B d y t)" for x y t
    by (cases "x = y") (simp_all add: finalise_commute)
  then show ?thesis using assms by (simp add: Finalise_def foldl_permuted [of _ order order'])
qed

theorem Finalise_order_witness:
  "Finalise empty_backend True [1, 2] state_New = Finalise empty_backend True [2, 1] state_New"
  by (rule Finalise_order) simp

end
