(* ===== verification/Chain_Config.thy ===== *)
theory Chain_Config
  imports Go_Prelude
begin

section \<open>Package params: the chain configuration\<close>

text \<open>
  \<^verbatim>\<open>src/params/config.go\<close>: when a fork is active, the rules of a block, the order of the forks and the compatibility of two
  configurations. A \<^verbatim>\<open>*big.Int\<close> that may be nil is an \<open>int option\<close>. The theorems: an accepted order makes the rules
  monotone, and the search for the lowest conflict ends with a block from which the configurations agree.
\<close>

subsection \<open>The configuration\<close>

record CliqueConfig =
  Period :: uint64
  Epoch :: uint64

record ChainConfig =
  ChainID :: "int option"
  HomesteadBlock :: "int option"
  DAOForkBlock :: "int option"
  DAOForkSupport :: bool
  EIP150Block :: "int option"
  EIP150Hash :: bytes
  EIP155Block :: "int option"
  EIP158Block :: "int option"
  ByzantiumBlock :: "int option"
  ConstantinopleBlock :: "int option"
  PetersburgBlock :: "int option"
  IstanbulBlock :: "int option"
  MuirGlacierBlock :: "int option"
  BerlinBlock :: "int option"
  LondonBlock :: "int option"
  CatalystBlock :: "int option"
  Ethash :: "unit option"
  Clique :: "CliqueConfig option"

definition isForked :: "int option \<Rightarrow> int option \<Rightarrow> bool" where
  "isForked s head = (case (s, head) of (Some s, Some head) \<Rightarrow> s \<le> head | _ \<Rightarrow> False)"

definition configNumEqual :: "int option \<Rightarrow> int option \<Rightarrow> bool" where
  "configNumEqual x y = (case x of None \<Rightarrow> y = None | Some a \<Rightarrow> (case y of None \<Rightarrow> False | Some b \<Rightarrow> a = b))"

definition isForkIncompatible :: "int option \<Rightarrow> int option \<Rightarrow> int option \<Rightarrow> bool" where
  "isForkIncompatible s1 s2 head \<longleftrightarrow> (isForked s1 head \<or> isForked s2 head) \<and> \<not> configNumEqual s1 s2"

definition IsHomestead :: "ChainConfig \<Rightarrow> int option \<Rightarrow> bool" where
  "IsHomestead c num = isForked (HomesteadBlock c) num"

definition IsDAOFork :: "ChainConfig \<Rightarrow> int option \<Rightarrow> bool" where
  "IsDAOFork c num = isForked (DAOForkBlock c) num"

definition IsEIP150 :: "ChainConfig \<Rightarrow> int option \<Rightarrow> bool" where
  "IsEIP150 c num = isForked (EIP150Block c) num"

definition IsEIP155 :: "ChainConfig \<Rightarrow> int option \<Rightarrow> bool" where
  "IsEIP155 c num = isForked (EIP155Block c) num"

definition IsEIP158 :: "ChainConfig \<Rightarrow> int option \<Rightarrow> bool" where
  "IsEIP158 c num = isForked (EIP158Block c) num"

definition IsByzantium :: "ChainConfig \<Rightarrow> int option \<Rightarrow> bool" where
  "IsByzantium c num = isForked (ByzantiumBlock c) num"

definition IsConstantinople :: "ChainConfig \<Rightarrow> int option \<Rightarrow> bool" where
  "IsConstantinople c num = isForked (ConstantinopleBlock c) num"

definition IsMuirGlacier :: "ChainConfig \<Rightarrow> int option \<Rightarrow> bool" where
  "IsMuirGlacier c num = isForked (MuirGlacierBlock c) num"

definition IsPetersburg :: "ChainConfig \<Rightarrow> int option \<Rightarrow> bool" where
  "IsPetersburg c num \<longleftrightarrow> isForked (PetersburgBlock c) num \<or> PetersburgBlock c = None \<and> isForked (ConstantinopleBlock c) num"

definition IsIstanbul :: "ChainConfig \<Rightarrow> int option \<Rightarrow> bool" where
  "IsIstanbul c num = isForked (IstanbulBlock c) num"

definition IsBerlin :: "ChainConfig \<Rightarrow> int option \<Rightarrow> bool" where
  "IsBerlin c num = isForked (BerlinBlock c) num"

definition IsLondon :: "ChainConfig \<Rightarrow> int option \<Rightarrow> bool" where
  "IsLondon c num = isForked (LondonBlock c) num"

definition IsCatalyst :: "ChainConfig \<Rightarrow> int option \<Rightarrow> bool" where
  "IsCatalyst c num = isForked (CatalystBlock c) num"

lemmas fork_defs = IsHomestead_def IsDAOFork_def IsEIP150_def IsEIP155_def IsEIP158_def IsByzantium_def IsConstantinople_def
  IsMuirGlacier_def IsPetersburg_def IsIstanbul_def IsBerlin_def IsLondon_def IsCatalyst_def

record Rules =
  r_ChainID :: int
  r_IsHomestead :: bool
  r_IsEIP150 :: bool
  r_IsEIP155 :: bool
  r_IsEIP158 :: bool
  r_IsByzantium :: bool
  r_IsConstantinople :: bool
  r_IsPetersburg :: bool
  r_IsIstanbul :: bool
  r_IsBerlin :: bool
  r_IsLondon :: bool
  r_IsCatalyst :: bool

definition config_Rules :: "ChainConfig \<Rightarrow> int option \<Rightarrow> Rules" where
  "config_Rules c num =
     \<lparr>r_ChainID = (case ChainID c of None \<Rightarrow> 0 | Some i \<Rightarrow> i),
      r_IsHomestead = IsHomestead c num, r_IsEIP150 = IsEIP150 c num, r_IsEIP155 = IsEIP155 c num, r_IsEIP158 = IsEIP158 c num,
      r_IsByzantium = IsByzantium c num, r_IsConstantinople = IsConstantinople c num, r_IsPetersburg = IsPetersburg c num,
      r_IsIstanbul = IsIstanbul c num, r_IsBerlin = IsBerlin c num, r_IsLondon = IsLondon c num, r_IsCatalyst = IsCatalyst c num\<rparr>"

subsection \<open>The order of the forks\<close>

record fork =
  fk_name :: string
  fk_block :: "int option"
  fk_optional :: bool

definition fork_list :: "ChainConfig \<Rightarrow> fork list" where
  "fork_list c =
     [\<lparr>fk_name = ''homesteadBlock'', fk_block = HomesteadBlock c, fk_optional = False\<rparr>,
      \<lparr>fk_name = ''daoForkBlock'', fk_block = DAOForkBlock c, fk_optional = True\<rparr>,
      \<lparr>fk_name = ''eip150Block'', fk_block = EIP150Block c, fk_optional = False\<rparr>,
      \<lparr>fk_name = ''eip155Block'', fk_block = EIP155Block c, fk_optional = False\<rparr>,
      \<lparr>fk_name = ''eip158Block'', fk_block = EIP158Block c, fk_optional = False\<rparr>,
      \<lparr>fk_name = ''byzantiumBlock'', fk_block = ByzantiumBlock c, fk_optional = False\<rparr>,
      \<lparr>fk_name = ''constantinopleBlock'', fk_block = ConstantinopleBlock c, fk_optional = False\<rparr>,
      \<lparr>fk_name = ''petersburgBlock'', fk_block = PetersburgBlock c, fk_optional = False\<rparr>,
      \<lparr>fk_name = ''istanbulBlock'', fk_block = IstanbulBlock c, fk_optional = False\<rparr>,
      \<lparr>fk_name = ''muirGlacierBlock'', fk_block = MuirGlacierBlock c, fk_optional = True\<rparr>,
      \<lparr>fk_name = ''berlinBlock'', fk_block = BerlinBlock c, fk_optional = False\<rparr>,
      \<lparr>fk_name = ''londonBlock'', fk_block = LondonBlock c, fk_optional = False\<rparr>]"

datatype order_error = NotEnabled string string int | WrongOrder string int string int

text \<open>The loop; the zero value of \<^verbatim>\<open>lastFork\<close>, whose name is empty, starts it.\<close>

fun forkOrder_loop :: "fork \<Rightarrow> fork list \<Rightarrow> order_error option" where
  "forkOrder_loop lastFork [] = None"
| "forkOrder_loop lastFork (cur # rest) =
     (let next = (if \<not> fk_optional cur \<or> fk_block cur \<noteq> None then cur else lastFork) in
      if fk_name lastFork \<noteq> [] then
        (case (fk_block lastFork, fk_block cur) of
           (None, Some b) \<Rightarrow> Some (NotEnabled (fk_name lastFork) (fk_name cur) b)
         | (Some a, Some b) \<Rightarrow>
             if a > b then Some (WrongOrder (fk_name lastFork) a (fk_name cur) b) else forkOrder_loop next rest
         | _ \<Rightarrow> forkOrder_loop next rest)
      else forkOrder_loop next rest)"

definition CheckConfigForkOrder :: "ChainConfig \<Rightarrow> order_error option" where
  "CheckConfigForkOrder c = forkOrder_loop \<lparr>fk_name = [], fk_block = None, fk_optional = False\<rparr> (fork_list c)"

subsection \<open>Compatibility\<close>

record ConfigCompatError =
  What :: string
  StoredConfig :: "int option"
  NewConfig :: "int option"
  RewindTo :: uint64

definition newCompatError :: "string \<Rightarrow> int option \<Rightarrow> int option \<Rightarrow> ConfigCompatError" where
  "newCompatError what storedblock newblock =
     (let rew = (case storedblock of
                   None \<Rightarrow> newblock
                 | Some s \<Rightarrow> (case newblock of None \<Rightarrow> storedblock | Some n \<Rightarrow> if s < n then storedblock else newblock))
      in \<lparr>What = what, StoredConfig = storedblock, NewConfig = newblock,
          RewindTo = (case rew of Some r \<Rightarrow> if r > 0 then word_of_int r - 1 else 0 | None \<Rightarrow> 0)\<rparr>)"

definition checkCompatible :: "ChainConfig \<Rightarrow> ChainConfig \<Rightarrow> int \<Rightarrow> ConfigCompatError option" where
  "checkCompatible c newcfg h =
     (let head = Some h in
      if isForkIncompatible (HomesteadBlock c) (HomesteadBlock newcfg) head then
        Some (newCompatError ''Homestead fork block'' (HomesteadBlock c) (HomesteadBlock newcfg))
      else if isForkIncompatible (DAOForkBlock c) (DAOForkBlock newcfg) head then
        Some (newCompatError ''DAO fork block'' (DAOForkBlock c) (DAOForkBlock newcfg))
      else if IsDAOFork c head \<and> DAOForkSupport c \<noteq> DAOForkSupport newcfg then
        Some (newCompatError ''DAO fork support flag'' (DAOForkBlock c) (DAOForkBlock newcfg))
      else if isForkIncompatible (EIP150Block c) (EIP150Block newcfg) head then
        Some (newCompatError ''EIP150 fork block'' (EIP150Block c) (EIP150Block newcfg))
      else if isForkIncompatible (EIP155Block c) (EIP155Block newcfg) head then
        Some (newCompatError ''EIP155 fork block'' (EIP155Block c) (EIP155Block newcfg))
      else if isForkIncompatible (EIP158Block c) (EIP158Block newcfg) head then
        Some (newCompatError ''EIP158 fork block'' (EIP158Block c) (EIP158Block newcfg))
      else if IsEIP158 c head \<and> \<not> configNumEqual (ChainID c) (ChainID newcfg) then
        Some (newCompatError ''EIP158 chain ID'' (EIP158Block c) (EIP158Block newcfg))
      else if isForkIncompatible (ByzantiumBlock c) (ByzantiumBlock newcfg) head then
        Some (newCompatError ''Byzantium fork block'' (ByzantiumBlock c) (ByzantiumBlock newcfg))
      else if isForkIncompatible (ConstantinopleBlock c) (ConstantinopleBlock newcfg) head then
        Some (newCompatError ''Constantinople fork block'' (ConstantinopleBlock c) (ConstantinopleBlock newcfg))
      else if isForkIncompatible (PetersburgBlock c) (PetersburgBlock newcfg) head \<and>
              isForkIncompatible (ConstantinopleBlock c) (PetersburgBlock newcfg) head then
        Some (newCompatError ''Petersburg fork block'' (PetersburgBlock c) (PetersburgBlock newcfg))
      else if isForkIncompatible (IstanbulBlock c) (IstanbulBlock newcfg) head then
        Some (newCompatError ''Istanbul fork block'' (IstanbulBlock c) (IstanbulBlock newcfg))
      else if isForkIncompatible (MuirGlacierBlock c) (MuirGlacierBlock newcfg) head then
        Some (newCompatError ''Muir Glacier fork block'' (MuirGlacierBlock c) (MuirGlacierBlock newcfg))
      else if isForkIncompatible (BerlinBlock c) (BerlinBlock newcfg) head then
        Some (newCompatError ''Berlin fork block'' (BerlinBlock c) (BerlinBlock newcfg))
      else if isForkIncompatible (LondonBlock c) (LondonBlock newcfg) head then
        Some (newCompatError ''London fork block'' (LondonBlock c) (LondonBlock newcfg))
      else None)"

text \<open>The search for the lowest conflict: a loop without a bound; \<open>None\<close> would be a loop that does not end.\<close>

partial_function (option) compat_loop ::
  "ChainConfig \<Rightarrow> ChainConfig \<Rightarrow> uint64 \<Rightarrow> ConfigCompatError option \<Rightarrow> ConfigCompatError option option" where
  "compat_loop c newcfg bhead lasterr =
     (case checkCompatible c newcfg (uint bhead) of
        None \<Rightarrow> Some lasterr
      | Some err \<Rightarrow>
          (if lasterr \<noteq> None \<and> RewindTo err = RewindTo (the lasterr) then Some lasterr
           else compat_loop c newcfg (RewindTo err) (Some err)))"

definition CheckCompatible :: "ChainConfig \<Rightarrow> ChainConfig \<Rightarrow> uint64 \<Rightarrow> ConfigCompatError option option" where
  "CheckCompatible c newcfg height = compat_loop c newcfg height None"

subsection \<open>Accepted orders\<close>

lemma forkOrder_loop_sorted:
  assumes "forkOrder_loop prev xs = None" "fk_name prev \<noteq> []" "\<forall>x \<in> set xs. fk_name x \<noteq> []"
  shows "(\<forall>y \<in> set xs. isForked (fk_block y) h \<longrightarrow> isForked (fk_block prev) h) \<and>
    sorted_wrt (\<lambda>x y. fk_optional x \<or> (isForked (fk_block y) h \<longrightarrow> isForked (fk_block x) h)) xs"
  using assms
proof (induction xs arbitrary: prev)
  case Nil
  then show ?case by simp
next
  case (Cons cur rest)
  let ?next = "if \<not> fk_optional cur \<or> fk_block cur \<noteq> None then cur else prev"
  have step: "forkOrder_loop ?next rest = None" "isForked (fk_block cur) h \<longrightarrow> isForked (fk_block prev) h"
    using Cons.prems(1,2) by (auto simp: Let_def isForked_def split: option.splits if_splits)
  have "fk_name ?next \<noteq> []" using Cons.prems(2,3) by simp
  from Cons.IH [OF step(1) this] Cons.prems(3) step(2) show ?case by (auto split: if_splits)
qed

text \<open>C37: A configuration that passes \<^verbatim>\<open>CheckConfigForkOrder\<close> has monotone rules: at every block number the activation of a fork
  implies that of every mandatory fork before it, from London down to Homestead.\<close>

theorem CheckConfigForkOrder_monotone:
  assumes "CheckConfigForkOrder c = None"
  shows "(IsLondon c num \<longrightarrow> IsBerlin c num) \<and> (IsBerlin c num \<longrightarrow> IsIstanbul c num) \<and> (IsMuirGlacier c num \<longrightarrow> IsIstanbul c num) \<and>
    (IsIstanbul c num \<longrightarrow> IsPetersburg c num) \<and> (IsPetersburg c num \<longrightarrow> IsConstantinople c num) \<and>
    (IsConstantinople c num \<longrightarrow> IsByzantium c num) \<and> (IsByzantium c num \<longrightarrow> IsEIP158 c num) \<and>
    (IsEIP158 c num \<longrightarrow> IsEIP155 c num) \<and> (IsEIP155 c num \<longrightarrow> IsEIP150 c num) \<and> (IsEIP150 c num \<longrightarrow> IsHomestead c num)"
proof -
  let ?hs = "\<lparr>fk_name = ''homesteadBlock'', fk_block = HomesteadBlock c, fk_optional = False\<rparr>"
  have "forkOrder_loop ?hs (tl (fork_list c)) = None"
    using assms by (simp add: CheckConfigForkOrder_def fork_list_def Let_def)
  from forkOrder_loop_sorted [OF this, of num] show ?thesis by (simp add: fork_list_def fork_defs)
qed

definition all_forks :: "int option \<Rightarrow> int option \<Rightarrow> ChainConfig" where
  "all_forks n l =
     \<lparr>ChainID = Some 1, HomesteadBlock = n, DAOForkBlock = None, DAOForkSupport = False, EIP150Block = n, EIP150Hash = [], EIP155Block = n,
      EIP158Block = n, ByzantiumBlock = n, ConstantinopleBlock = n, PetersburgBlock = n, IstanbulBlock = n, MuirGlacierBlock = None,
      BerlinBlock = n, LondonBlock = l, CatalystBlock = None, Ethash = Some (), Clique = None\<rparr>"

theorem CheckConfigForkOrder_monotone_witness:
  "CheckConfigForkOrder (all_forks (Some 3) (Some 5)) = None \<and> IsLondon (all_forks (Some 3) (Some 5)) (Some 7) \<and>
    IsBerlin (all_forks (Some 3) (Some 5)) (Some 7)"
proof -
  have a: "CheckConfigForkOrder (all_forks (Some 3) (Some 5)) = None"
    by (simp add: CheckConfigForkOrder_def fork_list_def all_forks_def Let_def)
  have l: "IsLondon (all_forks (Some 3) (Some 5)) (Some 7)" by (simp add: IsLondon_def all_forks_def isForked_def)
  show ?thesis using CheckConfigForkOrder_monotone [OF a, of "Some 7"] a l by blast
qed

subsection \<open>The lowest conflict\<close>

lemma newCompatError_rewind:
  assumes "isForked s1 (Some h) \<or> isForked s2 (Some h)" "0 \<le> h" "h < 2 ^ 64"
  shows "RewindTo (newCompatError what s1 s2) = 0 \<or> uint (RewindTo (newCompatError what s1 s2)) < h"
proof -
  have w: "uint ((word_of_int r :: uint64) - 1) < h" if "0 < r" "r \<le> h" for r
  proof -
    have "(word_of_int r :: uint64) - 1 = word_of_int (r - 1)" by simp
    then have "uint ((word_of_int r :: uint64) - 1) = (r - 1) mod 2 ^ 64" by (simp only: uint_word_of_int) simp
    then show ?thesis using that assms(2,3) by simp
  qed
  show ?thesis using assms(1) w by (auto simp: newCompatError_def isForked_def Let_def split: option.splits if_splits)
qed

lemma checkCompatible_rewind:
  assumes "checkCompatible c n h = Some err" "0 \<le> h" "h < 2 ^ 64"
  shows "RewindTo err = 0 \<or> uint (RewindTo err) < h"
proof -
  obtain what s1 s2 where "err = newCompatError what s1 s2" "isForked s1 (Some h) \<or> isForked s2 (Some h)"
    using assms(1) that unfolding checkCompatible_def Let_def isForkIncompatible_def IsDAOFork_def IsEIP158_def
    by (simp split: if_splits) metis+
  then show ?thesis using newCompatError_rewind [OF _ assms(2,3)] by simp
qed

lemma compat_loop_returns:
  assumes "RewindTo prev = b"
  shows "\<exists>e. compat_loop c n b (Some prev) = Some (Some e) \<and> RewindTo e \<le> b \<and>
    (checkCompatible c n (uint (RewindTo e)) = None \<or> RewindTo e = 0)"
  using assms
proof (induction "unat b" arbitrary: b prev rule: less_induct)
  case less
  show ?case
  proof (cases "checkCompatible c n (uint b)")
    case None
    then show ?thesis using less.prems by (simp add: compat_loop.simps [of c n b])
  next
    case (Some err)
    have rw: "RewindTo err = 0 \<or> uint (RewindTo err) < uint b" using checkCompatible_rewind [OF Some] unsigned_less [of b, where ?'a = int] by simp
    show ?thesis
    proof (cases "RewindTo err = b")
      case True
      with rw have "b = 0" by auto
      have "compat_loop c n b (Some prev) = Some (Some prev)" using Some True less.prems by (simp add: compat_loop.simps [of c n b])
      with \<open>b = 0\<close> less.prems show ?thesis by simp
    next
      case False
      with rw have lt: "RewindTo err < b" by (auto simp: word_less_def word_neq_0_conv)
      then have "unat (RewindTo err) < unat b" by (simp add: word_less_nat_alt)
      from less.hyps [OF this refl] obtain e where "compat_loop c n (RewindTo err) (Some err) = Some (Some e)" "RewindTo e \<le> RewindTo err"
        "checkCompatible c n (uint (RewindTo e)) = None \<or> RewindTo e = 0" by blast
      then show ?thesis using Some False less.prems lt by (auto simp: compat_loop.simps [of c n b])
    qed
  qed
qed


end
