(* ===== verification/Block_Header.thy ===== *)
theory Block_Header
  imports Chain_Config State_DB
begin

section \<open>Packages core/types and consensus/misc: headers, gas limit and base fee\<close>

text \<open>
  \<^verbatim>\<open>src/core/types/block.go\<close> (the header and its hash), \<^verbatim>\<open>src/consensus/misc\<close> (gas limit, EIP-1559, fork hashes, DAO extra data),
  \<^verbatim>\<open>src/core/gaspool.go\<close> and \<^verbatim>\<open>CalcGasLimit\<close> of \<^verbatim>\<open>src/core/block_validator.go\<close>. The hash function is an argument \<open>H\<close>. Gas is kept as
  64-bit words with the signed conversions of the source; \<open>None\<close> as a result of a function that returns a value is a panic.
\<close>

subsection \<open>The header\<close>

record Header =
  h_ParentHash :: bytes
  h_UncleHash :: bytes
  h_Coinbase :: address
  h_Root :: bytes
  h_TxHash :: bytes
  h_ReceiptHash :: bytes
  h_Bloom :: bytes
  h_Difficulty :: int
  h_Number :: int
  h_GasLimit :: uint64
  h_GasUsed :: uint64
  h_Time :: uint64
  h_Extra :: bytes
  h_MixDigest :: bytes
  h_Nonce :: bytes
  h_BaseFee :: "int option"

definition header_goval :: "Header \<Rightarrow> goval" where
  "header_goval h =
     VPtr (VStruct
       [(VByteArray (h_ParentHash h), False, False), (VByteArray (h_UncleHash h), False, False),
        (VByteArray (addr_bytes (h_Coinbase h)), False, False), (VByteArray (h_Root h), False, False),
        (VByteArray (h_TxHash h), False, False), (VByteArray (h_ReceiptHash h), False, False), (VByteArray (h_Bloom h), False, False),
        (VBigIntPtr (Some (h_Difficulty h)), False, False), (VBigIntPtr (Some (h_Number h)), False, False),
        (VUint (h_GasLimit h), False, False), (VUint (h_GasUsed h), False, False), (VUint (h_Time h), False, False),
        (VBytes (h_Extra h), False, False), (VByteArray (h_MixDigest h), False, False), (VByteArray (h_Nonce h), False, False),
        (VBigIntPtr (h_BaseFee h), True, h_BaseFee h = None)])"

definition rlpHash :: "(bytes \<Rightarrow> bytes) \<Rightarrow> goval \<Rightarrow> bytes" where
  "rlpHash H x = H (case EncodeToBytes x of Inr b \<Rightarrow> b | Inl _ \<Rightarrow> [])"

definition Header_Hash :: "(bytes \<Rightarrow> bytes) \<Rightarrow> Header \<Rightarrow> bytes" where
  "Header_Hash H h = rlpHash H (header_goval h)"

definition EmptyUncleHash :: "(bytes \<Rightarrow> bytes) \<Rightarrow> bytes" where
  "EmptyUncleHash H = rlpHash H (VSlice False [])"

datatype sanity_error = LargeNumber | LargeDifficulty | LargeExtra | LargeBaseFee

definition SanityCheck :: "Header \<Rightarrow> sanity_error option" where
  "SanityCheck h =
     (if \<not> (0 \<le> h_Number h \<and> h_Number h < 2 ^ 64) then Some LargeNumber
      else if bitlen (nat \<bar>h_Difficulty h\<bar>) > 80 then Some LargeDifficulty
      else if length (h_Extra h) > 100 * 1024 then Some LargeExtra
      else (case h_BaseFee h of
              Some b \<Rightarrow> if bitlen (nat \<bar>b\<bar>) > 256 then Some LargeBaseFee else None
            | None \<Rightarrow> None))"

subsection \<open>Gas\<close>

definition GasLimitBoundDivisor :: uint64 where "GasLimitBoundDivisor = 1024"
definition MinGasLimit :: uint64 where "MinGasLimit = 5000"
definition ElasticityMultiplier :: uint64 where "ElasticityMultiplier = 2"
definition BaseFeeChangeDenominator :: int where "BaseFeeChangeDenominator = 8"
definition InitialBaseFee :: int where "InitialBaseFee = 1000000000"

lemmas gas_consts = GasLimitBoundDivisor_def MinGasLimit_def ElasticityMultiplier_def BaseFeeChangeDenominator_def InitialBaseFee_def

definition AddGas :: "uint64 \<Rightarrow> uint64 \<Rightarrow> uint64 option" where
  "AddGas gp amount = (if gp > -1 - amount then None else Some (gp + amount))"

definition SubGas :: "uint64 \<Rightarrow> uint64 \<Rightarrow> uint64 option" where
  "SubGas gp amount = (if gp < amount then None else Some (gp - amount))"

definition CalcGasLimit :: "uint64 \<Rightarrow> uint64 \<Rightarrow> uint64" where
  "CalcGasLimit parentGasLimit desiredLimit =
     (let delta = parentGasLimit div GasLimitBoundDivisor - 1;
          desiredLimit = (if desiredLimit < MinGasLimit then MinGasLimit else desiredLimit)
      in if parentGasLimit < desiredLimit then
           (let limit = parentGasLimit + delta in if limit > desiredLimit then desiredLimit else limit)
         else if parentGasLimit > desiredLimit then
           (let limit = parentGasLimit - delta in if limit < desiredLimit then desiredLimit else limit)
         else parentGasLimit)"

datatype header_error =
    ExtraTooLong | FutureBlock | OlderBlockTime | InvalidDifficulty | GasLimitCap | InvalidGasUsed | BaseFeeBeforeFork
  | InvalidGasLimit | GasLimitBelowMin | MissingBaseFee | InvalidBaseFee | InvalidNumber | BadSeal | BadProDAOExtra | BadNoDAOExtra
  | BadForkHash | HeaderPanic

text \<open>\<^verbatim>\<open>int64(a) - int64(b)\<close> is the subtraction of words, the sign of the result is read by \<open>sint\<close>.\<close>

definition VerifyGaslimit :: "uint64 \<Rightarrow> uint64 \<Rightarrow> header_error option" where
  "VerifyGaslimit parentGasLimit headerGasLimit =
     (let diff = parentGasLimit - headerGasLimit;
          diff = (if sint diff < 0 then - diff else diff);
          limit = parentGasLimit div GasLimitBoundDivisor
      in if diff \<ge> limit then Some InvalidGasLimit
         else if headerGasLimit < MinGasLimit then Some GasLimitBelowMin else None)"

definition CalcBaseFee :: "ChainConfig \<Rightarrow> Header \<Rightarrow> int option" where
  "CalcBaseFee config parent =
     (if \<not> IsLondon config (Some (h_Number parent)) then Some InitialBaseFee
      else
        (let parentGasTarget = h_GasLimit parent div ElasticityMultiplier in
         case h_BaseFee parent of
           None \<Rightarrow> None
         | Some baseFee \<Rightarrow>
             if h_GasUsed parent = parentGasTarget then Some baseFee
             else if parentGasTarget = 0 then None
             else if h_GasUsed parent > parentGasTarget then
               (let gasUsedDelta = uint (h_GasUsed parent - parentGasTarget);
                    y = baseFee * gasUsedDelta div uint parentGasTarget;
                    baseFeeDelta = max (y div BaseFeeChangeDenominator) 1
                in Some (baseFee + baseFeeDelta))
             else
               (let gasUsedDelta = uint (parentGasTarget - h_GasUsed parent);
                    y = baseFee * gasUsedDelta div uint parentGasTarget;
                    baseFeeDelta = y div BaseFeeChangeDenominator
                in Some (max (baseFee - baseFeeDelta) 0))))"

definition VerifyEip1559Header :: "ChainConfig \<Rightarrow> Header \<Rightarrow> Header \<Rightarrow> header_error option" where
  "VerifyEip1559Header config parent header =
     (let parentGasLimit =
        (if \<not> IsLondon config (Some (h_Number parent)) then h_GasLimit parent * ElasticityMultiplier else h_GasLimit parent)
      in case VerifyGaslimit parentGasLimit (h_GasLimit header) of
           Some err \<Rightarrow> Some err
         | None \<Rightarrow>
             (case h_BaseFee header of
                None \<Rightarrow> Some MissingBaseFee
              | Some baseFee \<Rightarrow>
                  (case CalcBaseFee config parent of
                     None \<Rightarrow> Some HeaderPanic
                   | Some expectedBaseFee \<Rightarrow> if baseFee \<noteq> expectedBaseFee then Some InvalidBaseFee else None)))"

subsection \<open>Forks\<close>

definition VerifyForkHashes :: "(bytes \<Rightarrow> bytes) \<Rightarrow> ChainConfig \<Rightarrow> Header \<Rightarrow> bool \<Rightarrow> header_error option" where
  "VerifyForkHashes H config header uncle =
     (if uncle then None
      else if EIP150Block config = Some (h_Number header) \<and> EIP150Hash config \<noteq> zeroHash \<and> EIP150Hash config \<noteq> Header_Hash H header
      then Some BadForkHash else None)"

definition DAOForkBlockExtra :: bytes where
  "DAOForkBlockExtra = [0x64, 0x61, 0x6f, 0x2d, 0x68, 0x61, 0x72, 0x64, 0x2d, 0x66, 0x6f, 0x72, 0x6b]"

definition DAOForkExtraRange :: int where "DAOForkExtraRange = 10"

definition VerifyDAOHeaderExtraData :: "ChainConfig \<Rightarrow> Header \<Rightarrow> header_error option" where
  "VerifyDAOHeaderExtraData config header =
     (case DAOForkBlock config of
        None \<Rightarrow> None
      | Some forkBlock \<Rightarrow>
          (let limit = forkBlock + DAOForkExtraRange in
           if h_Number header < forkBlock \<or> h_Number header \<ge> limit then None
           else if DAOForkSupport config then
             (if h_Extra header \<noteq> DAOForkBlockExtra then Some BadProDAOExtra else None)
           else (if h_Extra header = DAOForkBlockExtra then Some BadNoDAOExtra else None)))"

subsection \<open>The gas limit\<close>

lemma sint_diff:
  fixes p h :: uint64
  assumes "\<bar>uint p - uint h\<bar> < 2 ^ 63"
  shows "sint (p - h) = uint p - uint h"
proof -
  have "sint (p - h) = signed_take_bit 63 (take_bit 64 (uint p - uint h))"
    by (simp add: sint_uint uint_word_ariths take_bit_eq_mod)
  then have "sint (p - h) = signed_take_bit 63 (uint p - uint h)" by (simp add: signed_take_bit_take_bit)
  then show ?thesis using assms by (simp add: signed_take_bit_int_eq_self)
qed

lemma uint_abs_diff:
  fixes p h :: uint64
  assumes "\<bar>uint p - uint h\<bar> < 2 ^ 63"
  shows "uint (if sint (p - h) < 0 then - (p - h) else p - h) = \<bar>uint p - uint h\<bar>"
  unfolding sint_diff [OF assms] by (auto simp: uint_sub_lem [THEN iffD1])

lemma div_uint: "uint (x div y) = uint x div uint (y :: uint64)"
  by (simp add: uint_div_distrib)

lemma VerifyGaslimit_near:
  assumes "\<bar>uint p - uint h\<bar> < 2 ^ 63"
  shows "VerifyGaslimit p h = None \<longleftrightarrow> \<bar>uint p - uint h\<bar> < uint p div 1024 \<and> 5000 \<le> uint h"
proof -
  let ?d = "if sint (p - h) < 0 then - (p - h) else p - h"
  have "VerifyGaslimit p h = None \<longleftrightarrow> ?d < p div 1024 \<and> 5000 \<le> h"
    unfolding VerifyGaslimit_def Let_def gas_consts by (simp add: not_le not_less)
  then show ?thesis unfolding word_less_def word_le_def div_uint uint_abs_diff [OF assms] by simp
qed

text \<open>C34: For gas limits below \<open>2^63\<close>, which the header verification enforces, the test with signed 64-bit arithmetic accepts a gas
  limit exactly when it differs from the parent's by less than 1/1024 of it and is at least 5000.\<close>

theorem VerifyGaslimit_exact:
  assumes "uint p < 2 ^ 63" "uint h < 2 ^ 63"
  shows "VerifyGaslimit p h = None \<longleftrightarrow> \<bar>uint p - uint h\<bar> < uint p div 1024 \<and> 5000 \<le> uint h"
proof -
  have "0 \<le> uint p" "0 \<le> uint h" by simp_all
  with assms have "\<bar>uint p - uint h\<bar> < 2 ^ 63" by linarith
  then show ?thesis by (rule VerifyGaslimit_near)
qed

theorem VerifyGaslimit_exact_witness: "VerifyGaslimit 8000000 8007811 = None \<and> VerifyGaslimit 8000000 8007812 \<noteq> None"
  using VerifyGaslimit_exact [of 8000000 8007811] VerifyGaslimit_exact [of 8000000 8007812] by simp


text \<open>C36: The limit that the miner proposes is one that the verification accepts, whatever limit is desired.\<close>

theorem CalcGasLimit_accepted:
  assumes "5000 \<le> uint p" "uint p + uint p div 1024 < 2 ^ 64"
  shows "VerifyGaslimit p (CalcGasLimit p d) = None"
proof -
  define m where "m = uint p div 1024"
  have m: "4 \<le> m" "m < 2 ^ 54" "m \<le> uint p" "uint p + m < 2 ^ 64" using assms by (auto simp: m_def)
  have delta: "uint (p div 1024 - 1) = m - 1"
    using m by (subst uint_sub_lem [THEN iffD1]) (simp_all add: div_uint word_le_def m_def)
  have plus: "uint (p + (p div 1024 - 1)) = uint p + m - 1"
    using m by (subst uint_add_lem [THEN iffD1]) (simp_all add: delta)
  have minus: "uint (p - (p div 1024 - 1)) = uint p - m + 1"
    using m by (subst uint_sub_lem [THEN iffD1]) (simp_all add: delta word_le_def)
  have c: "\<bar>uint p - uint (CalcGasLimit p d)\<bar> < m \<and> 5000 \<le> uint (CalcGasLimit p d)"
    using m(1-3) assms(1) unfolding CalcGasLimit_def Let_def gas_consts word_less_def by (auto simp: plus minus)
  then show ?thesis using m by (intro VerifyGaslimit_near [THEN iffD2]) (auto simp: m_def)
qed

theorem CalcGasLimit_accepted_witness:
  "VerifyGaslimit 8000000 (CalcGasLimit 8000000 30000000) = None \<and> CalcGasLimit 8000000 30000000 = 8007811"
  using CalcGasLimit_accepted [of 8000000 30000000] by (simp add: CalcGasLimit_def gas_consts)

subsection \<open>The base fee\<close>


definition example_header :: Header where
  "example_header =
     \<lparr>h_ParentHash = zeroHash, h_UncleHash = zeroHash, h_Coinbase = 0, h_Root = zeroHash, h_TxHash = zeroHash, h_ReceiptHash = zeroHash,
      h_Bloom = replicate 256 0, h_Difficulty = 131072, h_Number = 10, h_GasLimit = 8000, h_GasUsed = 8000, h_Time = 100, h_Extra = [],
      h_MixDigest = zeroHash, h_Nonce = replicate 8 0, h_BaseFee = Some 80\<rparr>"


end
