(* ===== verification/Ethash_Difficulty.thy ===== *)
theory Ethash_Difficulty
  imports Block_Header
begin

section \<open>Package consensus/ethash: difficulty and header verification\<close>

text \<open>
  \<^verbatim>\<open>src/consensus/ethash/consensus.go\<close> (the difficulty adjustment on big integers and the verification of a header) and
  \<^verbatim>\<open>difficulty.go\<close> (the same on 256-bit integers). The package \<^verbatim>\<open>holiman/uint256\<close> is the record argument \<open>U\<close>, whose documented
  behaviour, arithmetic modulo \<open>2^256\<close>, is the hypothesis \<open>uint256_ok\<close>. The proof-of-work test \<^verbatim>\<open>verifySeal\<close> is an argument of the
  header verification. The theorems: the two implementations agree, and every chain of verified headers keeps the difficulty,
  time, number and gas invariants.
\<close>

subsection \<open>Big integers\<close>

definition DifficultyBoundDivisor :: int where "DifficultyBoundDivisor = 2048"
definition MinimumDifficulty :: int where "MinimumDifficulty = 131072"
definition DurationLimit :: int where "DurationLimit = 13"
definition expDiffPeriod :: int where "expDiffPeriod = 100000"

lemmas diff_consts = DifficultyBoundDivisor_def MinimumDifficulty_def DurationLimit_def expDiffPeriod_def

definition makeDifficultyCalculator :: "(bytes \<Rightarrow> bytes) \<Rightarrow> int \<Rightarrow> uint64 \<Rightarrow> Header \<Rightarrow> int" where
  "makeDifficultyCalculator H bombDelay time parent =
     (let bombDelayFromParent = bombDelay - 1;
          x = (uint time - uint (h_Time parent)) div 9;
          x = (if h_UncleHash parent = EmptyUncleHash H then 1 - x else 2 - x);
          x = (if x < -99 then -99 else x);
          y = h_Difficulty parent div DifficultyBoundDivisor;
          x = h_Difficulty parent + y * x;
          x = (if x < MinimumDifficulty then MinimumDifficulty else x);
          fakeBlockNumber = (if h_Number parent \<ge> bombDelayFromParent then h_Number parent - bombDelayFromParent else 0);
          periodCount = fakeBlockNumber div expDiffPeriod
      in if periodCount > 1 then x + 2 ^ nat (periodCount - 2) else x)"

definition calcDifficultyHomestead :: "uint64 \<Rightarrow> Header \<Rightarrow> int" where
  "calcDifficultyHomestead time parent =
     (let x = 1 - (uint time - uint (h_Time parent)) div 10;
          x = (if x < -99 then -99 else x);
          y = h_Difficulty parent div DifficultyBoundDivisor;
          x = h_Difficulty parent + y * x;
          x = (if x < MinimumDifficulty then MinimumDifficulty else x);
          periodCount = (h_Number parent + 1) div expDiffPeriod
      in if periodCount > 1 then x + 2 ^ nat (periodCount - 2) else x)"

definition calcDifficultyFrontier :: "uint64 \<Rightarrow> Header \<Rightarrow> int" where
  "calcDifficultyFrontier time parent =
     (let adjust = h_Difficulty parent div DifficultyBoundDivisor;
          diff = (if uint time - uint (h_Time parent) < DurationLimit then h_Difficulty parent + adjust
                  else h_Difficulty parent - adjust);
          diff = (if diff < MinimumDifficulty then MinimumDifficulty else diff);
          periodCount = (h_Number parent + 1) div expDiffPeriod
      in if periodCount > 1 then max (diff + 2 ^ nat (periodCount - 2)) MinimumDifficulty else diff)"

definition CalcDifficulty :: "(bytes \<Rightarrow> bytes) \<Rightarrow> ChainConfig \<Rightarrow> uint64 \<Rightarrow> Header \<Rightarrow> int" where
  "CalcDifficulty H config time parent =
     (let next = Some (h_Number parent + 1) in
      if IsCatalyst config next then 1
      else if IsLondon config next then makeDifficultyCalculator H 9700000 time parent
      else if IsMuirGlacier config next then makeDifficultyCalculator H 9000000 time parent
      else if IsConstantinople config next then makeDifficultyCalculator H 5000000 time parent
      else if IsByzantium config next then makeDifficultyCalculator H 3000000 time parent
      else if IsHomestead config next then calcDifficultyHomestead time parent
      else calcDifficultyFrontier time parent)"

subsection \<open>256-bit integers\<close>

type_synonym uint256 = "256 word"

record uint256_ops =
  u_FromBig :: "int \<Rightarrow> uint256"
  u_ToBig :: "uint256 \<Rightarrow> int"
  u_Rsh :: "uint256 \<Rightarrow> nat \<Rightarrow> uint256"
  u_Lsh :: "uint256 \<Rightarrow> nat \<Rightarrow> uint256"
  u_Add :: "uint256 \<Rightarrow> uint256 \<Rightarrow> uint256"
  u_Sub :: "uint256 \<Rightarrow> uint256 \<Rightarrow> uint256"
  u_Mul :: "uint256 \<Rightarrow> uint256 \<Rightarrow> uint256"
  u_LtUint64 :: "uint256 \<Rightarrow> uint64 \<Rightarrow> bool"
  u_SetUint64 :: "uint64 \<Rightarrow> uint256"
  u_SetOne :: uint256

definition uint256_ok :: "uint256_ops \<Rightarrow> bool" where
  "uint256_ok U \<longleftrightarrow>
     (\<forall>i. u_FromBig U i = word_of_int i) \<and> (\<forall>x. u_ToBig U x = uint x) \<and>
     (\<forall>x n. u_Rsh U x n = drop_bit n x) \<and> (\<forall>x n. u_Lsh U x n = push_bit n x) \<and>
     (\<forall>x y. u_Add U x y = x + y) \<and> (\<forall>x y. u_Sub U x y = x - y) \<and> (\<forall>x y. u_Mul U x y = x * y) \<and>
     (\<forall>x n. u_LtUint64 U x n \<longleftrightarrow> uint x < uint n) \<and> (\<forall>n. u_SetUint64 U n = ucast n) \<and> u_SetOne U = 1"

definition frontierDurationLimit :: uint64 where "frontierDurationLimit = 13"
definition minimumDifficulty :: uint64 where "minimumDifficulty = 131072"
definition expDiffPeriodUint :: uint64 where "expDiffPeriodUint = 100000"
definition difficultyBoundDivisor :: nat where "difficultyBoundDivisor = 11"

lemmas u256_consts = frontierDurationLimit_def minimumDifficulty_def expDiffPeriodUint_def difficultyBoundDivisor_def

text \<open>\<^verbatim>\<open>big.Int.Uint64\<close> takes the low 64 bits.\<close>

definition CalcDifficultyFrontierU256 :: "uint256_ops \<Rightarrow> uint64 \<Rightarrow> Header \<Rightarrow> int" where
  "CalcDifficultyFrontierU256 U time parent =
     (let pDiff = u_FromBig U (h_Difficulty parent);
          adjust = u_Rsh U pDiff difficultyBoundDivisor;
          pDiff = (if time - h_Time parent < frontierDurationLimit then u_Add U pDiff adjust else u_Sub U pDiff adjust);
          pDiff = (if u_LtUint64 U pDiff minimumDifficulty then u_SetUint64 U minimumDifficulty else pDiff);
          periodCount = (word_of_int (h_Number parent) + 1) div expDiffPeriodUint;
          pDiff = (if periodCount > 1 then u_Add U pDiff (u_Lsh U (u_SetOne U) (unat (periodCount - 2))) else pDiff)
      in u_ToBig U pDiff)"

definition CalcDifficultyHomesteadU256 :: "uint256_ops \<Rightarrow> uint64 \<Rightarrow> Header \<Rightarrow> int" where
  "CalcDifficultyHomesteadU256 U time parent =
     (let pDiff = u_FromBig U (h_Difficulty parent);
          adjust = u_Rsh U pDiff difficultyBoundDivisor;
          x = (time - h_Time parent) div 10;
          (x, neg) = (if x = 0 then (1, False) else if x \<ge> 100 then (99, True) else (x - 1, True));
          adjust = u_Mul U adjust (u_SetUint64 U x);
          pDiff = (if neg then u_Sub U pDiff adjust else u_Add U pDiff adjust);
          pDiff = (if u_LtUint64 U pDiff minimumDifficulty then u_SetUint64 U minimumDifficulty else pDiff);
          periodCount = (1 + word_of_int (h_Number parent)) div expDiffPeriodUint;
          pDiff = (if periodCount > 1 then u_Add U pDiff (u_Lsh U (u_SetOne U) (unat (periodCount - 2))) else pDiff)
      in u_ToBig U pDiff)"

definition MakeDifficultyCalculatorU256 :: "uint256_ops \<Rightarrow> (bytes \<Rightarrow> bytes) \<Rightarrow> int \<Rightarrow> uint64 \<Rightarrow> Header \<Rightarrow> int" where
  "MakeDifficultyCalculatorU256 U H bombDelay time parent =
     (let bombDelayFromParent = word_of_int bombDelay - 1 :: uint64;
          x = (time - h_Time parent) div 9;
          c = (if h_UncleHash parent \<noteq> EmptyUncleHash H then 2 else 1);
          xNeg = (x \<ge> c);
          x = (if xNeg then x - c else c - x);
          x = (if x > 99 then 99 else x);
          pDiff = u_FromBig U (h_Difficulty parent);
          z = u_Mul U (u_Rsh U pDiff difficultyBoundDivisor) (u_SetUint64 U x);
          y = (if xNeg then u_Sub U pDiff z else u_Add U pDiff z);
          y = (if u_LtUint64 U y minimumDifficulty then u_SetUint64 U minimumDifficulty else y);
          pNum = word_of_int (h_Number parent) :: uint64;
          y = (if pNum \<ge> bombDelayFromParent \<and> pNum - bombDelayFromParent \<ge> 2 * expDiffPeriodUint then
                 u_Add U (u_Lsh U (u_SetOne U) (unat ((pNum - bombDelayFromParent) div expDiffPeriodUint - 2))) y
               else y)
      in u_ToBig U y)"

subsection \<open>Verification of a header\<close>

definition ethash_verifyHeader ::
  "(bytes \<Rightarrow> bytes) \<Rightarrow> ChainConfig \<Rightarrow> (Header \<Rightarrow> header_error option) \<Rightarrow> Header \<Rightarrow> Header \<Rightarrow> bool \<Rightarrow> bool \<Rightarrow> uint64 \<Rightarrow>
     header_error option" where
  "ethash_verifyHeader H config verifySeal header parent uncle seal unixNow =
     (if length (h_Extra header) > 32 then Some ExtraTooLong
      else if \<not> uncle \<and> h_Time header > unixNow + 15 then Some FutureBlock
      else if h_Time header \<le> h_Time parent then Some OlderBlockTime
      else if CalcDifficulty H config (h_Time header) parent \<noteq> h_Difficulty header then Some InvalidDifficulty
      else if h_GasLimit header > 0x7fffffffffffffff then Some GasLimitCap
      else if h_GasUsed header > h_GasLimit header then Some InvalidGasUsed
      else
        (case (if \<not> IsLondon config (Some (h_Number header)) then
                 (if h_BaseFee header \<noteq> None then Some BaseFeeBeforeFork
                  else VerifyGaslimit (h_GasLimit parent) (h_GasLimit header))
               else VerifyEip1559Header config parent header) of
           Some err \<Rightarrow> Some err
         | None \<Rightarrow>
             if h_Number header - h_Number parent \<noteq> 1 then Some InvalidNumber
             else
               (case (if seal then verifySeal header else None) of
                  Some err \<Rightarrow> Some err
                | None \<Rightarrow>
                    (case VerifyDAOHeaderExtraData config header of
                       Some err \<Rightarrow> Some err
                     | None \<Rightarrow> VerifyForkHashes H config header uncle))))"

subsection \<open>The two implementations agree\<close>

lemma uint256_eval:
  assumes "uint256_ok U"
  shows "u_FromBig U i = word_of_int i" "u_ToBig U x = uint x" "u_Rsh U x n = drop_bit n x" "u_Lsh U x n = push_bit n x"
    "u_Add U x y = x + y" "u_Sub U x y = x - y" "u_Mul U x y = x * y" "u_LtUint64 U x m \<longleftrightarrow> uint x < uint m"
    "u_SetUint64 U m = ucast m" "u_SetOne U = 1"
  using assms by (simp_all add: uint256_ok_def)

lemma uint_plus: "uint (x :: 'a :: len word) + uint y < 2 ^ LENGTH('a) \<Longrightarrow> uint (x + y) = uint x + uint y"
  by (simp add: uint_add_lem)

lemma uint_minus: "uint y \<le> uint (x :: 'a :: len word) \<Longrightarrow> uint (x - y) = uint x - uint y"
  by (simp add: uint_sub_lem [THEN iffD1])

lemma uint_times: "uint (x :: 'a :: len word) * uint y < 2 ^ LENGTH('a) \<Longrightarrow> uint (x * y) = uint x * uint y"
  by (simp add: uint_mult_lem)

text \<open>The adjusted difficulty before the bomb: a factor of at most 99 of 1/2048 is added or taken away.\<close>

lemma adjust_u256:
  fixes x :: uint64
  assumes d: "0 \<le> d" "d < 2 ^ 250" and x: "uint x \<le> 99"
  defines "w \<equiv> word_of_int d :: uint256"
  shows "uint (w + drop_bit 11 w * ucast x) = d + d div 2048 * uint x" "uint (w - drop_bit 11 w * ucast x) = d - d div 2048 * uint x"
    "0 \<le> d - d div 2048 * uint x" "d + d div 2048 * uint x < 2 ^ 251" "d - d div 2048 * uint x < 2 ^ 251"
proof -
  have w: "uint w = d" using d by (simp add: w_def uint_word_of_int)
  have r: "uint (drop_bit 11 w) = d div 2048" by (simp add: drop_bit_eq_div uint_div_distrib w)
  have ux: "uint (ucast x :: uint256) = uint x" "0 \<le> uint x" using x by (simp_all add: unsigned_ucast_eq take_bit_int_eq_self_iff)
  have m: "0 \<le> d div 2048 * uint x" "d div 2048 * uint x \<le> d div 2048 * 99" using d x by (auto intro: mult_left_mono)
  have le: "d div 2048 * 99 \<le> d" using d by auto
  show b: "0 \<le> d - d div 2048 * uint x" "d + d div 2048 * uint x < 2 ^ 251" "d - d div 2048 * uint x < 2 ^ 251"
  proof -
    have "(2 :: int) ^ 251 = 2 * 2 ^ 250" by simp
    then show "0 \<le> d - d div 2048 * uint x" "d + d div 2048 * uint x < 2 ^ 251" "d - d div 2048 * uint x < 2 ^ 251"
      using m le d by linarith+
  qed
  have p: "uint (drop_bit 11 w * ucast x) = d div 2048 * uint x"
    by (subst uint_times) (use m le d in \<open>auto simp: r ux\<close>)
  show "uint (w + drop_bit 11 w * ucast x) = d + d div 2048 * uint x"
    by (subst uint_plus) (use b in \<open>auto simp: p w\<close>)
  show "uint (w - drop_bit 11 w * ucast x) = d - d div 2048 * uint x"
    by (subst uint_minus) (use b in \<open>auto simp: p w\<close>)
qed

lemma clamp_u256:
  "uint (if uint y < uint minimumDifficulty then ucast minimumDifficulty else y :: uint256) =
    (if uint y < MinimumDifficulty then MinimumDifficulty else uint y)"
  by (simp add: minimumDifficulty_def MinimumDifficulty_def)

lemma bomb_u256:
  assumes "uint y < 2 ^ 251" "k < 250"
  shows "uint (y + push_bit k 1 :: uint256) = uint y + 2 ^ k"
proof -
  have "(2 :: int) ^ k < 2 ^ 250" using assms(2) by (intro power_strict_increasing) simp_all
  then have lt: "(2 :: int) ^ k < 2 ^ 250" "(2 :: int) ^ k < 2 ^ 256" by auto
  have "uint (push_bit k 1 :: uint256) = take_bit 256 (push_bit k 1)" by (subst unsigned_push_bit_eq) simp
  also have "\<dots> = take_bit 256 (2 ^ k)" by (simp add: push_bit_eq_mult)
  also have "\<dots> = 2 ^ k" using lt(2) assms(2) by (simp add: take_bit_int_eq_self_iff)
  finally have p: "uint (push_bit k 1 :: uint256) = 2 ^ k" .
  show ?thesis by (subst uint_plus) (use assms lt in \<open>auto simp only: p, auto\<close>)
qed

text \<open>The bomb as both compute it.\<close>

lemma period_u256:
  assumes "0 \<le> n" "n < 25000000" "uint y < 2 ^ 251"
  defines "p \<equiv> (word_of_int n :: uint64) div expDiffPeriodUint"
  shows "uint (if p > 1 then y + push_bit (unat (p - 2)) 1 else y :: uint256) =
    (if n div expDiffPeriod > 1 then uint y + 2 ^ nat (n div expDiffPeriod - 2) else uint y)"
proof -
  have n: "uint (word_of_int n :: uint64) = n" using assms(1,2) by (simp add: uint_word_of_int)
  have p: "uint p = n div 100000" by (simp add: p_def div_uint n expDiffPeriodUint_def)
  show ?thesis
  proof (cases "n div 100000 > 1")
    case True
    then have "uint (p - 2) = n div 100000 - 2" by (subst uint_minus) (simp_all add: p)
    then have k: "unat (p - 2) = nat (n div 100000 - 2)" by (simp add: unat_eq_nat_uint)
    have "nat (n div 100000 - 2) < 250" using assms(2) by auto
    from True bomb_u256 [OF assms(3) this] show ?thesis by (simp only: expDiffPeriod_def word_less_def p k) simp
  qed (simp add: expDiffPeriod_def word_less_def p)
qed

text \<open>Minimum and bomb, the end of all three calculators.\<close>

lemma finish_u256:
  assumes "uint (y :: uint256) = x" "x < 2 ^ 251" "0 \<le> n" "n < 25000000"
  shows "uint (if (word_of_int n :: uint64) div expDiffPeriodUint > 1
      then (if uint y < uint minimumDifficulty then ucast minimumDifficulty else y) +
        push_bit (unat ((word_of_int n :: uint64) div expDiffPeriodUint - 2)) 1
      else (if uint y < uint minimumDifficulty then ucast minimumDifficulty else y) :: uint256) =
    (if n div expDiffPeriod > 1 then (if x < MinimumDifficulty then MinimumDifficulty else x) + 2 ^ nat (n div expDiffPeriod - 2)
     else (if x < MinimumDifficulty then MinimumDifficulty else x))"
proof -
  let ?c = "if uint y < uint minimumDifficulty then ucast minimumDifficulty else y"
  have c: "uint ?c = (if x < MinimumDifficulty then MinimumDifficulty else x)" using clamp_u256 [of y] unfolding assms(1) .
  then have "uint ?c < 2 ^ 251" using assms(2) by (simp add: MinimumDifficulty_def)
  from period_u256 [OF assms(3,4) this] show ?thesis unfolding c .
qed

lemma frontier_u256:
  assumes U: "uint256_ok U" and d: "0 \<le> h_Difficulty parent" "h_Difficulty parent < 2 ^ 250"
    and n: "0 \<le> h_Number parent" "h_Number parent < 24999999" and t: "h_Time parent \<le> time"
  shows "CalcDifficultyFrontierU256 U time parent = calcDifficultyFrontier time parent"
proof -
  let ?w = "word_of_int (h_Difficulty parent) :: uint256" and ?d = "h_Difficulty parent"
  have dt: "uint (time - h_Time parent) = uint time - uint (h_Time parent)" using t by (simp add: uint_minus word_le_def)
  let ?y = "if time - h_Time parent < frontierDurationLimit then ?w + drop_bit 11 ?w else ?w - drop_bit 11 ?w"
  let ?x = "if uint time - uint (h_Time parent) < DurationLimit then ?d + ?d div DifficultyBoundDivisor else ?d - ?d div DifficultyBoundDivisor"
  have y: "uint ?y = ?x" "?x < 2 ^ 251"
    using adjust_u256 [OF d, of 1] d by (auto simp: word_less_def dt u256_consts diff_consts)
  have n1: "(word_of_int (h_Number parent) :: uint64) + 1 = word_of_int (h_Number parent + 1)" by simp
  have "0 \<le> h_Number parent + 1" "h_Number parent + 1 < 25000000" using n by auto
  note fin = finish_u256 [OF y this]
  have mx: "max ((if i < MinimumDifficulty then MinimumDifficulty else i) + 2 ^ k) MinimumDifficulty =
      (if i < MinimumDifficulty then MinimumDifficulty else i) + 2 ^ k" for i k
  proof -
    have "MinimumDifficulty \<le> (if i < MinimumDifficulty then MinimumDifficulty else i) + 2 ^ k" by (rule add_increasing2) simp_all
    then show ?thesis by (rule max_absorb1)
  qed
  show ?thesis
    using fin unfolding CalcDifficultyFrontierU256_def calcDifficultyFrontier_def Let_def uint256_eval [OF U] difficultyBoundDivisor_def n1 mx .
qed

lemma homestead_u256:
  assumes U: "uint256_ok U" and d: "0 \<le> h_Difficulty parent" "h_Difficulty parent < 2 ^ 250"
    and n: "0 \<le> h_Number parent" "h_Number parent < 24999999" and t: "h_Time parent \<le> time"
  shows "CalcDifficultyHomesteadU256 U time parent = calcDifficultyHomestead time parent"
proof -
  let ?w = "word_of_int (h_Difficulty parent) :: uint256" and ?d = "h_Difficulty parent"
  define q where "q = (time - h_Time parent) div 10"
  define xn where "xn = (if q = 0 then (1, False) else if q \<ge> 100 then (99, True) else (q - 1, True))"
  have q: "uint q = (uint time - uint (h_Time parent)) div 10"
    using t by (simp add: q_def div_uint uint_minus word_le_def)
  let ?z = "1 - (uint time - uint (h_Time parent)) div 10"
  let ?f = "if ?z < -99 then -99 else ?z"
  have f: "uint (fst xn) \<le> 99" "?f = (if snd xn then - uint (fst xn) else uint (fst xn))"
  proof -
    have q0: "q = 0 \<longleftrightarrow> uint q = 0" "q \<ge> 100 \<longleftrightarrow> uint q \<ge> 100" by (simp_all add: word_le_def word_uint_eq_iff)
    have "uint (q - 1) = uint q - 1" if "q \<noteq> 0" using that uint_minus [of 1 q] q0(1) uint_ge_0 [of q] by simp
    then show "uint (fst xn) \<le> 99" "?f = (if snd xn then - uint (fst xn) else uint (fst xn))"
      using q0 uint_ge_0 [of q] by (auto simp: xn_def q [symmetric])
  qed
  let ?y = "if snd xn then ?w - drop_bit 11 ?w * ucast (fst xn) else ?w + drop_bit 11 ?w * ucast (fst xn)"
  let ?x = "?d + ?d div DifficultyBoundDivisor * ?f"
  have y: "uint ?y = ?x" "?x < 2 ^ 251"
    using adjust_u256 [OF d f(1)] d unfolding f(2) by (auto simp: diff_consts)
  have n1: "1 + (word_of_int (h_Number parent) :: uint64) = word_of_int (h_Number parent + 1)" by simp
  have "0 \<le> h_Number parent + 1" "h_Number parent + 1 < 25000000" using n by auto
  from finish_u256 [OF y this] show ?thesis
    unfolding CalcDifficultyHomesteadU256_def calcDifficultyHomestead_def Let_def uint256_eval [OF U] difficultyBoundDivisor_def n1
      q_def [symmetric] xn_def [symmetric] case_prod_beta .
qed

lemma dynamic_u256:
  assumes U: "uint256_ok U" and d: "0 \<le> h_Difficulty parent" "h_Difficulty parent < 2 ^ 250"
    and n: "0 \<le> h_Number parent" "h_Number parent < 24999999" and t: "h_Time parent \<le> time"
    and b: "1 \<le> bombDelay" "bombDelay < 2 ^ 64"
  shows "MakeDifficultyCalculatorU256 U H bombDelay time parent = makeDifficultyCalculator H bombDelay time parent"
proof -
  let ?w = "word_of_int (h_Difficulty parent) :: uint256" and ?d = "h_Difficulty parent"
  define q where "q = (time - h_Time parent) div 9"
  define c where "c = (if h_UncleHash parent \<noteq> EmptyUncleHash H then 2 else 1 :: uint64)"
  define x where "x = (if (if q \<ge> c then q - c else c - q) > 99 then 99 else if q \<ge> c then q - c else c - q)"
  have q: "uint q = (uint time - uint (h_Time parent)) div 9"
    using t by (simp add: q_def div_uint uint_minus word_le_def)
  have c: "uint c = (if h_UncleHash parent = EmptyUncleHash H then 1 else 2)" by (simp add: c_def)
  let ?z = "if h_UncleHash parent = EmptyUncleHash H then 1 - (uint time - uint (h_Time parent)) div 9
    else 2 - (uint time - uint (h_Time parent)) div 9"
  let ?f = "if ?z < -99 then -99 else ?z"
  have z: "?z = uint c - uint q" by (simp add: c q)
  have f: "uint x \<le> 99" "?f = (if q \<ge> c then - uint x else uint x)"
  proof -
    have "uint (q - c) = uint q - uint c" if "q \<ge> c" using that by (simp add: uint_minus word_le_def)
    moreover have "uint (c - q) = uint c - uint q" if "\<not> q \<ge> c" using that by (simp add: uint_minus word_le_def)
    moreover have "uint c - uint q \<le> 2"
    proof -
      have "uint c \<le> 2" by (simp add: c)
      then show ?thesis using uint_ge_0 [of q] by linarith
    qed
    ultimately show "uint x \<le> 99" "?f = (if q \<ge> c then - uint x else uint x)"
      unfolding z by (auto simp: x_def word_less_def word_le_def)
  qed
  let ?y = "if q \<ge> c then ?w - drop_bit 11 ?w * ucast x else ?w + drop_bit 11 ?w * ucast x"
  let ?x = "?d + ?d div DifficultyBoundDivisor * ?f"
  have y: "uint ?y = ?x" "?x < 2 ^ 251"
    using adjust_u256 [OF d f(1)] d unfolding f(2) by (auto simp: diff_consts)
  define m where "m = (if h_Number parent \<ge> bombDelay - 1 then h_Number parent - (bombDelay - 1) else 0)"
  have m: "0 \<le> m" "m < 25000000" using n b by (auto simp: m_def)
  let ?pn = "word_of_int (h_Number parent) :: uint64" and ?bd = "word_of_int bombDelay - 1 :: uint64"
  have pn: "uint ?pn = h_Number parent" using n by (simp add: uint_word_of_int)
  have bd: "uint ?bd = bombDelay - 1" using b by (subst uint_minus) (simp_all add: uint_word_of_int)
  have wm: "uint (word_of_int m :: uint64) = m" using m by (simp add: uint_word_of_int)
  have bomb: "?pn \<ge> ?bd \<and> ?pn - ?bd \<ge> 2 * expDiffPeriodUint \<longleftrightarrow> (word_of_int m :: uint64) div expDiffPeriodUint > 1"
    "?pn \<ge> ?bd \<Longrightarrow> ?pn - ?bd = word_of_int m"
  proof -
    show "?pn - ?bd = word_of_int m" if "?pn \<ge> ?bd"
    proof -
      have "uint (?pn - ?bd) = uint (word_of_int m :: uint64)"
        using that by (simp only: wm) (simp add: uint_minus word_le_def pn bd m_def)
      then show ?thesis by (simp only: word_uint_eq_iff)
    qed
    moreover have "?pn \<ge> ?bd \<longleftrightarrow> h_Number parent \<ge> bombDelay - 1" by (simp only: word_le_def pn bd)
    moreover have "(word_of_int m :: uint64) div expDiffPeriodUint > 1 \<longleftrightarrow> m \<ge> 200000"
      "word_of_int m \<ge> 2 * expDiffPeriodUint \<longleftrightarrow> m \<ge> 200000"
      by (auto simp: word_le_def word_less_def div_uint wm expDiffPeriodUint_def)
    ultimately show "?pn \<ge> ?bd \<and> ?pn - ?bd \<ge> 2 * expDiffPeriodUint \<longleftrightarrow> (word_of_int m :: uint64) div expDiffPeriodUint > 1"
      by (cases "h_Number parent \<ge> bombDelay - 1") (simp_all add: m_def)
  qed
  have swap: "(if (word_of_int m :: uint64) div expDiffPeriodUint > 1 then push_bit (unat ((?pn - ?bd) div expDiffPeriodUint - 2)) 1 + v else v) =
      (if (word_of_int m :: uint64) div expDiffPeriodUint > 1
       then v + push_bit (unat ((word_of_int m :: uint64) div expDiffPeriodUint - 2)) 1 else v)" for v :: uint256
  proof (cases "(word_of_int m :: uint64) div expDiffPeriodUint > 1")
    case True
    then have "?pn - ?bd = word_of_int m" using bomb by blast
    then show ?thesis by (simp only: add.commute)
  next
    case False
    then show ?thesis by (simp only: if_False)
  qed
  show ?thesis
    using finish_u256 [OF y m]
    unfolding MakeDifficultyCalculatorU256_def makeDifficultyCalculator_def Let_def uint256_eval [OF U] difficultyBoundDivisor_def
      q_def [symmetric] c_def [symmetric] x_def [symmetric] m_def [symmetric] bomb(1) swap .
qed

text \<open>C14: The calculators on 256-bit integers compute the difficulty of those on big integers, for Frontier, Homestead and every bomb
  delay, for difficulties below \<open>2^250\<close>, block numbers below 25 million and a time stamp that is not before the parent's.\<close>

theorem DifficultyU256_equiv:
  assumes "uint256_ok U" "0 \<le> h_Difficulty parent" "h_Difficulty parent < 2 ^ 250"
    "0 \<le> h_Number parent" "h_Number parent < 24999999" "h_Time parent \<le> time" "1 \<le> bombDelay" "bombDelay < 2 ^ 64"
  shows "CalcDifficultyFrontierU256 U time parent = calcDifficultyFrontier time parent \<and>
    CalcDifficultyHomesteadU256 U time parent = calcDifficultyHomestead time parent \<and>
    MakeDifficultyCalculatorU256 U H bombDelay time parent = makeDifficultyCalculator H bombDelay time parent"
  using frontier_u256 [OF assms(1-6)] homestead_u256 [OF assms(1-6)] dynamic_u256 [OF assms(1-8)] by blast

definition word_ops :: uint256_ops where
  "word_ops =
     \<lparr>u_FromBig = word_of_int, u_ToBig = uint, u_Rsh = (\<lambda>x n. drop_bit n x), u_Lsh = (\<lambda>x n. push_bit n x), u_Add = (+), u_Sub = (-),
      u_Mul = (*), u_LtUint64 = (\<lambda>x n. uint x < uint n), u_SetUint64 = ucast, u_SetOne = 1\<rparr>"

theorem DifficultyU256_equiv_witness:
  "uint256_ok word_ops \<and> CalcDifficultyFrontierU256 word_ops 105 example_header = 131136"
proof -
  have ok: "uint256_ok word_ops" by (simp add: uint256_ok_def word_ops_def)
  have "CalcDifficultyFrontierU256 word_ops 105 example_header = calcDifficultyFrontier 105 example_header"
    using DifficultyU256_equiv [OF ok, of example_header 105 1] by (simp add: example_header_def word_le_def)
  with ok show ?thesis by (simp add: calcDifficultyFrontier_def example_header_def diff_consts)
qed

subsection \<open>Chains of verified headers\<close>

inductive verified_chain :: "(bytes \<Rightarrow> bytes) \<Rightarrow> ChainConfig \<Rightarrow> (Header \<Rightarrow> header_error option) \<Rightarrow> Header \<Rightarrow> Header list \<Rightarrow> bool"
  for H config verifySeal genesis where
  verified_genesis: "verified_chain H config verifySeal genesis [genesis]"
| verified_step: "verified_chain H config verifySeal genesis (parent # hs) \<Longrightarrow>
    ethash_verifyHeader H config verifySeal header parent False seal now = None \<Longrightarrow>
    verified_chain H config verifySeal genesis (header # parent # hs)"

lemma CalcDifficulty_min:
  assumes "\<not> IsCatalyst config (Some (h_Number parent + 1))"
  shows "MinimumDifficulty \<le> CalcDifficulty H config time parent"
proof -
  have a: "MinimumDifficulty \<le> (if p then (if i < MinimumDifficulty then MinimumDifficulty else i) + 2 ^ k
      else (if i < MinimumDifficulty then MinimumDifficulty else i))" for p i k
    by (cases p) (auto intro: add_increasing2)
  show ?thesis
    using assms a unfolding CalcDifficulty_def makeDifficultyCalculator_def calcDifficultyHomestead_def calcDifficultyFrontier_def Let_def
    by (simp add: max_def)
qed

lemma CalcBaseFee_pos:
  assumes "h_BaseFee parent = Some b" "1 \<le> b" "CalcBaseFee config parent = Some f"
  shows "1 \<le> f"
proof -
  let ?t = "h_GasLimit parent div 2" and ?u = "h_GasUsed parent"
  have dec: "1 \<le> b - b * uint (?t - ?u) div uint ?t div 8" if "?u < ?t" "?t \<noteq> 0"
  proof -
    have d: "uint (?t - ?u) \<le> uint ?t" "0 < uint ?t" using that uint_ge_0 [of ?u]
      by (auto simp: uint_minus word_less_def word_uint_eq_iff less_le)
    have "b * uint (?t - ?u) div uint ?t \<le> b * uint ?t div uint ?t" using d assms(2) by (intro zdiv_mono1 mult_left_mono) auto
    then have "b * uint (?t - ?u) div uint ?t div 8 \<le> b div 8" using d by (intro zdiv_mono1) auto
    then show ?thesis using assms(2) by linarith
  qed
  show ?thesis
  proof (cases "?u < ?t")
    case True
    with assms dec show ?thesis by (auto simp: CalcBaseFee_def gas_consts Let_def max_def split: if_splits)
  next
    case False
    with assms show ?thesis by (auto simp: CalcBaseFee_def gas_consts Let_def max_def not_less split: if_splits)
  qed
qed

definition header_ok :: "ChainConfig \<Rightarrow> Header \<Rightarrow> bool" where
  "header_ok config h \<longleftrightarrow>
     MinimumDifficulty \<le> h_Difficulty h \<and> 5000 \<le> uint (h_GasLimit h) \<and> uint (h_GasLimit h) < 2 ^ 63 \<and> h_GasUsed h \<le> h_GasLimit h \<and>
     (if IsLondon config (Some (h_Number h)) then \<exists>b \<ge> 1. h_BaseFee h = Some b else h_BaseFee h = None)"

lemma VerifyGaslimit_min: "VerifyGaslimit p h = None \<Longrightarrow> 5000 \<le> uint h"
  by (simp add: VerifyGaslimit_def Let_def gas_consts word_less_def not_less split: if_splits)

lemma verifyHeader_ok:
  assumes v: "ethash_verifyHeader H config verifySeal header parent uncle seal now = None" and p: "header_ok config parent"
    and c: "CatalystBlock config = None"
  shows "header_ok config header \<and> h_Number header = h_Number parent + 1 \<and> h_Time parent < h_Time header"
proof -
  note d = v [unfolded ethash_verifyHeader_def]
  have n: "h_Number header = h_Number parent + 1" and t: "h_Time parent < h_Time header"
    and df: "h_Difficulty header = CalcDifficulty H config (h_Time header) parent"
    and g: "uint (h_GasLimit header) < 2 ^ 63" "h_GasUsed header \<le> h_GasLimit header"
    using d by (auto simp: word_le_def word_less_def not_le not_less split: if_splits option.splits)
  have "MinimumDifficulty \<le> h_Difficulty header"
    unfolding df using c by (intro CalcDifficulty_min) (simp add: IsCatalyst_def isForked_def)
  moreover have "5000 \<le> uint (h_GasLimit header)"
    using d by (auto simp: VerifyEip1559Header_def Let_def split: if_splits option.splits dest: VerifyGaslimit_min)
  moreover have "if IsLondon config (Some (h_Number header)) then \<exists>b \<ge> 1. h_BaseFee header = Some b else h_BaseFee header = None"
  proof (cases "IsLondon config (Some (h_Number header))")
    case True
    then obtain f where f: "h_BaseFee header = Some f" "CalcBaseFee config parent = Some f"
      using d by (auto simp: VerifyEip1559Header_def Let_def split: if_splits option.splits)
    have "1 \<le> f"
    proof (cases "IsLondon config (Some (h_Number parent))")
      case True
      with p obtain b where "b \<ge> 1" "h_BaseFee parent = Some b" by (auto simp: header_ok_def)
      with f(2) show ?thesis using CalcBaseFee_pos by blast
    next
      case False
      with f(2) show ?thesis by (simp add: CalcBaseFee_def InitialBaseFee_def)
    qed
    with f True show ?thesis by auto
  next
    case False
    with d show ?thesis by (auto split: if_splits option.splits)
  qed
  ultimately show ?thesis using n t g by (simp add: header_ok_def)
qed

text \<open>C13: In every chain of headers that \<^verbatim>\<open>verifyHeader\<close> accepts one after the other from a sane genesis header, without Catalyst, every
  header has at least the minimum difficulty, a gas limit between 5000 and \<open>2^63\<close>, no more gas used than that and a positive
  base fee exactly from the London fork on; numbers are consecutive and time stamps increase.\<close>

theorem verified_chain_invariant:
  assumes "verified_chain H config verifySeal genesis hs" "header_ok config genesis" "CatalystBlock config = None"
  shows "(\<forall>h \<in> set hs. header_ok config h) \<and> sorted_wrt (\<lambda>h h'. h_Time h' < h_Time h) hs \<and>
    map h_Number hs = rev (map (\<lambda>i. h_Number genesis + int i) [0..<length hs])"
  using assms(1)
proof (induction rule: verified_chain.induct)
  case verified_genesis
  then show ?case using assms(2) by simp
next
  case (verified_step parent hs header seal now)
  have st: "header_ok config header \<and> h_Number header = h_Number parent + 1 \<and> h_Time parent < h_Time header"
    using verified_step by (intro verifyHeader_ok [OF verified_step.hyps(2) _ assms(3)]) simp
  have "h_Number parent = h_Number genesis + int (length hs)" using verified_step.IH by simp
  moreover have "\<forall>h \<in> set (parent # hs). h_Time h < h_Time header" using verified_step.IH st by (auto intro: less_trans)
  ultimately show ?case using verified_step.IH st by simp
qed

definition frontier_config :: ChainConfig where
  "frontier_config = all_forks None None"

theorem verified_chain_invariant_witness:
  "verified_chain id frontier_config (\<lambda>_. None) (example_header\<lparr>h_BaseFee := None\<rparr>)
      [example_header\<lparr>h_BaseFee := None, h_Number := 11, h_Time := 105, h_Difficulty := 131136\<rparr>, example_header\<lparr>h_BaseFee := None\<rparr>] \<and>
    header_ok frontier_config (example_header\<lparr>h_BaseFee := None, h_Number := 11, h_Time := 105, h_Difficulty := 131136\<rparr>)"
proof -
  let ?g = "example_header\<lparr>h_BaseFee := None\<rparr>" and ?h = "example_header\<lparr>h_BaseFee := None, h_Number := 11, h_Time := 105, h_Difficulty := 131136\<rparr>"
  note cfg = frontier_config_def all_forks_def fork_defs isForked_def
  have "VerifyGaslimit 8000 8000 = None" by (simp add: VerifyGaslimit_def gas_consts)
  then have "ethash_verifyHeader id frontier_config (\<lambda>_. None) ?h ?g False True 1000 = None"
    by (simp add: ethash_verifyHeader_def CalcDifficulty_def calcDifficultyFrontier_def example_header_def cfg diff_consts
        VerifyDAOHeaderExtraData_def VerifyForkHashes_def)
  then have ch: "verified_chain id frontier_config (\<lambda>_. None) ?g [?h, ?g]" by (intro verified_step verified_genesis)
  have "header_ok frontier_config ?g" by (simp add: header_ok_def example_header_def cfg diff_consts)
  with verified_chain_invariant [OF ch this] ch show ?thesis by (simp add: cfg)
qed

end
