(* ===== verification/Clique_Snapshot.thy ===== *)
theory Clique_Snapshot
  imports Block_Header
begin

section \<open>Package consensus/clique: voting snapshots\<close>

text \<open>
  \<^verbatim>\<open>src/consensus/clique/snapshot.go\<close> and the header checks of \<^verbatim>\<open>clique.go\<close>. Signers are a set (the keys of a Go map), recents
  and the tally are maps, the votes a list. The recovery of the signer from a header is an argument \<open>ecrecover\<close> of the operations;
  \<open>clique_ecrecover\<close> is the function of the source without its cache, over the curve operation of package crypto.
  Retrieving a snapshot (caches, database) is outside: the checks take it as an argument.
\<close>

subsection \<open>The snapshot\<close>

record Vote =
  v_Signer :: address
  v_Block :: uint64
  v_Address :: address
  v_Authorize :: bool

record Tally =
  t_Authorize :: bool
  t_Votes :: int

record Snapshot =
  s_Epoch :: uint64
  s_Number :: uint64
  s_Hash :: bytes
  s_Signers :: "address set"
  s_Recents :: "uint64 \<rightharpoonup> address"
  s_Votes :: "Vote list"
  s_Tally :: "address \<rightharpoonup> Tally"

datatype clique_error =
    errInvalidVotingChain | errUnauthorizedSigner | errRecentlySigned | errInvalidVote | errMissingSignature | errEcrecover
  | errUnknownBlock | errFutureBlock | errInvalidCheckpointBeneficiary | errInvalidCheckpointVote | errMissingVanity | errExtraSigners
  | errInvalidCheckpointSigners | errMismatchingCheckpointSigners | errInvalidMixDigest | errInvalidUncleHash | errInvalidDifficulty
  | errWrongDifficulty | errGasLimitCap | errUnknownAncestor | errInvalidTimestamp | errInvalidGasUsed | errBaseFeeBeforeFork
  | errHeader header_error | cliquePanic

definition newSnapshot :: "uint64 \<Rightarrow> uint64 \<Rightarrow> bytes \<Rightarrow> address list \<Rightarrow> Snapshot" where
  "newSnapshot epoch number h signers =
     \<lparr>s_Epoch = epoch, s_Number = number, s_Hash = h, s_Signers = set signers, s_Recents = Map.empty, s_Votes = [], s_Tally = Map.empty\<rparr>"

definition validVote :: "Snapshot \<Rightarrow> address \<Rightarrow> bool \<Rightarrow> bool" where
  "validVote s addr authorize \<longleftrightarrow>
     (addr \<in> s_Signers s \<and> \<not> authorize) \<or> (addr \<notin> s_Signers s \<and> authorize)"

definition cast_vote :: "Snapshot \<Rightarrow> address \<Rightarrow> bool \<Rightarrow> bool \<times> Snapshot" where
  "cast_vote s addr authorize =
     (if \<not> validVote s addr authorize then (False, s)
      else
        (True, s\<lparr>s_Tally := (s_Tally s)(addr \<mapsto>
           (case s_Tally s addr of
              Some old \<Rightarrow> old\<lparr>t_Votes := t_Votes old + 1\<rparr>
            | None \<Rightarrow> \<lparr>t_Authorize = authorize, t_Votes = 1\<rparr>))\<rparr>))"

definition uncast :: "Snapshot \<Rightarrow> address \<Rightarrow> bool \<Rightarrow> bool \<times> Snapshot" where
  "uncast s addr authorize =
     (case s_Tally s addr of
        None \<Rightarrow> (False, s)
      | Some tally \<Rightarrow>
          (if t_Authorize tally \<noteq> authorize then (False, s)
           else (True, s\<lparr>s_Tally := (s_Tally s)(addr :=
             (if t_Votes tally > 1 then Some (tally\<lparr>t_Votes := t_Votes tally - 1\<rparr>) else None))\<rparr>)))"

text \<open>The first loop over the votes: the previous vote of the signer on the account, if any.\<close>

fun discard_vote :: "address \<Rightarrow> address \<Rightarrow> Vote list \<Rightarrow> Snapshot \<Rightarrow> Vote list \<times> Snapshot" where
  "discard_vote signer addr [] s = ([], s)"
| "discard_vote signer addr (vote # votes) s =
     (if v_Signer vote = signer \<and> v_Address vote = addr then (votes, snd (uncast s (v_Address vote) (v_Authorize vote)))
      else (let (rest, s) = discard_vote signer addr votes s in (vote # rest, s)))"

text \<open>The second loop: all votes that a deauthorized signer cast.\<close>

fun discard_signer :: "address \<Rightarrow> Vote list \<Rightarrow> Snapshot \<Rightarrow> Vote list \<times> Snapshot" where
  "discard_signer addr [] s = ([], s)"
| "discard_signer addr (vote # votes) s =
     (if v_Signer vote = addr then discard_signer addr votes (snd (uncast s (v_Address vote) (v_Authorize vote)))
      else (let (rest, s) = discard_signer addr votes s in (vote # rest, s)))"

definition nonceAuthVote :: bytes where "nonceAuthVote = replicate 8 0xff"
definition nonceDropVote :: bytes where "nonceDropVote = replicate 8 0"

definition recents_limit :: "Snapshot \<Rightarrow> uint64" where
  "recents_limit s = word_of_nat (card (s_Signers s) div 2 + 1)"

definition drop_recent :: "uint64 \<Rightarrow> Snapshot \<Rightarrow> Snapshot" where
  "drop_recent number s =
     (let limit = recents_limit s in
      if number \<ge> limit then s\<lparr>s_Recents := (s_Recents s)(number - limit := None)\<rparr> else s)"

text \<open>The vote passed: the account changes its status and the votes about it, or by it, go.\<close>

definition pass_vote :: "address \<Rightarrow> uint64 \<Rightarrow> bool \<Rightarrow> Snapshot \<Rightarrow> Snapshot" where
  "pass_vote addr number authorize s =
     (let s = (if authorize then s\<lparr>s_Signers := insert addr (s_Signers s)\<rparr>
               else
                 (let s = s\<lparr>s_Signers := s_Signers s - {addr}\<rparr>;
                      s = drop_recent number s;
                      (votes, s) = discard_signer addr (s_Votes s) s
                  in s\<lparr>s_Votes := votes\<rparr>))
      in s\<lparr>s_Votes := filter (\<lambda>v. v_Address v \<noteq> addr) (s_Votes s), s_Tally := (s_Tally s)(addr := None)\<rparr>)"

definition tally_vote :: "address \<Rightarrow> address \<Rightarrow> uint64 \<Rightarrow> bool \<Rightarrow> Snapshot \<Rightarrow> Snapshot" where
  "tally_vote signer addr number authorize s =
     (let (ok, s) = cast_vote s addr authorize;
          s = (if ok then s\<lparr>s_Votes := s_Votes s @
                 [\<lparr>v_Signer = signer, v_Block = number, v_Address = addr, v_Authorize = authorize\<rparr>]\<rparr> else s)
      in case s_Tally s addr of
           Some tally \<Rightarrow> if t_Votes tally > int (card (s_Signers s) div 2) then pass_vote addr number (t_Authorize tally) s else s
         | None \<Rightarrow> s)"

text \<open>One iteration of the loop of \<^verbatim>\<open>apply\<close>.\<close>

definition apply_header :: "(Header \<Rightarrow> clique_error + address) \<Rightarrow> Header \<Rightarrow> Snapshot \<Rightarrow> clique_error + Snapshot" where
  "apply_header ecrecover header s =
     (let number = word_of_int (h_Number header) in
      if s_Epoch s = 0 then Inl cliquePanic
      else
        (let s = (if number mod s_Epoch s = 0 then s\<lparr>s_Votes := [], s_Tally := Map.empty\<rparr> else s);
             s = drop_recent number s
         in case ecrecover header of
              Inl err \<Rightarrow> Inl err
            | Inr signer \<Rightarrow>
                if signer \<notin> s_Signers s then Inl errUnauthorizedSigner
                else if signer \<in> ran (s_Recents s) then Inl errRecentlySigned
                else
                  (let s = s\<lparr>s_Recents := (s_Recents s)(number \<mapsto> signer)\<rparr>;
                       (votes, s) = discard_vote signer (h_Coinbase header) (s_Votes s) s;
                       s = s\<lparr>s_Votes := votes\<rparr>
                   in if h_Nonce header = nonceAuthVote then Inr (tally_vote signer (h_Coinbase header) number True s)
                      else if h_Nonce header = nonceDropVote then Inr (tally_vote signer (h_Coinbase header) number False s)
                      else Inl errInvalidVote)))"

fun apply_headers :: "(Header \<Rightarrow> clique_error + address) \<Rightarrow> Header list \<Rightarrow> Snapshot \<Rightarrow> clique_error + Snapshot" where
  "apply_headers ecrecover [] s = Inr s"
| "apply_headers ecrecover (h # hs) s =
     (case apply_header ecrecover h s of Inl err \<Rightarrow> Inl err | Inr s \<Rightarrow> apply_headers ecrecover hs s)"

fun contiguous :: "Header list \<Rightarrow> bool" where
  "contiguous (h1 # h2 # hs) \<longleftrightarrow>
     (word_of_int (h_Number h2) :: uint64) = word_of_int (h_Number h1) + 1 \<and> contiguous (h2 # hs)"
| "contiguous _ \<longleftrightarrow> True"

definition snapshot_apply ::
  "(bytes \<Rightarrow> bytes) \<Rightarrow> (Header \<Rightarrow> clique_error + address) \<Rightarrow> Header list \<Rightarrow> Snapshot \<Rightarrow> clique_error + Snapshot" where
  "snapshot_apply H ecrecover headers s =
     (if headers = [] then Inr s
      else if \<not> contiguous headers then Inl errInvalidVotingChain
      else if word_of_int (h_Number (hd headers)) \<noteq> s_Number s + 1 then Inl errInvalidVotingChain
      else
        (case apply_headers ecrecover headers s of
           Inl err \<Rightarrow> Inl err
         | Inr s' \<Rightarrow> Inr (s'\<lparr>s_Number := s_Number s' + word_of_nat (length headers), s_Hash := Header_Hash H (last headers)\<rparr>)))"

text \<open>\<^verbatim>\<open>sort.Sort\<close> on the 20 bytes of an address is the order of 160-bit numbers.\<close>

definition signers :: "Snapshot \<Rightarrow> address list" where
  "signers s = sorted_list_of_set (s_Signers s)"

fun inturn_offset :: "address list \<Rightarrow> address \<Rightarrow> nat" where
  "inturn_offset [] signer = 0"
| "inturn_offset (a # as) signer = (if a \<noteq> signer then Suc (inturn_offset as signer) else 0)"

text \<open>\<open>None\<close> is the division by zero without signers.\<close>

definition inturn :: "Snapshot \<Rightarrow> uint64 \<Rightarrow> address \<Rightarrow> bool option" where
  "inturn s number signer =
     (if length (signers s) = 0 then None
      else Some (number mod word_of_nat (length (signers s)) = word_of_nat (inturn_offset (signers s) signer)))"

subsection \<open>The engine\<close>

definition sig_goval :: "Header \<Rightarrow> goval option" where
  "sig_goval h =
     (if length (h_Extra h) < 65 then None
      else Some (VSlice False (map (\<lambda>v. VInterface (Some v))
        ([VByteArray (h_ParentHash h), VByteArray (h_UncleHash h), VByteArray (addr_bytes (h_Coinbase h)), VByteArray (h_Root h),
          VByteArray (h_TxHash h), VByteArray (h_ReceiptHash h), VByteArray (h_Bloom h), VBigIntPtr (Some (h_Difficulty h)),
          VBigIntPtr (Some (h_Number h)), VUint (h_GasLimit h), VUint (h_GasUsed h), VUint (h_Time h),
          VBytes (take (length (h_Extra h) - 65) (h_Extra h)), VByteArray (h_MixDigest h), VByteArray (h_Nonce h)] @
         (case h_BaseFee h of Some b \<Rightarrow> [VBigIntPtr (Some b)] | None \<Rightarrow> [])))))"

definition encodeSigHeader :: "Header \<Rightarrow> bytes option" where
  "encodeSigHeader h =
     (case sig_goval h of
        None \<Rightarrow> None
      | Some v \<Rightarrow> (case EncodeToBytes v of Inl _ \<Rightarrow> None | Inr b \<Rightarrow> Some b))"

definition SealHash :: "(bytes \<Rightarrow> bytes) \<Rightarrow> Header \<Rightarrow> bytes option" where
  "SealHash H h = map_option H (encodeSigHeader h)"

definition bytes_addr :: "bytes \<Rightarrow> address" where
  "bytes_addr b = foldl (\<lambda>a x. push_bit 8 a + ucast x) 0 (take 20 b)"

definition clique_ecrecover ::
  "(bytes \<Rightarrow> bytes) \<Rightarrow> (bytes \<Rightarrow> bytes \<Rightarrow> bytes option) \<Rightarrow> Header \<Rightarrow> clique_error + address" where
  "clique_ecrecover H crypto_Ecrecover header =
     (if length (h_Extra header) < 65 then Inl errMissingSignature
      else
        (case SealHash H header of
           None \<Rightarrow> Inl cliquePanic
         | Some h \<Rightarrow>
             (case crypto_Ecrecover h (drop (length (h_Extra header) - 65) (h_Extra header)) of
                None \<Rightarrow> Inl errEcrecover
              | Some pubkey \<Rightarrow> Inr (bytes_addr (drop 12 (H (tl pubkey)))))))"

definition diffInTurn :: int where "diffInTurn = 2"
definition diffNoTurn :: int where "diffNoTurn = 1"

definition clique_calcDifficulty :: "Snapshot \<Rightarrow> address \<Rightarrow> int option" where
  "clique_calcDifficulty s signer =
     map_option (\<lambda>t. if t then diffInTurn else diffNoTurn) (inturn s (s_Number s + 1) signer)"

text \<open>\<^verbatim>\<open>verifySeal\<close> after the snapshot of the parent has been found.\<close>

definition verifySeal :: "(Header \<Rightarrow> clique_error + address) \<Rightarrow> Snapshot \<Rightarrow> Header \<Rightarrow> bool \<Rightarrow> clique_error option" where
  "verifySeal ecrecover s header fakeDiff =
     (let number = word_of_int (h_Number header) in
      if number = 0 then Some errUnknownBlock
      else
        (case ecrecover header of
           Inl err \<Rightarrow> Some err
         | Inr signer \<Rightarrow>
             if signer \<notin> s_Signers s then Some errUnauthorizedSigner
             else if \<exists>seen. s_Recents s seen = Some signer \<and> seen > number - recents_limit s then Some errRecentlySigned
             else if fakeDiff then None
             else
               (case inturn s number signer of
                  None \<Rightarrow> Some cliquePanic
                | Some t \<Rightarrow>
                    if t \<and> h_Difficulty header \<noteq> diffInTurn then Some errWrongDifficulty
                    else if \<not> t \<and> h_Difficulty header \<noteq> diffNoTurn then Some errWrongDifficulty else None)))"

text \<open>The test of \<^verbatim>\<open>Seal\<close> whether the node may sign on top of a snapshot.\<close>

definition may_seal :: "Snapshot \<Rightarrow> uint64 \<Rightarrow> address \<Rightarrow> bool" where
  "may_seal s number signer \<longleftrightarrow>
     signer \<in> s_Signers s \<and>
     \<not> (\<exists>seen. s_Recents s seen = Some signer \<and> (number < recents_limit s \<or> seen > number - recents_limit s))"

definition verifyCascadingFields ::
  "(bytes \<Rightarrow> bytes) \<Rightarrow> ChainConfig \<Rightarrow> CliqueConfig \<Rightarrow> (Header \<Rightarrow> clique_error + address) \<Rightarrow> Header option \<Rightarrow> clique_error + Snapshot \<Rightarrow>
     bool \<Rightarrow> Header \<Rightarrow> clique_error option" where
  "verifyCascadingFields H config clique ecrecover parentHeader snapshot fakeDiff header =
     (let number = word_of_int (h_Number header) :: uint64 in
      if number = 0 then None
      else
        (case parentHeader of
           None \<Rightarrow> Some errUnknownAncestor
         | Some parent \<Rightarrow>
             if word_of_int (h_Number parent) \<noteq> number - 1 \<or> Header_Hash H parent \<noteq> h_ParentHash header then Some errUnknownAncestor
             else if h_Time parent + Period clique > h_Time header then Some errInvalidTimestamp
             else if h_GasUsed header > h_GasLimit header then Some errInvalidGasUsed
             else
               (case (if \<not> IsLondon config (Some (h_Number header)) then
                        (if h_BaseFee header \<noteq> None then Some errBaseFeeBeforeFork
                         else map_option errHeader (VerifyGaslimit (h_GasLimit parent) (h_GasLimit header)))
                      else map_option errHeader (VerifyEip1559Header config parent header)) of
                  Some err \<Rightarrow> Some err
                | None \<Rightarrow>
                    (case snapshot of
                       Inl err \<Rightarrow> Some err
                     | Inr s \<Rightarrow>
                         if number mod Epoch clique = 0 \<and>
                            take (length (h_Extra header) - 65 - 32) (drop 32 (h_Extra header)) \<noteq> concat (map addr_bytes (signers s))
                         then Some errMismatchingCheckpointSigners
                         else verifySeal ecrecover s header fakeDiff))))"

definition clique_verifyHeader ::
  "(bytes \<Rightarrow> bytes) \<Rightarrow> ChainConfig \<Rightarrow> CliqueConfig \<Rightarrow> (Header \<Rightarrow> clique_error + address) \<Rightarrow> uint64 \<Rightarrow> Header option \<Rightarrow>
     clique_error + Snapshot \<Rightarrow> bool \<Rightarrow> Header \<Rightarrow> clique_error option" where
  "clique_verifyHeader H config clique ecrecover now parentHeader snapshot fakeDiff header =
     (let number = word_of_int (h_Number header) :: uint64;
          checkpoint = (number mod Epoch clique = 0);
          signersBytes = length (h_Extra header) - 32 - 65
      in if h_Time header > now then Some errFutureBlock
         else if Epoch clique = 0 then Some cliquePanic
         else if checkpoint \<and> h_Coinbase header \<noteq> 0 then Some errInvalidCheckpointBeneficiary
         else if h_Nonce header \<noteq> nonceAuthVote \<and> h_Nonce header \<noteq> nonceDropVote then Some errInvalidVote
         else if checkpoint \<and> h_Nonce header \<noteq> nonceDropVote then Some errInvalidCheckpointVote
         else if length (h_Extra header) < 32 then Some errMissingVanity
         else if length (h_Extra header) < 32 + 65 then Some errMissingSignature
         else if \<not> checkpoint \<and> signersBytes \<noteq> 0 then Some errExtraSigners
         else if checkpoint \<and> signersBytes mod 20 \<noteq> 0 then Some errInvalidCheckpointSigners
         else if h_MixDigest header \<noteq> zeroHash then Some errInvalidMixDigest
         else if h_UncleHash header \<noteq> EmptyUncleHash H then Some errInvalidUncleHash
         else if number > 0 \<and> h_Difficulty header \<noteq> diffInTurn \<and> h_Difficulty header \<noteq> diffNoTurn then Some errInvalidDifficulty
         else if h_GasLimit header > 0x7fffffffffffffff then Some errGasLimitCap
         else
           (case VerifyForkHashes H config header False of
              Some err \<Rightarrow> Some (errHeader err)
            | None \<Rightarrow> verifyCascadingFields H config clique ecrecover parentHeader snapshot fakeDiff header))"

end
