(* ===== verification/Clique_Voting.thy ===== *)
theory Clique_Voting
  imports Clique_Snapshot
begin

section \<open>Package consensus/clique: properties of the voting\<close>

text \<open>
  The invariant of voting snapshots: the tally counts the votes, every vote is by a signer, of the direction that changes
  the status of its account and the only one of its signer on it; the recent signers are distinct and lie in the window of
  the last blocks. Each part of an iteration of \<^verbatim>\<open>Snapshot.apply\<close> keeps it, and the signers change only by a majority.
\<close>

subsection \<open>Tally and votes\<close>

definition cnt :: "Vote list \<Rightarrow> address \<Rightarrow> nat" where
  "cnt votes a = length (filter (\<lambda>v. v_Address v = a) votes)"

definition tally_of :: "address set \<Rightarrow> (address \<Rightarrow> nat) \<Rightarrow> address \<Rightarrow> Tally option" where
  "tally_of S c a = (if c a = 0 then None else Some \<lparr>t_Authorize = (a \<notin> S), t_Votes = int (c a)\<rparr>)"

definition votes_ok :: "address set \<Rightarrow> Vote list \<Rightarrow> bool" where
  "votes_ok S votes \<longleftrightarrow> (\<forall>v \<in> set votes. v_Signer v \<in> S \<and> (v_Authorize v \<longleftrightarrow> v_Address v \<notin> S)) \<and>
     distinct (map (\<lambda>v. (v_Signer v, v_Address v)) votes)"

definition voting_ok :: "Snapshot \<Rightarrow> bool" where
  "voting_ok s \<longleftrightarrow> finite (s_Signers s) \<and> votes_ok (s_Signers s) (s_Votes s) \<and> s_Tally s = tally_of (s_Signers s) (cnt (s_Votes s))"

lemma cnt_simps [simp]: "cnt [] a = 0" "cnt (v # vs) a = (if v_Address v = a then 1 else 0) + cnt vs a" "cnt (us @ vs) a = cnt us a + cnt vs a"
  by (simp_all add: cnt_def)

lemma cnt_filter: "cnt (filter P vs) a + cnt (filter (\<lambda>v. \<not> P v) vs) a = cnt vs a"
  by (induction vs) auto

lemma uncast_eq:
  assumes "s_Tally s = tally_of S c" "0 < c a" "auth \<longleftrightarrow> a \<notin> S"
  shows "snd (uncast s a auth) = s\<lparr>s_Tally := tally_of S (c(a := c a - 1))\<rparr>"
proof -
  let ?t = "if 1 < c a then Some \<lparr>t_Authorize = (a \<notin> S), t_Votes = int (c a) - 1\<rparr> else None"
  have t: "(tally_of S c)(a := ?t) = tally_of S (c(a := c a - 1))"
    using assms(2) by (auto simp: tally_of_def fun_eq_iff of_nat_diff)
  have "s_Tally s a = Some \<lparr>t_Authorize = (a \<notin> S), t_Votes = int (c a)\<rparr>" using assms(1,2) by (simp add: tally_of_def)
  then have "snd (uncast s a auth) = s\<lparr>s_Tally := (tally_of S c)(a := ?t)\<rparr>"
    using assms(1,3) by (simp add: uncast_def)
  then show ?thesis unfolding t .
qed

lemma discard_signer_eq:
  assumes "s_Tally s = tally_of S c" "\<forall>a. cnt votes a \<le> c a" "\<forall>v \<in> set votes. v_Authorize v \<longleftrightarrow> v_Address v \<notin> S"
  shows "discard_signer x votes s =
    (filter (\<lambda>v. v_Signer v \<noteq> x) votes, s\<lparr>s_Tally := tally_of S (\<lambda>a. c a - cnt (filter (\<lambda>v. v_Signer v = x) votes) a)\<rparr>)"
  using assms
proof (induction votes arbitrary: s c)
  case Nil
  have "s\<lparr>s_Tally := s_Tally s\<rparr> = s" by simp
  with Nil show ?case by simp
next
  case (Cons v vs)
  let ?a = "v_Address v"
  have ca: "0 < c ?a" using Cons.prems(2) [rule_format, of ?a] by simp
  have le: "\<forall>a. cnt vs a \<le> c a" using Cons.prems(2) by (auto intro: le_trans [rotated])
  show ?case
  proof (cases "v_Signer v = x")
    case True
    define c1 where "c1 = c(?a := c ?a - 1)"
    have u: "snd (uncast s ?a (v_Authorize v)) = s\<lparr>s_Tally := tally_of S c1\<rparr>"
      unfolding c1_def using Cons.prems ca by (intro uncast_eq) auto
    have le1: "\<forall>a. cnt vs a \<le> c1 a" using Cons.prems(2) [rule_format, of ?a] le by (auto simp: c1_def)
    have c1: "(\<lambda>a. c1 a - cnt (filter (\<lambda>v. v_Signer v = x) vs) a) = (\<lambda>a. c a - cnt (filter (\<lambda>v. v_Signer v = x) (v # vs)) a)"
      using True by (auto simp: c1_def fun_eq_iff)
    have "discard_signer x (v # vs) s = discard_signer x vs (s\<lparr>s_Tally := tally_of S c1\<rparr>)" using True u by simp
    also have "\<dots> = (filter (\<lambda>v. v_Signer v \<noteq> x) vs, s\<lparr>s_Tally := tally_of S (\<lambda>a. c1 a - cnt (filter (\<lambda>v. v_Signer v = x) vs) a)\<rparr>)"
      using Cons.IH [of "s\<lparr>s_Tally := tally_of S c1\<rparr>" c1] le1 Cons.prems(3) by simp
    finally show ?thesis unfolding c1 using True by simp
  next
    case False
    with Cons.IH [OF Cons.prems(1) le] Cons.prems(3) show ?thesis by simp
  qed
qed

lemma discard_vote_eq:
  assumes "s_Tally s = tally_of S c" "\<forall>a. cnt votes a \<le> c a" "\<forall>v \<in> set votes. v_Authorize v \<longleftrightarrow> v_Address v \<notin> S"
    "distinct (map (\<lambda>v. (v_Signer v, v_Address v)) votes)"
  shows "discard_vote x y votes s =
    (filter (\<lambda>v. \<not> (v_Signer v = x \<and> v_Address v = y)) votes,
     s\<lparr>s_Tally := tally_of S (\<lambda>a. c a - cnt (filter (\<lambda>v. v_Signer v = x \<and> v_Address v = y) votes) a)\<rparr>)"
  using assms
proof (induction votes)
  case Nil
  have "s\<lparr>s_Tally := s_Tally s\<rparr> = s" by simp
  with Nil show ?case by simp
next
  case (Cons v vs)
  let ?a = "v_Address v"
  have ca: "0 < c ?a" using Cons.prems(2) [rule_format, of ?a] by simp
  have le: "\<forall>a. cnt vs a \<le> c a" using Cons.prems(2) by (auto intro: le_trans [rotated])
  show ?case
  proof (cases "v_Signer v = x \<and> ?a = y")
    case True
    have no: "\<not> (v_Signer w = x \<and> v_Address w = y)" if "w \<in> set vs" for w
      using Cons.prems(4) True that by (auto simp: image_iff)
    then have f: "filter (\<lambda>v. v_Signer v = x \<and> v_Address v = y) vs = []" "filter (\<lambda>v. \<not> (v_Signer v = x \<and> v_Address v = y)) vs = vs"
      by (simp_all add: filter_empty_conv filter_id_conv)
    have "snd (uncast s ?a (v_Authorize v)) = s\<lparr>s_Tally := tally_of S (c(?a := c ?a - 1))\<rparr>"
      using Cons.prems ca by (intro uncast_eq) auto
    moreover have "c(?a := c ?a - 1) = (\<lambda>a. c a - cnt (filter (\<lambda>v. v_Signer v = x \<and> v_Address v = y) (v # vs)) a)"
      using True f(1) by (auto simp: fun_eq_iff)
    ultimately show ?thesis using True f(2) by simp
  next
    case False
    with Cons.IH [OF Cons.prems(1) le] Cons.prems(3,4) show ?thesis by auto
  qed
qed

lemma votes_ok_filter: "votes_ok S votes \<Longrightarrow> votes_ok S (filter P votes)"
  by (auto simp: votes_ok_def distinct_map_filter)

lemma cnt_minus: "(\<lambda>a. cnt votes a - cnt (filter P votes) a) = cnt (filter (\<lambda>v. \<not> P v) votes)"
proof
  fix a show "cnt votes a - cnt (filter P votes) a = cnt (filter (\<lambda>v. \<not> P v) votes) a"
    using cnt_filter [of P votes a] by linarith
qed

text \<open>Discarding the old vote of the signer.\<close>

lemma discard_vote_ok:
  assumes "voting_ok s" "discard_vote x y (s_Votes s) s = (votes, s')"
  shows "voting_ok (s'\<lparr>s_Votes := votes\<rparr>)" "votes = filter (\<lambda>v. \<not> (v_Signer v = x \<and> v_Address v = y)) (s_Votes s)"
    "s' = s\<lparr>s_Tally := s_Tally s'\<rparr>"
proof -
  let ?P = "\<lambda>v. v_Signer v = x \<and> v_Address v = y"
  have "discard_vote x y (s_Votes s) s = (filter (\<lambda>v. \<not> ?P v) (s_Votes s),
      s\<lparr>s_Tally := tally_of (s_Signers s) (\<lambda>a. cnt (s_Votes s) a - cnt (filter ?P (s_Votes s)) a)\<rparr>)"
    using assms(1) by (intro discard_vote_eq) (auto simp: voting_ok_def votes_ok_def)
  with assms(2) have r: "votes = filter (\<lambda>v. \<not> ?P v) (s_Votes s)" "s' = s\<lparr>s_Tally := tally_of (s_Signers s) (cnt (filter (\<lambda>v. \<not> ?P v) (s_Votes s)))\<rparr>"
    unfolding cnt_minus by auto
  then show "votes = filter (\<lambda>v. \<not> ?P v) (s_Votes s)" "s' = s\<lparr>s_Tally := s_Tally s'\<rparr>" by auto
  show "voting_ok (s'\<lparr>s_Votes := votes\<rparr>)" using assms(1) r by (simp add: voting_ok_def votes_ok_filter)
qed

text \<open>Passing a vote.\<close>

lemma drop_recent_fields [simp]:
  "s_Signers (drop_recent n s) = s_Signers s" "s_Votes (drop_recent n s) = s_Votes s" "s_Tally (drop_recent n s) = s_Tally s"
  "s_Epoch (drop_recent n s) = s_Epoch s" "s_Number (drop_recent n s) = s_Number s"
  by (simp_all add: drop_recent_def Let_def)

lemma pass_vote_fields:
  assumes "voting_ok s" "auth \<longleftrightarrow> x \<notin> s_Signers s"
  shows "voting_ok (pass_vote x number auth s) \<and>
    s_Signers (pass_vote x number auth s) = (if auth then insert x (s_Signers s) else s_Signers s - {x}) \<and>
    s_Recents (pass_vote x number auth s) = (if auth then s_Recents s else s_Recents (drop_recent number (s\<lparr>s_Signers := s_Signers s - {x}\<rparr>))) \<and>
    s_Epoch (pass_vote x number auth s) = s_Epoch s \<and> s_Number (pass_vote x number auth s) = s_Number s"
proof -
  let ?S = "s_Signers s" and ?V = "s_Votes s"
  have ok: "finite ?S" "votes_ok ?S ?V" "s_Tally s = tally_of ?S (cnt ?V)" using assms(1) by (simp_all add: voting_ok_def)
  have tally: "(tally_of ?S (cnt V))(x := None) = tally_of S' (cnt (filter (\<lambda>v. v_Address v \<noteq> x) V))"
    if "\<forall>a. a \<noteq> x \<longrightarrow> a \<in> ?S \<longleftrightarrow> a \<in> S'" for V S'
  proof
    fix a
    have "cnt (filter (\<lambda>v. v_Address v \<noteq> x) V) a = (if a = x then 0 else cnt V a)" by (induction V) auto
    then show "((tally_of ?S (cnt V))(x := None)) a = tally_of S' (cnt (filter (\<lambda>v. v_Address v \<noteq> x) V)) a"
      using that by (simp add: tally_of_def)
  qed
  show ?thesis
  proof (cases auth)
    case True
    have "votes_ok (insert x ?S) (filter (\<lambda>v. v_Address v \<noteq> x) ?V)" using ok(2) by (auto simp: votes_ok_def distinct_map_filter)
    then show ?thesis
      using True ok tally [of "insert x ?S" ?V] by (simp add: pass_vote_def voting_ok_def)
  next
    case False
    let ?s1 = "drop_recent number (s\<lparr>s_Signers := ?S - {x}\<rparr>)"
    let ?V1 = "filter (\<lambda>v. v_Signer v \<noteq> x) ?V"
    have "discard_signer x ?V ?s1 = (?V1, ?s1\<lparr>s_Tally := tally_of ?S (\<lambda>a. cnt ?V a - cnt (filter (\<lambda>v. v_Signer v = x) ?V) a)\<rparr>)"
      using ok by (intro discard_signer_eq) (auto simp: votes_ok_def)
    then have d: "discard_signer x ?V ?s1 = (?V1, ?s1\<lparr>s_Tally := tally_of ?S (cnt ?V1)\<rparr>)" unfolding cnt_minus .
    have "votes_ok (?S - {x}) (filter (\<lambda>v. v_Address v \<noteq> x) ?V1)" using ok(2) by (auto simp: votes_ok_def distinct_map_filter)
    then show ?thesis
      using False ok(1) d tally [of "?S - {x}" ?V1] by (simp add: pass_vote_def Let_def voting_ok_def)
  qed
qed

text \<open>Votes on an account come from different signers.\<close>

definition voters :: "Vote list \<Rightarrow> address \<Rightarrow> address set" where
  "voters votes x = v_Signer ` {v \<in> set votes. v_Address v = x}"

lemma voters_append: "voters (votes @ [v]) x = voters votes x \<union> (if v_Address v = x then {v_Signer v} else {})"
  by (auto simp: voters_def)

lemma card_voters: "distinct (map (\<lambda>v. (v_Signer v, v_Address v)) votes) \<Longrightarrow> card (voters votes x) = cnt votes x"
proof -
  assume d: "distinct (map (\<lambda>v. (v_Signer v, v_Address v)) votes)"
  have "distinct (map v_Signer (filter (\<lambda>v. v_Address v = x) votes))"
    using d by (induction votes) (auto simp: image_iff)
  then have "card (set (map v_Signer (filter (\<lambda>v. v_Address v = x) votes))) = cnt votes x"
    by (simp add: distinct_card cnt_def del: set_map)
  then show ?thesis by (simp add: voters_def)
qed

lemma cast_vote_ok:
  fixes number :: uint64
  assumes "voting_ok s" "signer \<in> s_Signers s" "\<forall>v \<in> set (s_Votes s). \<not> (v_Signer v = signer \<and> v_Address v = x)" "cast_vote s x auth = (ok, s')"
  defines "s'' \<equiv> (if ok then s'\<lparr>s_Votes := s_Votes s' @ [\<lparr>v_Signer = signer, v_Block = number, v_Address = x, v_Authorize = auth\<rparr>]\<rparr> else s')"
  shows "voting_ok s''" "s_Signers s'' = s_Signers s" "s_Recents s'' = s_Recents s" "s_Epoch s'' = s_Epoch s" "s_Number s'' = s_Number s"
    "voters (s_Votes s'') x \<subseteq> insert signer (voters (s_Votes s) x)"
proof -
  let ?v = "\<lparr>v_Signer = signer, v_Block = number, v_Address = x, v_Authorize = auth\<rparr>" and ?c = "cnt (s_Votes s)"
  have t: "s_Tally s = tally_of (s_Signers s) ?c" using assms(1) by (simp add: voting_ok_def)
  have c: "s'' = (if validVote s x auth then s\<lparr>s_Tally := s_Tally s', s_Votes := s_Votes s @ [?v]\<rparr> else s)"
    "validVote s x auth \<Longrightarrow> s_Tally s' = tally_of (s_Signers s) (cnt (s_Votes s @ [?v]))"
  proof -
    show "s'' = (if validVote s x auth then s\<lparr>s_Tally := s_Tally s', s_Votes := s_Votes s @ [?v]\<rparr> else s)"
      using assms(4) by (auto simp: s''_def cast_vote_def split: if_splits)
    assume v: "validVote s x auth"
    then have "s_Tally s' = (s_Tally s)(x \<mapsto> (case s_Tally s x of Some old \<Rightarrow> old\<lparr>t_Votes := t_Votes old + 1\<rparr>
        | None \<Rightarrow> \<lparr>t_Authorize = auth, t_Votes = 1\<rparr>))"
      using assms(4) by (auto simp: cast_vote_def split: if_splits)
    also have "\<dots> = tally_of (s_Signers s) (cnt (s_Votes s @ [?v]))"
    proof
      fix a
      show "((s_Tally s)(x \<mapsto> (case s_Tally s x of Some old \<Rightarrow> old\<lparr>t_Votes := t_Votes old + 1\<rparr>
        | None \<Rightarrow> \<lparr>t_Authorize = auth, t_Votes = 1\<rparr>))) a = tally_of (s_Signers s) (cnt (s_Votes s @ [?v])) a"
        using v unfolding t by (auto simp: tally_of_def validVote_def)
    qed
    finally show "s_Tally s' = tally_of (s_Signers s) (cnt (s_Votes s @ [?v]))" .
  qed
  show "s_Signers s'' = s_Signers s" "s_Recents s'' = s_Recents s" "s_Epoch s'' = s_Epoch s" "s_Number s'' = s_Number s"
    "voters (s_Votes s'') x \<subseteq> insert signer (voters (s_Votes s) x)"
    unfolding c(1) by (auto simp: voters_append)
  show "voting_ok s''"
  proof (cases "validVote s x auth")
    case True
    have "votes_ok (s_Signers s) (s_Votes s @ [?v])" using assms(1-3) True by (auto simp: voting_ok_def votes_ok_def validVote_def)
    then show ?thesis using True assms(1) c(2) [OF True] unfolding c(1) by (simp add: voting_ok_def)
  next
    case False
    then show ?thesis using assms(1) unfolding c(1) by simp
  qed
qed

text \<open>What a vote may do: nothing to the signers, or, with a majority of them, change the status of the account.\<close>

definition vote_outcome :: "address \<Rightarrow> address \<Rightarrow> uint64 \<Rightarrow> Snapshot \<Rightarrow> Snapshot \<Rightarrow> bool" where
  "vote_outcome signer x number s s' \<longleftrightarrow> voting_ok s' \<and> s_Epoch s' = s_Epoch s \<and> s_Number s' = s_Number s \<and>
     (s_Signers s' = s_Signers s \<and> s_Recents s' = s_Recents s \<or>
      (\<exists>V \<subseteq> s_Signers s. V \<subseteq> insert signer (voters (s_Votes s) x) \<and> card V > card (s_Signers s) div 2) \<and>
        (x \<notin> s_Signers s \<and> s_Signers s' = insert x (s_Signers s) \<and> s_Recents s' = s_Recents s \<or>
         x \<in> s_Signers s \<and> s_Signers s' = s_Signers s - {x} \<and>
           s_Recents s' = s_Recents (drop_recent number (s\<lparr>s_Signers := s_Signers s - {x}\<rparr>))))"

lemma tally_vote_ok:
  assumes "voting_ok s" "signer \<in> s_Signers s" "\<forall>v \<in> set (s_Votes s). \<not> (v_Signer v = signer \<and> v_Address v = x)"
  shows "vote_outcome signer x number s (tally_vote signer x number auth s)"
proof -
  define s' where "s' = tally_vote signer x number auth s"
  obtain ok s1 where cv: "cast_vote s x auth = (ok, s1)" by (cases "cast_vote s x auth")
  define s2 where "s2 = (if ok then s1\<lparr>s_Votes := s_Votes s1 @ [\<lparr>v_Signer = signer, v_Block = number, v_Address = x, v_Authorize = auth\<rparr>]\<rparr> else s1)"
  note c = cast_vote_ok [OF assms(1-3) cv, of number, folded s2_def]
  have t: "s_Tally s2 = tally_of (s_Signers s2) (cnt (s_Votes s2))" using c(1) by (simp add: voting_ok_def)
  have s': "s' = (case s_Tally s2 x of Some tally \<Rightarrow> if t_Votes tally > int (card (s_Signers s2) div 2) then pass_vote x number (t_Authorize tally) s2 else s2
      | None \<Rightarrow> s2)"
    unfolding s'_def tally_vote_def cv Let_def prod.case s2_def ..
  have "s' = s2 \<or> s' = pass_vote x number (x \<notin> s_Signers s2) s2 \<and> cnt (s_Votes s2) x > card (s_Signers s2) div 2"
    unfolding s' t by (auto simp: tally_of_def)
  then consider (stay) "s' = s2" | (pass) "s' = pass_vote x number (x \<notin> s_Signers s2) s2" "cnt (s_Votes s2) x > card (s_Signers s2) div 2"
    by blast
  then have "vote_outcome signer x number s s'"
  proof cases
    case stay
    then show ?thesis using c by (simp add: vote_outcome_def)
  next
    case pass
    have v: "votes_ok (s_Signers s2) (s_Votes s2)" using c(1) by (simp add: voting_ok_def)
    have V: "voters (s_Votes s2) x \<subseteq> s_Signers s" "card (voters (s_Votes s2) x) > card (s_Signers s) div 2"
      using v pass(2) card_voters [of "s_Votes s2" x] c(2) by (auto simp: votes_ok_def voters_def)
    have r: "s_Recents (drop_recent number (s2\<lparr>s_Signers := S\<rparr>)) = s_Recents (drop_recent number (s\<lparr>s_Signers := S\<rparr>))" for S
      by (simp add: drop_recent_def Let_def recents_limit_def c(3))
    have "\<exists>V \<subseteq> s_Signers s. V \<subseteq> insert signer (voters (s_Votes s) x) \<and> card V > card (s_Signers s) div 2" using V c(6) by blast
    with pass_vote_fields [OF c(1) refl, of x number] pass(1) c r show ?thesis by (cases "x \<in> s_Signers s") (simp_all add: vote_outcome_def)
  qed
  then show ?thesis unfolding s'_def .
qed

subsection \<open>Recent signers\<close>

definition window_ok :: "nat \<Rightarrow> Snapshot \<Rightarrow> bool" where
  "window_ok n s \<longleftrightarrow>
     (\<forall>k x. s_Recents s k = Some x \<longrightarrow> unat k \<le> n \<and> n < unat k + (card (s_Signers s) div 2 + 1)) \<and>
     (\<forall>k k' x. s_Recents s k = Some x \<longrightarrow> s_Recents s k' = Some x \<longrightarrow> k = k')"

definition clique_ok :: "Snapshot \<Rightarrow> bool" where
  "clique_ok s \<longleftrightarrow> s_Epoch s \<noteq> 0 \<and> voting_ok s \<and> window_ok (unat (s_Number s)) s"

lemma unat_limit:
  assumes "card (s_Signers s) < 2 ^ 64"
  shows "unat (recents_limit s) = card (s_Signers s) div 2 + 1"
  using assms by (simp add: recents_limit_def unat_of_nat del: of_nat_Suc of_nat_add)

lemma drop_recent_Some:
  assumes "card (s_Signers s) < 2 ^ 64"
  shows "s_Recents (drop_recent number s) k = Some x \<longleftrightarrow> s_Recents s k = Some x \<and> unat number \<noteq> unat k + (card (s_Signers s) div 2 + 1)"
proof -
  let ?l = "recents_limit s"
  have "number \<ge> ?l \<and> k = number - ?l \<longleftrightarrow> unat number = unat k + unat ?l"
  proof
    assume "number \<ge> ?l \<and> k = number - ?l"
    then show "unat number = unat k + unat ?l" by (simp add: unat_sub word_le_nat_alt)
  next
    assume e: "unat number = unat k + unat ?l"
    then have le: "number \<ge> ?l" by (simp add: word_le_nat_alt)
    then have "unat (number - ?l) = unat k" using e by (simp add: unat_sub)
    then show "number \<ge> ?l \<and> k = number - ?l" using le by (simp add: word_unat_eq_iff)
  qed
  then show ?thesis unfolding unat_limit [OF assms] by (auto simp: drop_recent_def Let_def)
qed

text \<open>The window moves by one block; a smaller set of signers needs one more removal, which the code does.\<close>

lemma window_next:
  assumes "window_ok n s" "card (s_Signers s) < 2 ^ 64" "unat number = n + 1" "signer \<notin> ran (s_Recents (drop_recent number s))"
  shows "window_ok (n + 1) (s\<lparr>s_Recents := (s_Recents (drop_recent number s))(number \<mapsto> signer)\<rparr>)"
proof -
  let ?R = "s_Recents (drop_recent number s)" and ?L = "card (s_Signers s) div 2 + 1"
  have no: "?R k \<noteq> Some signer" for k using assms(4) by (auto simp: ran_def)
  have win: "unat k \<le> n \<and> n + 1 < unat k + ?L" if "?R k = Some x" for k x
  proof -
    have "s_Recents s k = Some x" "n + 1 \<noteq> unat k + ?L"
      using that assms(3) unfolding drop_recent_Some [OF assms(2)] by auto
    moreover from this(1) assms(1) have "unat k \<le> n" "n < unat k + ?L" unfolding window_ok_def by blast+
    ultimately show ?thesis by linarith
  qed
  have inj: "k = k'" if "?R k = Some x" "?R k' = Some x" for k k' x
    using that assms(1) unfolding drop_recent_Some [OF assms(2)] window_ok_def by blast
  let ?N = "?R(number \<mapsto> signer)"
  have A: "unat k \<le> n + 1 \<and> n + 1 < unat k + ?L" if "?N k = Some x" for k x
  proof (cases "k = number")
    case True
    then show ?thesis using assms(3) by simp
  next
    case False
    then have "?R k = Some x" using that by (simp add: fun_upd_other)
    then show ?thesis using win [of k x] by linarith
  qed
  have B: "k = k'" if "?N k = Some x" "?N k' = Some x" for k k' x
  proof (cases "x = signer")
    case True
    then show ?thesis using that no [of k] no [of k'] by (auto split: if_splits)
  next
    case False
    then have "?R k = Some x" "?R k' = Some x" using that by (auto split: if_splits)
    then show ?thesis by (rule inj)
  qed
  have sel: "s_Recents (s\<lparr>s_Recents := r\<rparr>) = r" "s_Signers (s\<lparr>s_Recents := r\<rparr>) = s_Signers s" for r by simp_all
  show ?thesis unfolding window_ok_def sel using A B by blast
qed

lemma window_signers:
  assumes "window_ok n s" "finite (s_Signers s)" "card (s_Signers s) < 2 ^ 64" "unat number = n"
    "s_Signers s' = s_Signers s \<and> s_Recents s' = s_Recents s \<or> s_Signers s' = insert x (s_Signers s) \<and> s_Recents s' = s_Recents s \<or>
     s_Signers s' = s_Signers s - {x} \<and> s_Recents s' = s_Recents (drop_recent number (s\<lparr>s_Signers := s_Signers s - {x}\<rparr>))"
  shows "window_ok n s'"
  using assms(5)
proof (elim disjE conjE)
  assume "s_Signers s' = s_Signers s" "s_Recents s' = s_Recents s"
  then show ?thesis using assms(1) by (simp add: window_ok_def)
next
  assume e: "s_Signers s' = insert x (s_Signers s)" "s_Recents s' = s_Recents s"
  have "card (s_Signers s) div 2 \<le> card (insert x (s_Signers s)) div 2" using assms(2) by (intro div_le_mono card_insert_le)
  then show ?thesis using assms(1) unfolding window_ok_def e by (meson add_le_mono less_le_trans order_refl)
next
  let ?s = "s\<lparr>s_Signers := s_Signers s - {x}\<rparr>"
  assume e: "s_Signers s' = s_Signers s - {x}" "s_Recents s' = s_Recents (drop_recent number ?s)"
  have card: "card (s_Signers s - {x}) < 2 ^ 64" "card (s_Signers s) \<le> card (s_Signers s - {x}) + 1"
    using assms(2,3) card_Diff1_le [of "s_Signers s" x] by (auto simp: card_Diff_singleton_if)
  have r: "s_Recents s' k = Some y \<longleftrightarrow> s_Recents s k = Some y \<and> n \<noteq> unat k + (card (s_Signers s - {x}) div 2 + 1)" for k y
    using drop_recent_Some [of ?s number k y] card(1) assms(4) by (simp add: e)
  have "n < unat k + (card (s_Signers s - {x}) div 2 + 1)" if "s_Recents s' k = Some y" for k y
  proof -
    have "n < unat k + (card (s_Signers s) div 2 + 1)" using that r assms(1) by (auto simp: window_ok_def)
    moreover have "card (s_Signers s) div 2 \<le> card (s_Signers s - {x}) div 2 + 1" using card(2) by linarith
    ultimately show ?thesis using that r by fastforce
  qed
  then show ?thesis using assms(1) r unfolding window_ok_def e(1) by blast
qed

subsection \<open>Applying headers\<close>

lemma voting_ok_cong:
  "s_Signers s' = s_Signers s \<Longrightarrow> s_Votes s' = s_Votes s \<Longrightarrow> s_Tally s' = s_Tally s \<Longrightarrow> voting_ok s' = voting_ok s"
  by (simp add: voting_ok_def)

lemma window_ok_cong: "s_Signers s' = s_Signers s \<Longrightarrow> s_Recents s' = s_Recents s \<Longrightarrow> window_ok n s' = window_ok n s"
  by (simp add: window_ok_def)

text \<open>The parts of an iteration: the reset at checkpoints, the removal of the oldest recent signer, the vote.\<close>

definition reset_votes :: "uint64 \<Rightarrow> Snapshot \<Rightarrow> Snapshot" where
  "reset_votes number s = (if number mod s_Epoch s = 0 then s\<lparr>s_Votes := [], s_Tally := Map.empty\<rparr> else s)"

lemma reset_votes_fields [simp]:
  "s_Signers (reset_votes number s) = s_Signers s" "s_Recents (reset_votes number s) = s_Recents s"
  "s_Epoch (reset_votes number s) = s_Epoch s" "s_Number (reset_votes number s) = s_Number s"
  by (simp_all add: reset_votes_def)

lemma reset_votes_ok: "voting_ok s \<Longrightarrow> voting_ok (reset_votes number s)" "set (s_Votes (reset_votes number s)) \<subseteq> set (s_Votes s)"
  by (auto simp: reset_votes_def voting_ok_def votes_ok_def tally_of_def)

definition vote_header :: "Header \<Rightarrow> address \<Rightarrow> uint64 \<Rightarrow> Snapshot \<Rightarrow> clique_error + Snapshot" where
  "vote_header header signer number s =
     (let s = s\<lparr>s_Recents := (s_Recents s)(number \<mapsto> signer)\<rparr>;
          (votes, s) = discard_vote signer (h_Coinbase header) (s_Votes s) s;
          s = s\<lparr>s_Votes := votes\<rparr>
      in if h_Nonce header = nonceAuthVote then Inr (tally_vote signer (h_Coinbase header) number True s)
         else if h_Nonce header = nonceDropVote then Inr (tally_vote signer (h_Coinbase header) number False s)
         else Inl errInvalidVote)"

lemma drop_reset_recents: "s_Recents (drop_recent number (reset_votes number s)) = s_Recents (drop_recent number s)"
  by (simp add: drop_recent_def recents_limit_def Let_def)

lemma apply_header_parts:
  "apply_header ecrecover header s =
     (if s_Epoch s = 0 then Inl cliquePanic
      else
        (case ecrecover header of
           Inl err \<Rightarrow> Inl err
         | Inr signer \<Rightarrow>
             if signer \<notin> s_Signers s then Inl errUnauthorizedSigner
             else if signer \<in> ran (s_Recents (drop_recent (word_of_int (h_Number header)) s)) then Inl errRecentlySigned
             else vote_header header signer (word_of_int (h_Number header))
               (drop_recent (word_of_int (h_Number header)) (reset_votes (word_of_int (h_Number header)) s))))"
proof -
  let ?n = "word_of_int (h_Number header) :: uint64"
  have "s_Signers (drop_recent ?n (reset_votes ?n s)) = s_Signers s" by simp
  then show ?thesis
    unfolding apply_header_def Let_def reset_votes_def [symmetric] drop_reset_recents vote_header_def by presburger
qed

lemma vote_header_eq:
  assumes "voting_ok s" "h_Nonce header = nonceAuthVote \<or> h_Nonce header = nonceDropVote"
  shows "\<exists>s1 auth. vote_header header signer number s = Inr (tally_vote signer (h_Coinbase header) number auth s1) \<and>
    s_Signers s1 = s_Signers s \<and> s_Recents s1 = (s_Recents s)(number \<mapsto> signer) \<and> voting_ok s1 \<and>
    s_Epoch s1 = s_Epoch s \<and> s_Number s1 = s_Number s \<and> set (s_Votes s1) \<subseteq> set (s_Votes s) \<and>
    (\<forall>v \<in> set (s_Votes s1). \<not> (v_Signer v = signer \<and> v_Address v = h_Coinbase header))"
proof -
  let ?s = "s\<lparr>s_Recents := (s_Recents s)(number \<mapsto> signer)\<rparr>"
  obtain votes s2 where d: "discard_vote signer (h_Coinbase header) (s_Votes ?s) ?s = (votes, s2)"
    by (cases "discard_vote signer (h_Coinbase header) (s_Votes ?s) ?s")
  have vs: "voting_ok ?s" using assms(1) by (subst voting_ok_cong [of _ s]) simp_all
  note dv = discard_vote_ok [OF vs d]
  have s2: "s_Signers s2 = s_Signers s" "s_Recents s2 = (s_Recents s)(number \<mapsto> signer)" "s_Epoch s2 = s_Epoch s" "s_Number s2 = s_Number s"
    by (subst dv(3), simp)+
  have "vote_header header signer number s =
      Inr (tally_vote signer (h_Coinbase header) number (h_Nonce header = nonceAuthVote) (s2\<lparr>s_Votes := votes\<rparr>))"
    using assms(2) d by (auto simp: vote_header_def Let_def)
  moreover have "set votes \<subseteq> set (s_Votes s)" "\<forall>v \<in> set votes. \<not> (v_Signer v = signer \<and> v_Address v = h_Coinbase header)"
    using dv(2) by auto
  ultimately show ?thesis using s2 dv(1) by (intro exI [of _ "s2\<lparr>s_Votes := votes\<rparr>"] exI [of _ "h_Nonce header = nonceAuthVote"]) simp
qed

lemma vote_header_nonce: "vote_header header signer number s = Inr s' \<Longrightarrow> h_Nonce header = nonceAuthVote \<or> h_Nonce header = nonceDropVote"
  by (auto simp: vote_header_def Let_def split: if_splits prod.splits)

definition majority_for :: "(Header \<Rightarrow> clique_error + address) \<Rightarrow> Header \<Rightarrow> Snapshot \<Rightarrow> bool" where
  "majority_for ecrecover header s \<longleftrightarrow>
     (\<exists>signer V. ecrecover header = Inr signer \<and> V \<subseteq> s_Signers s \<and> V \<subseteq> insert signer (voters (s_Votes s) (h_Coinbase header)) \<and>
        card V > card (s_Signers s) div 2)"

lemma apply_header_ok:
  assumes "apply_header ecrecover header s = Inr s'" "voting_ok s" "window_ok n s" "card (s_Signers s) < 2 ^ 64"
    "unat (word_of_int (h_Number header) :: uint64) = n + 1"
  shows "voting_ok s' \<and> window_ok (n + 1) s' \<and> s_Epoch s' = s_Epoch s \<and> s_Number s' = s_Number s \<and> card (s_Signers s') \<le> card (s_Signers s) + 1 \<and>
    (s_Signers s' = s_Signers s \<or>
     majority_for ecrecover header s \<and>
     s_Signers s' = (if h_Coinbase header \<in> s_Signers s then s_Signers s - {h_Coinbase header} else insert (h_Coinbase header) (s_Signers s)))"
proof -
  let ?n = "word_of_int (h_Number header) :: uint64" and ?x = "h_Coinbase header"
  let ?s = "drop_recent ?n (reset_votes ?n s)"
  obtain signer where sg: "ecrecover header = Inr signer" "signer \<in> s_Signers s" "signer \<notin> ran (s_Recents (drop_recent ?n s))"
    "vote_header header signer ?n ?s = Inr s'"
    using assms(1) unfolding apply_header_parts by (auto split: if_splits sum.splits)
  have vo: "voting_ok ?s" using reset_votes_ok(1) [OF assms(2), of ?n] by (subst voting_ok_cong [of _ "reset_votes ?n s"]) simp_all
  from vote_header_eq [OF vo vote_header_nonce [OF sg(4)], of signer ?n] sg(4) obtain s1 auth where s1: "s' = tally_vote signer ?x ?n auth s1"
    "s_Signers s1 = s_Signers s" "s_Recents s1 = (s_Recents (drop_recent ?n s))(?n \<mapsto> signer)" "voting_ok s1"
    "s_Epoch s1 = s_Epoch s" "s_Number s1 = s_Number s" "set (s_Votes s1) \<subseteq> set (s_Votes (reset_votes ?n s))"
    "\<forall>v \<in> set (s_Votes s1). \<not> (v_Signer v = signer \<and> v_Address v = ?x)"
    unfolding drop_reset_recents by auto
  have out: "vote_outcome signer ?x ?n s1 s'"
    unfolding s1(1) using s1(2,4,8) sg(2) by (intro tally_vote_ok) simp_all
  have w1: "window_ok (n + 1) s1"
    using window_next [OF assms(3,4,5) sg(3)] s1(2,3)
    by (subst window_ok_cong [of _ "s\<lparr>s_Recents := (s_Recents (drop_recent ?n s))(?n \<mapsto> signer)\<rparr>"]) simp_all
  have fin: "finite (s_Signers s1)" using s1(4) by (simp add: voting_ok_def)
  have "window_ok (n + 1) s'"
    using out assms(4,5) s1(2) fin by (intro window_signers [OF w1, where x = ?x and number = ?n]) (auto simp: vote_outcome_def)
  moreover have "card (s_Signers s') \<le> card (s_Signers s) + 1"
    using out s1(2) fin card_insert_le_m1 by (auto simp: vote_outcome_def card_insert_if card_Diff_singleton_if)
  moreover have "majority_for ecrecover header s" if "V \<subseteq> s_Signers s" "V \<subseteq> insert signer (voters (s_Votes s1) ?x)" "card V > card (s_Signers s) div 2" for V
  proof -
    have "voters (s_Votes s1) ?x \<subseteq> voters (s_Votes s) ?x" using s1(7) reset_votes_ok(2) [of ?n s] by (auto simp: voters_def)
    with that sg(1) show ?thesis unfolding majority_for_def by blast
  qed
  ultimately show ?thesis using out s1(2,5,6) unfolding vote_outcome_def by auto
qed

end
