(* ===== verification/Clique_Properties.thy ===== *)
theory Clique_Properties
  imports Clique_Voting
begin

section \<open>Package consensus/clique: what a chain of signed headers guarantees\<close>

text \<open>
  The invariant of voting snapshots along \<^verbatim>\<open>Snapshot.apply\<close>, the electorate changes only by majority, some signer may
  always sign the next block, exactly one signer is in turn, and the relation between the three places of the source that
  test for recent signers: \<^verbatim>\<open>apply\<close>, \<^verbatim>\<open>Seal\<close> and \<^verbatim>\<open>verifySeal\<close>.
\<close>

subsection \<open>Runs of headers\<close>

lemma unat_next: "unat (w :: uint64) + 1 < 2 ^ 64 \<Longrightarrow> unat (w + 1) = unat w + 1"
  by (simp add: unat_word_ariths)

lemma apply_headers_ok:
  assumes "apply_headers ecrecover headers s = Inr s'" "voting_ok s" "window_ok n s" "contiguous headers"
    "headers \<noteq> [] \<Longrightarrow> unat (word_of_int (h_Number (hd headers)) :: uint64) = n + 1"
    "n + length headers < 2 ^ 64" "card (s_Signers s) + length headers < 2 ^ 64"
  shows "voting_ok s' \<and> window_ok (n + length headers) s' \<and> s_Epoch s' = s_Epoch s \<and> s_Number s' = s_Number s"
  using assms
proof (induction headers arbitrary: s n)
  case Nil
  then show ?case by simp
next
  case (Cons h hs)
  obtain s1 where s1: "apply_header ecrecover h s = Inr s1" "apply_headers ecrecover hs s1 = Inr s'"
    using Cons.prems(1) by (auto split: sum.splits)
  have c: "card (s_Signers s) < 2 ^ 64" using Cons.prems(7) by simp
  have n: "unat (word_of_int (h_Number h) :: uint64) = n + 1" using Cons.prems(5) by simp
  note a = apply_header_ok [OF s1(1) Cons.prems(2,3) c n]
  have "contiguous hs" using Cons.prems(4) by (cases hs) auto
  moreover have "unat (word_of_int (h_Number (hd hs)) :: uint64) = n + 1 + 1" if ne: "hs \<noteq> []"
  proof -
    obtain g gs where hs: "hs = g # gs" using ne by (cases hs) auto
    have g: "(word_of_int (h_Number g) :: uint64) = word_of_int (h_Number h) + 1" using Cons.prems(4) hs by simp
    have "n + 1 + 1 < 2 ^ 64" using Cons.prems(6) hs by simp
    then show ?thesis using n unfolding hs list.sel g by (subst unat_next) simp_all
  qed
  moreover have "n + 1 + length hs < 2 ^ 64" "card (s_Signers s1) + length hs < 2 ^ 64" using Cons.prems(6,7) a by auto
  ultimately have "voting_ok s' \<and> window_ok (n + 1 + length hs) s' \<and> s_Epoch s' = s_Epoch s1 \<and> s_Number s' = s_Number s1"
    using a by (intro Cons.IH [OF s1(2)]) auto
  then show ?case using a by simp
qed

lemma newSnapshot_ok: "epoch \<noteq> 0 \<Longrightarrow> clique_ok (newSnapshot epoch number h as)"
  by (simp add: clique_ok_def newSnapshot_def voting_ok_def votes_ok_def window_ok_def tally_of_def fun_eq_iff)

lemma snapshot_apply_one:
  assumes "word_of_int (h_Number header) = s_Number s + 1"
  shows "snapshot_apply H ecrecover [header] s =
    (case apply_header ecrecover header s of Inl err \<Rightarrow> Inl err
     | Inr s' \<Rightarrow> Inr (s'\<lparr>s_Number := s_Number s' + 1, s_Hash := Header_Hash H header\<rparr>))"
  using assms by (auto simp: snapshot_apply_def split: sum.splits)

subsection \<open>The next block\<close>

text \<open>Who may sign: the signers that \<^verbatim>\<open>drop_recent\<close> does not leave among the recent ones.\<close>

lemma recents_bound:
  assumes "window_ok n s" "card (s_Signers s) < 2 ^ 64" "unat number = n + 1"
  shows "card (ran (s_Recents (drop_recent number s))) \<le> card (s_Signers s) div 2"
proof -
  let ?R = "s_Recents (drop_recent number s)" and ?L = "card (s_Signers s) div 2 + 1"
  have "unat k \<in> {n + 2 - ?L..n}" if "k \<in> dom ?R" for k
  proof -
    from that obtain x where "?R k = Some x" by auto
    then have k: "s_Recents s k = Some x" "n + 1 \<noteq> unat k + ?L" using assms(3) unfolding drop_recent_Some [OF assms(2)] by auto
    then have "unat k \<le> n" "n < unat k + ?L" using assms(1) unfolding window_ok_def by blast+
    then show ?thesis using k(2) by simp
  qed
  then have sub: "unat ` dom ?R \<subseteq> {n + 2 - ?L..n}" by blast
  have inj: "inj_on (unat :: uint64 \<Rightarrow> nat) (dom ?R)" by (simp add: inj_on_def word_unat_eq_iff)
  have "card (dom ?R) = card (unat ` dom ?R)" using card_image [OF inj] by simp
  also have "\<dots> \<le> card {n + 2 - ?L..n}" by (rule card_mono [OF _ sub]) simp
  also have "\<dots> \<le> card (s_Signers s) div 2" by simp
  finally have d: "card (dom ?R) \<le> card (s_Signers s) div 2" .
  have "ran ?R = (\<lambda>k. the (?R k)) ` dom ?R" by (force simp: ran_def)
  then have "card (ran ?R) \<le> card (dom ?R)" by (simp add: card_image_le)
  then show ?thesis using d by linarith
qed

lemma may_seal_iff:
  assumes "window_ok n s" "card (s_Signers s) < 2 ^ 64" "unat number = n + 1"
  shows "may_seal s number signer \<longleftrightarrow> signer \<in> s_Signers s \<and> signer \<notin> ran (s_Recents (drop_recent number s))"
proof -
  have "(number < recents_limit s \<or> seen > number - recents_limit s) \<longleftrightarrow> unat number \<noteq> unat seen + (card (s_Signers s) div 2 + 1)"
    if "s_Recents s seen = Some signer" for seen
  proof -
    have w: "unat seen \<le> n" "n < unat seen + (card (s_Signers s) div 2 + 1)" using that assms(1) unfolding window_ok_def by blast+
    show ?thesis
    proof (cases "number < recents_limit s")
      case True
      then show ?thesis using unat_limit [OF assms(2)] by (simp add: word_less_nat_alt)
    next
      case False
      then have "unat (number - recents_limit s) = n + 1 - (card (s_Signers s) div 2 + 1)"
        using unat_limit [OF assms(2)] assms(3) by (simp add: unat_sub not_less)
      then show ?thesis using False w assms(3) unat_limit [OF assms(2)] by (auto simp: word_less_nat_alt)
    qed
  qed
  then have "(\<exists>seen. s_Recents s seen = Some signer \<and> (number < recents_limit s \<or> seen > number - recents_limit s)) \<longleftrightarrow>
      signer \<in> ran (s_Recents (drop_recent number s))"
    unfolding ran_def mem_Collect_eq drop_recent_Some [OF assms(2)] by blast
  then show ?thesis unfolding may_seal_def by blast
qed

text \<open>A header is accepted exactly if its signer may sign, when its nonce is one of the two votes.\<close>

lemma apply_accepts:
  assumes "clique_ok s" "card (s_Signers s) < 2 ^ 64" "unat (s_Number s) + 1 < 2 ^ 64" "word_of_int (h_Number header) = s_Number s + 1"
    "h_Nonce header = nonceAuthVote \<or> h_Nonce header = nonceDropVote" "ecrecover header = Inr signer"
  shows "(\<exists>s'. snapshot_apply H ecrecover [header] s = Inr s') \<longleftrightarrow> may_seal s (s_Number s + 1) signer"
proof -
  let ?n = "s_Number s + 1" and ?s = "drop_recent (s_Number s + 1) (reset_votes (s_Number s + 1) s)"
  have w: "window_ok (unat (s_Number s)) s" and v: "voting_ok s" and e: "s_Epoch s \<noteq> 0" using assms(1) by (simp_all add: clique_ok_def)
  have vo: "voting_ok ?s" using reset_votes_ok(1) [OF v, of ?n] by (subst voting_ok_cong [of _ "reset_votes ?n s"]) simp_all
  obtain s1 where "vote_header header signer ?n ?s = Inr s1" using vote_header_eq [OF vo assms(5), of signer ?n] by blast
  then have "(\<exists>s'. apply_header ecrecover header s = Inr s') \<longleftrightarrow> signer \<in> s_Signers s \<and> signer \<notin> ran (s_Recents (drop_recent ?n s))"
    using e assms(6) unfolding apply_header_parts assms(4) by auto
  then show ?thesis
    unfolding may_seal_iff [OF w assms(2) unat_next [OF assms(3)]] snapshot_apply_one [OF assms(4)] by (auto split: sum.splits)
qed

lemma some_may_seal:
  assumes "clique_ok s" "s_Signers s \<noteq> {}" "card (s_Signers s) < 2 ^ 64" "unat (s_Number s) + 1 < 2 ^ 64"
  shows "\<exists>signer. may_seal s (s_Number s + 1) signer"
proof -
  let ?r = "ran (s_Recents (drop_recent (s_Number s + 1) s))"
  have w: "window_ok (unat (s_Number s)) s" and f: "finite (s_Signers s)" using assms(1) by (simp_all add: clique_ok_def voting_ok_def)
  have "0 < card (s_Signers s)" using assms(2) f by (simp add: card_gt_0_iff)
  then have "card ?r < card (s_Signers s)" using recents_bound [OF w assms(3) unat_next [OF assms(4)]] by linarith
  then have "\<not> s_Signers s \<subseteq> ?r" using card_mono [of ?r "s_Signers s"] by (auto simp: finite_ran)
  then show ?thesis unfolding may_seal_iff [OF w assms(3) unat_next [OF assms(4)]] by blast
qed

subsection \<open>Turns\<close>

lemma inturn_offset_nth: "distinct as \<Longrightarrow> k < length as \<Longrightarrow> inturn_offset as (as ! k) = k"
proof (induction as arbitrary: k)
  case (Cons a as)
  then show ?case by (cases k) auto
qed simp

lemma inturn_offset_less: "a \<in> set as \<Longrightarrow> inturn_offset as a < length as \<and> as ! inturn_offset as a = a"
  by (induction as) auto

lemma inturn_nth:
  assumes "finite (s_Signers s)" "s_Signers s \<noteq> {}" "card (s_Signers s) < 2 ^ 64" "signer \<in> s_Signers s"
  shows "inturn s number signer = Some (signer = signers s ! (unat number mod card (s_Signers s)))"
proof -
  let ?l = "card (s_Signers s)" and ?o = "inturn_offset (signers s) signer"
  have l: "length (signers s) = ?l" "distinct (signers s)" "set (signers s) = s_Signers s" using assms(1) by (simp_all add: signers_def)
  have pos: "0 < ?l" using assms(1,2) by (simp add: card_gt_0_iff)
  have o: "?o < ?l" "signers s ! ?o = signer" using inturn_offset_less [of signer "signers s"] assms(4) l by auto
  have u: "unat (number mod word_of_nat ?l) = unat number mod ?l" using assms(3) by (simp add: unat_mod unat_of_nat)
  have "number mod word_of_nat ?l = word_of_nat ?o \<longleftrightarrow> unat number mod ?l = ?o"
    using u o(1) assms(3) by (simp add: word_unat_eq_iff unat_of_nat)
  also have "\<dots> \<longleftrightarrow> signer = signers s ! (unat number mod ?l)"
    using o inturn_offset_nth [OF l(2), of "unat number mod ?l"] pos by (auto simp: l(1))
  finally show ?thesis using assms(2) l(1) pos by (simp add: inturn_def)
qed

subsection \<open>Properties\<close>

text \<open>An example: five signers, and headers whose signer is read off the block number.\<close>

definition five_signers :: Snapshot where
  "five_signers = newSnapshot 30000 0 zeroHash [1, 2, 3, 4, 5]"

definition clique_header :: "int \<Rightarrow> address \<Rightarrow> Header" where
  "clique_header number candidate = example_header\<lparr>h_Number := number, h_Difficulty := 1, h_Coinbase := candidate, h_Nonce := nonceAuthVote\<rparr>"

definition zero_hash :: "bytes \<Rightarrow> bytes" where "zero_hash _ = zeroHash"

lemmas clique_eval = snapshot_apply_def apply_header_def drop_recent_def recents_limit_def tally_vote_def pass_vote_def cast_vote_def
  validVote_def five_signers_def newSnapshot_def clique_header_def example_header_def nonceAuthVote_def nonceDropVote_def Let_def

definition one_signed :: Snapshot where
  "one_signed = five_signers\<lparr>s_Number := 1, s_Recents := [1 \<mapsto> 1], s_Votes := [\<lparr>v_Signer = 1, v_Block = 1, v_Address = 9, v_Authorize = True\<rparr>],
     s_Tally := [9 \<mapsto> \<lparr>t_Authorize = True, t_Votes = 1\<rparr>]\<rparr>"

lemma one_signed_step: "snapshot_apply zero_hash (\<lambda>_. Inr 1) [clique_header 1 9] five_signers = Inr one_signed"
  by (simp add: clique_eval one_signed_def Header_Hash_def rlpHash_def zero_hash_def)

lemma one_signed_again:
  "verifySeal (\<lambda>_. Inr 1) one_signed (clique_header 2 9) False = None"
  "snapshot_apply zero_hash (\<lambda>_. Inr 1) [clique_header 2 9] one_signed = Inl errRecentlySigned"
  by (simp_all add: clique_eval one_signed_def verifySeal_def inturn_def signers_def diffNoTurn_def)

lemma one_signed_ok: "clique_ok one_signed"
  by (auto simp: clique_ok_def voting_ok_def votes_ok_def window_ok_def tally_of_def one_signed_def five_signers_def newSnapshot_def fun_eq_iff
      split: if_splits)

definition single_signer :: Snapshot where
  "single_signer = newSnapshot 30000 0 zeroHash [1]"

definition single_grown :: Snapshot where
  "single_grown = single_signer\<lparr>s_Number := 1, s_Signers := {1, 9}, s_Recents := [1 \<mapsto> 1]\<rparr>"

lemma single_signer_step: "snapshot_apply zero_hash (\<lambda>_. Inr 1) [(clique_header 1 9)\<lparr>h_Difficulty := 2\<rparr>] single_signer = Inr single_grown"
  by (auto simp add: clique_eval single_signer_def single_grown_def Header_Hash_def rlpHash_def zero_hash_def)

lemma example_ok: "clique_ok five_signers" "clique_ok single_signer"
  by (simp_all add: five_signers_def single_signer_def newSnapshot_ok)

text \<open>C10: the invariant of voting snapshots (the tally counts the pending votes, every vote is by a current signer, is the only one of its
  signer on its account and would change the status of that account; the recent signers are pairwise distinct and signed within
  the last len(Signers)/2+1 blocks) holds after Snapshot.apply on any run of headers that it accepts, up to the wrap-around
  of the 64-bit block number.\<close>

theorem snapshot_apply_invariant:
  assumes "clique_ok s" "snapshot_apply H ecrecover headers s = Inr s'"
    "unat (s_Number s) + length headers < 2 ^ 64" "card (s_Signers s) + length headers < 2 ^ 64"
  shows "clique_ok s' \<and> unat (s_Number s') = unat (s_Number s) + length headers"
proof (cases "headers = []")
  case True
  then show ?thesis using assms(1,2) by (simp add: snapshot_apply_def)
next
  case False
  from assms(2) False obtain s1 where s1: "contiguous headers" "word_of_int (h_Number (hd headers)) = s_Number s + 1"
    "apply_headers ecrecover headers s = Inr s1" "s' = s1\<lparr>s_Number := s_Number s1 + word_of_nat (length headers), s_Hash := Header_Hash H (last headers)\<rparr>"
    unfolding snapshot_apply_def by (auto split: if_splits sum.splits)
  have l: "0 < length headers" using False by simp
  then have "unat (s_Number s) + 1 < 2 ^ 64" using assms(3) by linarith
  from unat_next [OF this] have r: "voting_ok s1 \<and> window_ok (unat (s_Number s) + length headers) s1 \<and> s_Epoch s1 = s_Epoch s \<and> s_Number s1 = s_Number s"
    using assms(1,3,4) s1(1,2) by (intro apply_headers_ok [OF s1(3)]) (auto simp: clique_ok_def)
  have n: "unat (s_Number s') = unat (s_Number s) + length headers"
    using r assms(3) unfolding s1(4) by (simp add: unat_word_ariths unat_of_nat)
  have "voting_ok s' \<and> window_ok (unat (s_Number s')) s' \<and> s_Epoch s' = s_Epoch s"
    unfolding n using r by (simp add: s1(4) voting_ok_def window_ok_def)
  then show ?thesis using assms(1) n unfolding clique_ok_def by simp
qed

theorem snapshot_apply_invariant_witness:
  "snapshot_apply zero_hash (\<lambda>_. Inr 1) [clique_header 1 9] five_signers = Inr one_signed \<and> clique_ok one_signed \<and> unat (s_Number one_signed) = 1"
  using snapshot_apply_invariant [OF example_ok(1) one_signed_step] one_signed_step by (simp add: five_signers_def newSnapshot_def)

text \<open>C11: one header changes the set of signers at most by its vote's candidate (added if it was no signer, removed if it was one),
  and only when more than half of the current signers, the author of the header and the authors of pending votes about that
  candidate, support the change.\<close>

theorem signers_change_by_majority:
  assumes "clique_ok s" "card (s_Signers s) < 2 ^ 64" "unat (s_Number s) + 1 < 2 ^ 64"
    "snapshot_apply H ecrecover [header] s = Inr s'" "s_Signers s' \<noteq> s_Signers s"
  shows "\<exists>signer V. ecrecover header = Inr signer \<and> V \<subseteq> s_Signers s \<and>
      V \<subseteq> insert signer {v_Signer v |v. v \<in> set (s_Votes s) \<and> v_Address v = h_Coinbase header} \<and> 2 * card V > card (s_Signers s) \<and>
      s_Signers s' = (if h_Coinbase header \<in> s_Signers s then s_Signers s - {h_Coinbase header} else insert (h_Coinbase header) (s_Signers s))"
proof -
  have n: "word_of_int (h_Number header) = s_Number s + 1" using assms(4) by (auto simp: snapshot_apply_def split: if_splits)
  obtain s1 where s1: "apply_header ecrecover header s = Inr s1" "s_Signers s' = s_Signers s1"
    using assms(4) unfolding snapshot_apply_one [OF n] by (auto split: sum.splits)
  have "majority_for ecrecover header s \<and>
      s_Signers s1 = (if h_Coinbase header \<in> s_Signers s then s_Signers s - {h_Coinbase header} else insert (h_Coinbase header) (s_Signers s))"
    using apply_header_ok [OF s1(1) _ _ assms(2)] unat_next [OF assms(3)] assms(1,5) n unfolding clique_ok_def s1(2) by metis
  moreover have "voters (s_Votes s) (h_Coinbase header) = {v_Signer v |v. v \<in> set (s_Votes s) \<and> v_Address v = h_Coinbase header}"
    by (auto simp: voters_def)
  moreover have "2 * m > k" if "m > k div 2" for m k :: nat using that by linarith
  ultimately show ?thesis unfolding majority_for_def s1(2) by (metis (no_types, lifting))
qed

theorem signers_change_by_majority_witness:
  "s_Signers single_grown \<noteq> s_Signers single_signer \<and> s_Signers single_grown = insert 9 (s_Signers single_signer)"
proof -
  have ne: "s_Signers single_grown \<noteq> s_Signers single_signer"
    by (auto simp: single_grown_def single_signer_def newSnapshot_def)
  have "card (s_Signers single_signer) < 2 ^ 64" "unat (s_Number single_signer) + 1 < 2 ^ 64" by (simp_all add: single_signer_def newSnapshot_def)
  from signers_change_by_majority [OF example_ok(2) this single_signer_step ne] ne
  show ?thesis by (auto simp: clique_header_def single_signer_def newSnapshot_def)
qed

text \<open>C12: a clique with signers is never stuck: at any snapshot with the invariant some signer passes the test of Seal for the next
  block, and every header for that block which that signer signed with a well-formed vote is accepted by Snapshot.apply.\<close>

theorem some_signer_can_sign:
  assumes "clique_ok s" "s_Signers s \<noteq> {}" "card (s_Signers s) < 2 ^ 64" "unat (s_Number s) + 1 < 2 ^ 64"
  shows "\<exists>signer \<in> s_Signers s. may_seal s (s_Number s + 1) signer \<and>
    (\<forall>H ecrecover header. word_of_int (h_Number header) = s_Number s + 1 \<longrightarrow> h_Nonce header = nonceAuthVote \<or> h_Nonce header = nonceDropVote \<longrightarrow>
       ecrecover header = Inr signer \<longrightarrow> (\<exists>s'. snapshot_apply H ecrecover [header] s = Inr s'))"
proof -
  obtain signer where m: "may_seal s (s_Number s + 1) signer" using some_may_seal [OF assms] by blast
  then have "signer \<in> s_Signers s" by (simp add: may_seal_def)
  with m show ?thesis using apply_accepts [OF assms(1,3,4)] by blast
qed

theorem some_signer_can_sign_witness:
  "\<exists>signer s'. signer \<in> s_Signers one_signed \<and> may_seal one_signed 2 signer \<and>
     snapshot_apply zero_hash (\<lambda>_. Inr signer) [clique_header 2 9] one_signed = Inr s'"
proof -
  have "s_Signers one_signed \<noteq> {}" "card (s_Signers one_signed) < 2 ^ 64" "unat (s_Number one_signed) + 1 < 2 ^ 64" "s_Number one_signed + 1 = 2"
    by (simp_all add: one_signed_def five_signers_def newSnapshot_def)
  moreover have "word_of_int (h_Number (clique_header 2 9)) = (2 :: uint64)" "h_Nonce (clique_header 2 9) = nonceAuthVote" by (simp_all add: clique_header_def)
  ultimately show ?thesis using some_signer_can_sign [OF one_signed_ok] by (metis (no_types, lifting))
qed

text \<open>C30: for every block number exactly one signer is in turn, the one at position number mod len(signers) of the ascending list.\<close>

theorem inturn_unique:
  assumes "finite (s_Signers s)" "s_Signers s \<noteq> {}" "card (s_Signers s) < 2 ^ 64"
  shows "\<exists>!signer. signer \<in> s_Signers s \<and> inturn s number signer = Some True"
proof
  let ?k = "unat number mod card (s_Signers s)"
  have "?k < card (s_Signers s)" using assms(1,2) by (simp add: card_gt_0_iff)
  then have "signers s ! ?k \<in> s_Signers s" using assms(1) nth_mem [of ?k "signers s"] by (simp add: signers_def)
  then show "signers s ! ?k \<in> s_Signers s \<and> inturn s number (signers s ! ?k) = Some True" using inturn_nth [OF assms] by simp
next
  show "a = signers s ! (unat number mod card (s_Signers s))" if "a \<in> s_Signers s \<and> inturn s number a = Some True" for a
    using that inturn_nth [OF assms, of a number] by simp
qed

theorem inturn_unique_witness: "\<exists>!signer. signer \<in> s_Signers five_signers \<and> inturn five_signers 7 signer = Some True"
  by (rule inturn_unique) (simp_all add: five_signers_def newSnapshot_def)

text \<open>C31: outside the first len(Signers)/2+1 blocks a header whose seal verifySeal accepts is also accepted by Snapshot.apply: the two
  tests for recent signers agree.\<close>

theorem verifySeal_apply_agree:
  assumes "clique_ok s" "card (s_Signers s) < 2 ^ 64" "unat (s_Number s) + 1 < 2 ^ 64" "word_of_int (h_Number header) = s_Number s + 1"
    "h_Nonce header = nonceAuthVote \<or> h_Nonce header = nonceDropVote" "s_Number s + 1 \<ge> recents_limit s"
    "verifySeal ecrecover s header fakeDiff = None"
  shows "\<exists>s'. snapshot_apply H ecrecover [header] s = Inr s'"
proof -
  obtain signer where sg: "ecrecover header = Inr signer" "signer \<in> s_Signers s"
    "\<not> (\<exists>seen. s_Recents s seen = Some signer \<and> seen > s_Number s + 1 - recents_limit s)"
    using assms(7) unfolding verifySeal_def Let_def assms(4) by (auto split: if_splits sum.splits)
  then have "may_seal s (s_Number s + 1) signer" using assms(6) unfolding may_seal_def by (simp add: not_less)
  then show ?thesis using apply_accepts [where ecrecover = ecrecover, OF assms(1-5) sg(1)] by blast
qed

theorem verifySeal_apply_agree_witness:
  "\<exists>s'. verifySeal (\<lambda>_. Inr 1) single_signer ((clique_header 1 9)\<lparr>h_Difficulty := 2\<rparr>) False = None \<and>
     snapshot_apply zero_hash (\<lambda>_. Inr 1) [(clique_header 1 9)\<lparr>h_Difficulty := 2\<rparr>] single_signer = Inr s'"
proof -
  let ?h = "(clique_header 1 9)\<lparr>h_Difficulty := 2\<rparr>"
  have v: "verifySeal (\<lambda>_. Inr 1) single_signer ?h False = None"
    by (simp add: clique_eval single_signer_def verifySeal_def inturn_def signers_def diffInTurn_def)
  have "\<exists>s'. snapshot_apply zero_hash (\<lambda>_. Inr 1) [?h] single_signer = Inr s'"
    by (rule verifySeal_apply_agree [OF example_ok(2) _ _ _ _ _ v]) (simp_all add: clique_eval single_signer_def)
  with v show ?thesis by blast
qed


end
