(* ===== verification/Spec2Isabelle.thy ===== *)
theory Spec2Isabelle
  imports Go_Prelude Rlp_Raw Rlp_Encode Rlp_Decode Rlp_Codec Trie_Encoding Trie_Spec Trie Trie_Hash Trie_Map Trie_Proof State_Access_List State_DB State_Journal State_Snapshots State_Refinement State_Properties
    Chain_Config Block_Header Ethash_Difficulty Clique_Snapshot Clique_Voting Clique_Properties
begin

text \<open>
  A verification development of parts of the Go implementation of an Avalanria node (package paths below are relative to
  \<^verbatim>\<open>src/\<close>).

  \<^bold>\<open>The program and its parts.\<close> A node keeps a chain of blocks. The \<^emph>\<open>consensus engine\<close> decides whether a header may follow its parent: the
  proof-of-work rules of \<^verbatim>\<open>consensus/ethash\<close> or the proof-of-authority rules of \<^verbatim>\<open>consensus/clique\<close>, both over the fork schedule of
  \<^verbatim>\<open>params/config.go\<close> and the gas and fee rules of \<^verbatim>\<open>consensus/misc\<close>. Executing the transactions of a block reads and writes
  accounts through \<^verbatim>\<open>core/state\<close>, a cache with a journal over Merkle tries; contract calls take snapshots and revert to
  them. The tries of package \<^verbatim>\<open>trie\<close> commit to the accounts with a root hash in the header and give Merkle proofs to light
  clients. Headers, trie nodes and accounts are hashed and stored in the serialisation of package \<^verbatim>\<open>rlp\<close>.

  \<^bold>\<open>Conventions.\<close> \<open>Go_Prelude\<close> names the Go types: bytes are \<^typ>\<open>8 word\<close>, \<^verbatim>\<open>uint64\<close> is \<^typ>\<open>64 word\<close> with its wrap-around, an address
  is \<^typ>\<open>160 word\<close>, a \<^verbatim>\<open>*big.Int\<close> is \<^typ>\<open>int\<close> (an option where nil is meaningful). A Go panic is \<open>None\<close> or an error value of its own, an
  error return is \<open>Inl\<close>, \<open>Err\<close> or a value of an error datatype, lack of fuel is \<open>OutOfFuel\<close> or \<open>None\<close> where the theory says so. Mutable
  structures are records passed from operation to operation. Code outside the repository and Go interfaces are arguments:
  the hash function \<open>H\<close>, the node database of a trie, the record \<open>backend\<close> of the state (database, trie and flat snapshot
  readers), the record \<open>uint256_ops\<close> (package \<^verbatim>\<open>holiman/uint256\<close>), signature recovery and the proof-of-work test.

  \<^bold>\<open>Package rlp\<close> (four theories).
  \<^item> \<open>Rlp_Raw\<close>: \<^verbatim>\<open>raw.go\<close>, \<^verbatim>\<open>iterator.go\<close> and the size helpers. \<^verbatim>\<open>Split\<close> accepts exactly the canonical encodings, \<^verbatim>\<open>CountValues\<close> counts them,
    integers make a round trip, the size functions give the written lengths.
  \<^item> \<open>Rlp_Encode\<close>: the two-pass encoder of \<^verbatim>\<open>encode.go\<close> (\<^verbatim>\<open>encbuf\<close>, the writers, \<^verbatim>\<open>toBytes\<close>). It refines the recursive definition of the format.
  \<^item> \<open>Rlp_Decode\<close>, \<open>Rlp_Codec\<close>: the \<^verbatim>\<open>Stream\<close> of \<^verbatim>\<open>decode.go\<close> and its decoders; the locale \<open>stream_codec\<close> is the contract between
    a decoder and the decoders of its elements, interpreted on byte strings, lists and interface values. Decoding inverts
    encoding, accepts canonical input only and ends with as much fuel as the input is long.

  \<^bold>\<open>Package trie\<close> (six theories).
  \<^item> \<open>Trie_Encoding\<close>: \<^verbatim>\<open>encoding.go\<close>, the three forms of keys, their round trips and the conversion in place.
  \<^item> \<open>Trie_Spec\<close>: the specification, trees without hashes and caches, the map they stand for, and uniqueness of the canonical tree of a map.
  \<^item> \<open>Trie\<close>: \<^verbatim>\<open>node.go\<close>, \<^verbatim>\<open>trie.go\<close>: \<^verbatim>\<open>TryGet\<close>, \<^verbatim>\<open>TryUpdate\<close>, \<^verbatim>\<open>TryDelete\<close> with loading of nodes, simulated by the specification through \<open>expands\<close>.
  \<^item> \<open>Trie_Hash\<close>: \<^verbatim>\<open>hasher.go\<close> with cached hashes, encoding and decoding of nodes.
  \<^item> \<open>Trie_Map\<close>: the locale \<open>kv_store\<close>, a map with a root hash that depends on the contents only, interpreted on the trie.
  \<^item> \<open>Trie_Proof\<close>: \<^verbatim>\<open>proof.go\<close>: soundness and completeness of Merkle proofs, and safety of the verifier and of the node decoder on all inputs.

  \<^bold>\<open>Package core/state\<close> (six theories).
  \<^item> \<open>State_Access_List\<close>: \<^verbatim>\<open>access_list.go\<close>, its well-formedness and the operations that undo additions.
  \<^item> \<open>State_DB\<close>: \<^verbatim>\<open>state_object.go\<close>, \<^verbatim>\<open>journal.go\<close>, \<^verbatim>\<open>statedb.go\<close> between two commits: layered storage, all journalled operations, revisions, \<^verbatim>\<open>Finalise\<close>.
  \<^item> \<open>State_Journal\<close>, \<open>State_Snapshots\<close>, \<open>State_Refinement\<close>: the abstract machine that copies the whole world at every snapshot, undoing
    of journal entries on worlds, and the simulation operation by operation.
  \<^item> \<open>State_Properties\<close>: every run of operations on a fresh state gives the results of the abstract machine; a revert restores all
    observables; the invariant of reachable states; which operations panic; independence of \<^verbatim>\<open>Finalise\<close> from the order of a Go map.

  \<^bold>\<open>Configuration and headers.\<close>
  \<^item> \<open>Chain_Config\<close>: \<^verbatim>\<open>params/config.go\<close>. An accepted fork order makes the rules monotone; the search for the lowest conflict of two
    configurations, a loop without bound (\<^verbatim>\<open>partial_function\<close>), returns, and rewinding to its result removes the conflict.
  \<^item> \<open>Block_Header\<close>: the header of \<^verbatim>\<open>core/types/block.go\<close>, \<^verbatim>\<open>consensus/misc\<close>, \<^verbatim>\<open>core/gaspool.go\<close> and \<^verbatim>\<open>CalcGasLimit\<close>: exact acceptance and the
    wrap-around of the gas limit test, bounds on the base fee, and that proposed gas limits are accepted.

  \<^bold>\<open>Consensus engines.\<close>
  \<^item> \<open>Ethash_Difficulty\<close>: the difficulty calculators of \<^verbatim>\<open>consensus.go\<close> and \<^verbatim>\<open>difficulty.go\<close> agree; chains of headers accepted by \<^verbatim>\<open>verifyHeader\<close>
    (the inductive relation \<open>verified_chain\<close>) keep their invariant.
  \<^item> \<open>Clique_Snapshot\<close>: \<^verbatim>\<open>snapshot.go\<close> and the header checks of \<^verbatim>\<open>clique.go\<close>; \<open>Clique_Voting\<close>: the invariant of votes, tally and recent signers;
    \<open>Clique_Properties\<close>: it holds along \<^verbatim>\<open>Snapshot.apply\<close>, signers change by majority only, the clique is never stuck, one signer
    is in turn, and how \<^verbatim>\<open>apply\<close>, \<^verbatim>\<open>Seal\<close> and \<^verbatim>\<open>verifySeal\<close> agree or differ on recent signers.

  \<^bold>\<open>Bounds and fuel.\<close> Recursion through loaded trie nodes has fuel \<open>4 * length key + 4\<close>: a key of n bytes has 2n+1 nibbles, each level consumes
  one and may resolve one hash first. \<^verbatim>\<open>VerifyProof\<close> has fuel above 2n+1, one round per nibble on an honest proof. Decoders of nodes
  and of RLP values have fuel above the length of the input, which every nested value shortens. Byte strings are shorter than
  \<open>2^63\<close>, as Go slices are. The equivalence of the difficulty calculators assumes difficulties below \<open>2^250\<close> and block
  numbers below 25 million, so that neither the sum nor the exponential term leaves 256 bits. The clique results stop at the
  wrap-around of the 64-bit block number.

  \<^bold>\<open>Not modelled.\<close> Reflection over Go types, buffer pools and io adaptors of rlp; range proofs, iterators, the stack trie, the
  reference-counting database and synchronisation of tries; \<^verbatim>\<open>Commit\<close>, \<^verbatim>\<open>IntermediateRoot\<close>, \<^verbatim>\<open>Copy\<close> and storage iteration of the state, which
  write or walk tries; uncles, rewards and the mining data set of ethash; the snapshot cache, timing and signing of clique; the virtual
  machine, whose words and precompiles live in other repositories; the block chain, transaction pool and miner, which are concurrent
  programs over a database; networking, key storage, RPC, commands and bindings, which are input and output.
\<close>


end
